theory Spec2Isabelle
  imports Complex_Main "HOL-Library.Word"
begin

section \<open>Shared queues (squeue.c): the consumer ring\<close>

text \<open>
  The model follows \<^verbatim>\<open>squeue.c\<close>. A consumer queue is a cyclic byte buffer inside the
  shared memory segment; \<^verbatim>\<open>cs_qstart\<close> points to its first byte. Here the field
  \<open>cs_qstart\<close> holds the bytes stored at that address, \<open>cs_qlength\<close> many of them.
  The \<^verbatim>\<open>int\<close> fields of the C structures are integers; every position and length that
  occurs stays between 0 and the queue length, far from the limits of a C \<^verbatim>\<open>int\<close>.
\<close>

type_synonym byte = "8 word"

text \<open>\<^verbatim>\<open>#define LONG_TUPLE -42\<close>\<close>

definition LONG_TUPLE :: int where
  "LONG_TUPLE = - 42"

text \<open>The \<^verbatim>\<open>CONSUMER_*\<close> defines (0, 1, 2, 3), the values of \<^verbatim>\<open>cs_status\<close>.\<close>

datatype cons_status = CONSUMER_ACTIVE | CONSUMER_EOF | CONSUMER_ERROR | CONSUMER_DONE

record ConsState =
  cs_pid :: int
  cs_node :: int
  cs_ntuples :: int
  cs_status :: cons_status
  cs_qstart :: "byte list"
  cs_qlength :: int
  cs_qreadpos :: int
  cs_qwritepos :: int

text \<open>
  \<^verbatim>\<open>sizeof(int)\<close> is 4. The tuple length is copied into the queue as the four bytes of a
  C \<^verbatim>\<open>int\<close> in host order (least significant byte first here; nothing below depends on
  the order, only on \<open>bytes_int\<close> undoing \<open>int_bytes\<close>).
\<close>

definition int_bytes :: "int \<Rightarrow> byte list" where
  "int_bytes x =
     (let v = nat (x mod 4294967296)
      in [of_nat (v mod 256), of_nat (v div 256 mod 256),
          of_nat (v div 65536 mod 256), of_nat (v div 16777216 mod 256)])"

definition bytes_int :: "byte list \<Rightarrow> int" where
  "bytes_int bs =
     (let v = int (unat (bs ! 0)) + 256 * int (unat (bs ! 1))
              + 65536 * int (unat (bs ! 2)) + 16777216 * int (unat (bs ! 3))
      in if v < 2147483648 then v else v - 4294967296)"

text \<open>
  \<^verbatim>\<open>memcpy(mem + pos, src, length src)\<close> into a byte region, and
  \<^verbatim>\<open>memcpy(buf, mem + pos, n)\<close> out of it. The callers keep both inside the region.
\<close>

definition memcpy_into :: "byte list \<Rightarrow> nat \<Rightarrow> byte list \<Rightarrow> byte list" where
  "memcpy_into mem pos src = take pos mem @ src @ drop (pos + length src) mem"

definition memcpy_from :: "byte list \<Rightarrow> nat \<Rightarrow> nat \<Rightarrow> byte list" where
  "memcpy_from mem pos n = take n (drop pos mem)"

text \<open>The macro \<^verbatim>\<open>QUEUE_FREE_SPACE(cstate)\<close>.\<close>

definition QUEUE_FREE_SPACE :: "ConsState \<Rightarrow> int" where
  "QUEUE_FREE_SPACE cstate =
     (if cs_ntuples cstate > 0 then
        (if cs_qreadpos cstate \<ge> cs_qwritepos cstate
         then cs_qreadpos cstate - cs_qwritepos cstate
         else cs_qlength cstate + cs_qreadpos cstate - cs_qwritepos cstate)
      else cs_qlength cstate)"

text \<open>
  The macro \<^verbatim>\<open>QUEUE_WRITE(cstate, len, buf)\<close>; \<open>len\<close> is the length of the bytes
  passed.
\<close>

definition QUEUE_WRITE :: "ConsState \<Rightarrow> byte list \<Rightarrow> ConsState" where
  "QUEUE_WRITE cstate buf =
     (let len = int (length buf) in
      if cs_qwritepos cstate + len \<le> cs_qlength cstate then
        let wp = cs_qwritepos cstate + len in
        cstate\<lparr>cs_qstart := memcpy_into (cs_qstart cstate) (nat (cs_qwritepos cstate)) buf,
               cs_qwritepos := (if wp = cs_qlength cstate then 0 else wp)\<rparr>
      else
        let part = cs_qlength cstate - cs_qwritepos cstate;
            m1 = memcpy_into (cs_qstart cstate) (nat (cs_qwritepos cstate)) (take (nat part) buf);
            wp = len - part
        in cstate\<lparr>cs_qstart := memcpy_into m1 0 (take (nat wp) (drop (nat part) buf)),
                  cs_qwritepos := wp\<rparr>)"

text \<open>The macro \<^verbatim>\<open>QUEUE_READ(cstate, len, buf)\<close>: the bytes copied to \<open>buf\<close> and the new state.\<close>

definition QUEUE_READ :: "ConsState \<Rightarrow> int \<Rightarrow> byte list \<times> ConsState" where
  "QUEUE_READ cstate len =
     (if cs_qreadpos cstate + len \<le> cs_qlength cstate then
        let rp = cs_qreadpos cstate + len in
        (memcpy_from (cs_qstart cstate) (nat (cs_qreadpos cstate)) (nat len),
         cstate\<lparr>cs_qreadpos := (if rp = cs_qlength cstate then 0 else rp)\<rparr>)
      else
        let part = cs_qlength cstate - cs_qreadpos cstate;
            rp = len - part
        in (memcpy_from (cs_qstart cstate) (nat (cs_qreadpos cstate)) (nat part)
              @ memcpy_from (cs_qstart cstate) 0 (nat rp),
            cstate\<lparr>cs_qreadpos := rp\<rparr>))"


subsection \<open>Unsigned comparisons\<close>

text \<open>
  Where the C code compares an \<^verbatim>\<open>int\<close> with an expression that contains \<^verbatim>\<open>sizeof(int)\<close>,
  the usual arithmetic conversions turn both sides into \<^verbatim>\<open>size_t\<close> (64 bits, unsigned).
  \<open>size_t x\<close> is the value of the \<^verbatim>\<open>int\<close> \<open>x\<close> after that conversion.
\<close>

definition size_t :: "int \<Rightarrow> int" where
  "size_t x = x mod 18446744073709551616"

subsection \<open>Long tuples: the producer side\<close>

text \<open>
  A \<^verbatim>\<open>RemoteDataRow\<close> is its message bytes \<^verbatim>\<open>msg\<close>; \<^verbatim>\<open>msglen\<close> is their number.
  \<^verbatim>\<open>sq_push_long_tuple(cstate, datarow)\<close> returns its result and the new consumer state.
\<close>

definition sq_push_long_tuple :: "ConsState \<Rightarrow> byte list \<Rightarrow> bool \<times> ConsState" where
  "sq_push_long_tuple cstate datarow =
     (if cs_ntuples cstate = 0 then
        let c1 = QUEUE_WRITE cstate (int_bytes (int (length datarow)));
            len = cs_qlength c1 - 4;
            c2 = QUEUE_WRITE c1 (take (nat len) datarow)
        in (False, c2\<lparr>cs_ntuples := 1\<rparr>)
      else
        let offset = bytes_int (memcpy_from (cs_qstart cstate) 0 4);
            len = int (length datarow) - offset;
            c1 = QUEUE_WRITE cstate (int_bytes len)
        in if size_t len > size_t (cs_qlength c1 - 4) then
             let len' = cs_qlength c1 - 4;
                 c2 = QUEUE_WRITE c1 (take (nat len') (drop (nat offset) datarow))
             in (False, c2\<lparr>cs_ntuples := 1\<rparr>)
           else
             let c2 = QUEUE_WRITE c1 (take (nat len) (drop (nat offset) datarow))
             in (True, c2\<lparr>cs_ntuples := 1\<rparr>))"

subsection \<open>The producer's local tuplestore\<close>

text \<open>
  Modelled from the spec: the tuplestore (\<^verbatim>\<open>tuplestore.c\<close>) is not among the sources. The
  spec's overflow store is a producer-local FIFO with a bookmark cursor (read pointer 0)
  and an advancing cursor (read pointer 1); a tuple that could not be written is returned
  by rolling the advancing cursor back to the bookmark, and \<^verbatim>\<open>tuplestore_trim\<close> frees what
  lies before the bookmark. The model keeps the list of data rows from the bookmark on,
  oldest first: fetching takes the head, rolling back leaves it, \<^verbatim>\<open>tuplestore_puttupleslot\<close>
  appends, \<^verbatim>\<open>tuplestore_clear\<close> empties. A \<^verbatim>\<open>Tuplestorestate *\<close> that may be
  \<^verbatim>\<open>NULL\<close> is an option.
\<close>

type_synonym tuplestore = "byte list list"

text \<open>
  \<^verbatim>\<open>SharedQueueDump\<close> on the consumer state \<^verbatim>\<open>&squeue->sq_consumers[consumerIdx]\<close>: the
  result, the new consumer state and the new store. \<open>SharedQueueDump_loop\<close> is its
  \<^verbatim>\<open>while (!tuplestore_ateof(tuplestore))\<close> loop. The calls of \<^verbatim>\<open>SetLatch\<close> on the
  consumer's latch only wake the reader and are left out here, as is the statistics code
  under \<^verbatim>\<open>SQUEUE_STAT\<close>.
\<close>

fun SharedQueueDump_loop :: "ConsState \<Rightarrow> tuplestore \<Rightarrow> bool \<times> ConsState \<times> tuplestore" where
  "SharedQueueDump_loop cstate [] = (True, cstate, [])"
| "SharedQueueDump_loop cstate (datarow # rest) =
     (if size_t (QUEUE_FREE_SPACE cstate) < 4 + int (length datarow) then
        (if cs_ntuples cstate \<le> 0 then
           (case sq_push_long_tuple cstate datarow of
              (True, c1) \<Rightarrow> SharedQueueDump_loop c1 rest
            | (False, c1) \<Rightarrow> (False, c1, datarow # rest))
         else (False, cstate, datarow # rest))
      else
        let c1 = QUEUE_WRITE cstate (int_bytes (int (length datarow)));
            c2 = QUEUE_WRITE c1 datarow
        in SharedQueueDump_loop (c2\<lparr>cs_ntuples := cs_ntuples c2 + 1\<rparr>) rest)"

definition SharedQueueDump :: "ConsState \<Rightarrow> tuplestore \<Rightarrow> bool \<times> ConsState \<times> tuplestore" where
  "SharedQueueDump cstate tuplestore =
     (if cs_status cstate \<noteq> CONSUMER_ACTIVE then (True, cstate, [])
      else SharedQueueDump_loop cstate tuplestore)"

subsection \<open>Writing\<close>

text \<open>
  \<^verbatim>\<open>SharedQueueWrite\<close> on the consumer state of the slot, under the consumer's lock: the new
  consumer state and the new \<^verbatim>\<open>*tuplestore\<close>. The function has no error exit.
  \<open>SharedQueueWrite_row\<close> is its second half, from \<^verbatim>\<open>/* Get datarow from the tuple slot */\<close>
  on; the slot is represented by its data row.
\<close>

definition SharedQueueWrite_row ::
    "ConsState \<Rightarrow> byte list \<Rightarrow> tuplestore option \<Rightarrow> ConsState \<times> tuplestore option" where
  "SharedQueueWrite_row cstate datarow tuplestore =
     (if size_t (QUEUE_FREE_SPACE cstate) < 4 + int (length datarow) then
        (cstate, Some ((case tuplestore of None \<Rightarrow> [] | Some st \<Rightarrow> st) @ [datarow]))
      else if cs_status cstate = CONSUMER_ACTIVE then
        let c1 = QUEUE_WRITE cstate (int_bytes (int (length datarow)));
            c2 = QUEUE_WRITE c1 datarow
        in (c2\<lparr>cs_ntuples := cs_ntuples c2 + 1\<rparr>, tuplestore)
      else (cstate, tuplestore))"

definition SharedQueueWrite ::
    "ConsState \<Rightarrow> byte list \<Rightarrow> tuplestore option \<Rightarrow> ConsState \<times> tuplestore option" where
  "SharedQueueWrite cstate datarow tuplestore =
     (case tuplestore of
        None \<Rightarrow> SharedQueueWrite_row cstate datarow None
      | Some st \<Rightarrow>
          if QUEUE_FREE_SPACE cstate > cs_qlength cstate div 2 then
            (case SharedQueueDump cstate st of
               (True, c1, st1) \<Rightarrow> SharedQueueWrite_row c1 datarow (Some st1)
             | (False, c1, st1) \<Rightarrow> (c1, Some (st1 @ [datarow])))
          else (cstate, Some (st @ [datarow])))"

text \<open>
  The body of the loop of \<^verbatim>\<open>SharedQueueFinish\<close> for one consumer: the new consumer state,
  the new \<^verbatim>\<open>tuplestore[i]\<close> and the change of \<^verbatim>\<open>nstores\<close>.
\<close>

definition SharedQueueFinish_slot ::
    "ConsState \<Rightarrow> tuplestore option \<Rightarrow> ConsState \<times> tuplestore option \<times> int" where
  "SharedQueueFinish_slot cstate tuplestore =
     (case tuplestore of
        Some st \<Rightarrow>
          if cs_status cstate \<noteq> CONSUMER_ACTIVE then (cstate, None, 0)
          else if QUEUE_FREE_SPACE cstate > cs_qlength cstate div 2 then
            (case SharedQueueDump cstate st of
               (True, c1, st1) \<Rightarrow> (c1\<lparr>cs_status := CONSUMER_EOF\<rparr>, None, 0)
             | (False, c1, st1) \<Rightarrow> (c1, Some st1, 1))
          else (cstate, Some st, 1)
      | None \<Rightarrow>
          if cs_status cstate = CONSUMER_ACTIVE then (cstate\<lparr>cs_status := CONSUMER_EOF\<rparr>, None, 0)
          else (cstate, None, 0))"


subsection \<open>Locks, latches and other effects\<close>

text \<open>
  The calls that act on locks, latches and the hash table are recorded as events, in the
  order in which a function makes them. \<open>sqs_producer_lwlock\<close>, \<open>cs_lwlock i\<close>,
  \<open>sqs_producer_latch\<close> and \<open>cs_latch i\<close> are those of the \<^verbatim>\<open>SQueueSync\<close> of the queue
  at hand.
\<close>

datatype lwlock = SQueuesLock | sqs_producer_lwlock | cs_lwlock nat

datatype lwlock_mode = LW_EXCLUSIVE | LW_SHARED

datatype latch = sqs_producer_latch | cs_latch nat

datatype event =
    LWLockAcquire lwlock lwlock_mode
  | LWLockRelease lwlock
  | SetLatch latch
  | ResetLatch latch
  | OwnLatch latch
  | DisownLatch latch
  | WaitLatch latch
  | ExecClearTuple
  | pg_usleep int
  | HASH_REMOVE string

text \<open>
  The errors raised with \<^verbatim>\<open>ereport(ERROR, ...)\<close> and \<^verbatim>\<open>elog(ERROR, ...)\<close>; and
  \<open>division_by_zero\<close>, the integer division by zero at which the process dies.
\<close>

datatype error =
    out_of_shared_queue
  | race_condition_not_resolved int
  | shared_queue_not_found
  | producer_failed
  | failed_to_read
  | division_by_zero

subsection \<open>Reading\<close>

text \<open>
  \<^verbatim>\<open>SharedQueueRead\<close> sleeps in \<^verbatim>\<open>WaitLatch\<close> with all locks released, and so does
  \<^verbatim>\<open>sq_pull_long_tuple\<close>; other processes change the consumer state meanwhile. The function
  is therefore cut at its calls of \<^verbatim>\<open>WaitLatch\<close>: each piece runs under the locks from one
  wait to the next and yields what the call does next, the consumer state and the events.
  \<open>Returns b d\<close> is a return of \<open>b\<close> with the data row \<open>d\<close> stored in the slot
  (\<open>None\<close> after \<^verbatim>\<open>ExecClearTuple\<close>), \<open>Raises\<close> an \<^verbatim>\<open>ereport(ERROR)\<close>, \<open>WaitsEmpty\<close> the
  wait in the loop of \<^verbatim>\<open>SharedQueueRead\<close>, \<open>WaitsLong\<close> the wait in
  \<^verbatim>\<open>sq_pull_long_tuple\<close> with the values of its locals.
\<close>

record pull_state =
  pl_msglen :: int
  pl_msg :: "byte list"
  pl_offset :: int

datatype read_result =
    Returns bool "byte list option"
  | Raises error
  | WaitsEmpty
  | WaitsLong pull_state

type_synonym read_step = "read_result \<times> ConsState \<times> event list"

text \<open>The end of \<^verbatim>\<open>SharedQueueRead\<close>, from \<^verbatim>\<open>ExecStoreDataRowTuple\<close> on.\<close>

definition SharedQueueRead_store :: "nat \<Rightarrow> ConsState \<Rightarrow> byte list \<Rightarrow> read_step" where
  "SharedQueueRead_store consumerIdx cstate msg =
     (Returns False (Some msg), cstate\<lparr>cs_ntuples := cs_ntuples cstate - 1\<rparr>,
      [LWLockRelease (cs_lwlock consumerIdx), LWLockRelease sqs_producer_lwlock])"

text \<open>
  One pass through the body of the \<^verbatim>\<open>for (;;)\<close> loop of \<^verbatim>\<open>sq_pull_long_tuple\<close>, entered
  with \<open>len\<close>, up to its \<^verbatim>\<open>return\<close> (\<open>True\<close>) or to the test of the inner
  \<^verbatim>\<open>while\<close> loop (\<open>False\<close>).
\<close>

definition sq_pull_long_tuple_pass ::
    "ConsState \<Rightarrow> pull_state \<Rightarrow> int \<Rightarrow> bool \<times> pull_state \<times> ConsState" where
  "sq_pull_long_tuple_pass cstate ps len =
     (let len1 = (if size_t len > size_t (cs_qlength cstate - 4)
                  then cs_qlength cstate - 4 else len);
          (bytes, c1) = QUEUE_READ cstate len1;
          ps1 = ps\<lparr>pl_msg := pl_msg ps @ bytes, pl_offset := pl_offset ps + len1\<rparr>
      in if pl_offset ps1 = pl_msglen ps1 then (True, ps1, c1)
         else (False, ps1,
               c1\<lparr>cs_ntuples := LONG_TUPLE,
                  cs_qstart := memcpy_into (cs_qstart c1) 0 (int_bytes (pl_offset ps1))\<rparr>))"

text \<open>The events of one round of the inner \<^verbatim>\<open>while\<close> loop, up to and including the wait.\<close>

definition sq_pull_long_tuple_sleep :: "nat \<Rightarrow> event list" where
  "sq_pull_long_tuple_sleep consumerIdx =
     [SetLatch sqs_producer_latch, ResetLatch (cs_latch consumerIdx),
      LWLockRelease (cs_lwlock consumerIdx), LWLockRelease sqs_producer_lwlock,
      WaitLatch (cs_latch consumerIdx)]"

text \<open>
  \<^verbatim>\<open>sq_pull_long_tuple\<close> from the top of its loop to the first wait or to its return,
  followed in the latter case by the end of \<^verbatim>\<open>SharedQueueRead\<close>. The test of the inner
  \<^verbatim>\<open>while\<close> loop holds when it is first reached, \<^verbatim>\<open>cs_ntuples\<close> having just been set.
\<close>

definition sq_pull_long_tuple :: "nat \<Rightarrow> ConsState \<Rightarrow> pull_state \<Rightarrow> int \<Rightarrow> read_step" where
  "sq_pull_long_tuple consumerIdx cstate ps len =
     (case sq_pull_long_tuple_pass cstate ps len of
        (True, ps1, c1) \<Rightarrow> SharedQueueRead_store consumerIdx c1 (pl_msg ps1)
      | (False, ps1, c1) \<Rightarrow> (WaitsLong ps1, c1, sq_pull_long_tuple_sleep consumerIdx))"

text \<open>\<^verbatim>\<open>sq_pull_long_tuple\<close> resumed after \<^verbatim>\<open>WaitLatch\<close> has returned.\<close>

definition sq_pull_long_tuple_wake :: "nat \<Rightarrow> ConsState \<Rightarrow> pull_state \<Rightarrow> read_step" where
  "sq_pull_long_tuple_wake consumerIdx cstate ps =
     (let (res, c, evs) =
        (if cs_ntuples cstate = LONG_TUPLE
         then (WaitsLong ps, cstate, sq_pull_long_tuple_sleep consumerIdx)
         else let (lenbytes, c1) = QUEUE_READ cstate 4
              in sq_pull_long_tuple consumerIdx c1 ps (bytes_int lenbytes))
      in (res, c, [LWLockAcquire sqs_producer_lwlock LW_SHARED,
                   LWLockAcquire (cs_lwlock consumerIdx) LW_EXCLUSIVE] @ evs))"

text \<open>\<^verbatim>\<open>SharedQueueRead\<close> below its \<^verbatim>\<open>while\<close> loop: at least one row is in the queue.\<close>

definition SharedQueueRead_row :: "nat \<Rightarrow> ConsState \<Rightarrow> read_step" where
  "SharedQueueRead_row consumerIdx cstate =
     (let (lenbytes, c1) = QUEUE_READ cstate 4;
          datalen = bytes_int lenbytes
      in if size_t datalen > size_t (cs_qlength c1 - 4) then
           sq_pull_long_tuple consumerIdx c1
             \<lparr>pl_msglen = datalen, pl_msg = [], pl_offset = 0\<rparr> datalen
         else
           let (msg, c2) = QUEUE_READ c1 datalen
           in SharedQueueRead_store consumerIdx c2 msg)"

text \<open>The test of the \<^verbatim>\<open>while (cstate->cs_ntuples <= 0)\<close> loop and what follows it.\<close>

definition SharedQueueRead_loop :: "nat \<Rightarrow> ConsState \<Rightarrow> bool \<Rightarrow> read_step" where
  "SharedQueueRead_loop consumerIdx cstate canwait =
     (if cs_ntuples cstate \<le> 0 then
        if cs_status cstate = CONSUMER_EOF then
          (Returns True None, cstate\<lparr>cs_status := CONSUMER_DONE\<rparr>,
           [DisownLatch (cs_latch consumerIdx), LWLockRelease (cs_lwlock consumerIdx),
            ExecClearTuple, SetLatch sqs_producer_latch, LWLockRelease sqs_producer_lwlock])
        else if cs_status cstate = CONSUMER_ERROR then
          (Raises failed_to_read, cstate,
           [LWLockRelease (cs_lwlock consumerIdx), LWLockRelease sqs_producer_lwlock])
        else if canwait then
          (WaitsEmpty, cstate,
           [ResetLatch (cs_latch consumerIdx), LWLockRelease (cs_lwlock consumerIdx),
            SetLatch sqs_producer_latch, LWLockRelease sqs_producer_lwlock,
            WaitLatch (cs_latch consumerIdx)])
        else
          (Returns False None, cstate,
           [LWLockRelease (cs_lwlock consumerIdx), LWLockRelease sqs_producer_lwlock,
            ExecClearTuple])
      else SharedQueueRead_row consumerIdx cstate)"

text \<open>Taking the two locks, at the start of the call and after each wait of the outer loop.\<close>

definition SharedQueueRead_locked :: "nat \<Rightarrow> ConsState \<Rightarrow> bool \<Rightarrow> read_step" where
  "SharedQueueRead_locked consumerIdx cstate canwait =
     (let (res, c, evs) = SharedQueueRead_loop consumerIdx cstate canwait
      in (res, c, [LWLockAcquire sqs_producer_lwlock LW_SHARED,
                   LWLockAcquire (cs_lwlock consumerIdx) LW_EXCLUSIVE] @ evs))"

text \<open>The call resumed after a wait, on the consumer state that it finds then.\<close>

definition SharedQueueRead_wake :: "nat \<Rightarrow> ConsState \<Rightarrow> bool \<Rightarrow> read_result \<Rightarrow> read_step" where
  "SharedQueueRead_wake consumerIdx cstate canwait waiting =
     (case waiting of
        WaitsEmpty \<Rightarrow> SharedQueueRead_locked consumerIdx cstate canwait
      | WaitsLong ps \<Rightarrow> sq_pull_long_tuple_wake consumerIdx cstate ps
      | res \<Rightarrow> (res, cstate, []))"

text \<open>
  The whole call. \<open>others\<close> lists, for each wait of the call, what the other processes
  do to the consumer state while the caller sleeps. The result is \<open>None\<close> when the call
  is still waiting after the last of them.
\<close>

fun SharedQueueRead_run ::
    "nat \<Rightarrow> bool \<Rightarrow> read_step \<Rightarrow> (ConsState \<Rightarrow> ConsState) list \<Rightarrow> read_step option" where
  "SharedQueueRead_run consumerIdx canwait (Returns b d, cstate, evs) others =
     Some (Returns b d, cstate, evs)"
| "SharedQueueRead_run consumerIdx canwait (Raises e, cstate, evs) others =
     Some (Raises e, cstate, evs)"
| "SharedQueueRead_run consumerIdx canwait (waiting, cstate, evs) [] = None"
| "SharedQueueRead_run consumerIdx canwait (waiting, cstate, evs) (f # others) =
     (case SharedQueueRead_wake consumerIdx (f cstate) canwait waiting of
        (res, c, evs1) \<Rightarrow> SharedQueueRead_run consumerIdx canwait (res, c, evs @ evs1) others)"

definition SharedQueueRead ::
    "nat \<Rightarrow> ConsState \<Rightarrow> bool \<Rightarrow> (ConsState \<Rightarrow> ConsState) list \<Rightarrow> read_step option" where
  "SharedQueueRead consumerIdx cstate canwait others =
     SharedQueueRead_run consumerIdx canwait
       (SharedQueueRead_locked consumerIdx cstate canwait) others"


subsection \<open>One producer and one consumer on a slot\<close>

text \<open>
  The producer writes to a slot and finishes it, the consumer reads from it. Each of their
  steps runs under the consumer's lock, so a run of the two processes is a sequence of
  such steps: a call of \<^verbatim>\<open>SharedQueueWrite\<close>, the part of \<^verbatim>\<open>SharedQueueFinish\<close> for the
  slot, the start of a call of \<^verbatim>\<open>SharedQueueRead\<close>, and the resumption of a waiting call.
  \<open>ch_reader\<close> is the wait in which the consumer's call is, if any; \<open>ch_received\<close> lists
  the data rows that its calls have returned, and \<open>ch_eof\<close> tells whether one has returned
  true.
\<close>

record channel =
  ch_cstate :: ConsState
  ch_store :: "tuplestore option"
  ch_reader :: "read_result option"
  ch_received :: "byte list list"
  ch_eof :: bool

datatype action = Write "byte list" | Finish | Read bool | Wake

definition channel_settle :: "read_step \<Rightarrow> channel \<Rightarrow> channel" where
  "channel_settle step ch =
     (case step of
        (Returns b d, c, evs) \<Rightarrow>
          ch\<lparr>ch_cstate := c, ch_reader := None,
             ch_received := ch_received ch @ (case d of None \<Rightarrow> [] | Some msg \<Rightarrow> [msg]),
             ch_eof := (ch_eof ch \<or> b)\<rparr>
      | (Raises e, c, evs) \<Rightarrow> ch\<lparr>ch_cstate := c, ch_reader := None\<rparr>
      | (waiting, c, evs) \<Rightarrow> ch\<lparr>ch_cstate := c, ch_reader := Some waiting\<rparr>)"

fun channel_step :: "channel \<Rightarrow> action \<Rightarrow> channel" where
  "channel_step ch (Write datarow) =
     (case SharedQueueWrite (ch_cstate ch) datarow (ch_store ch) of
        (c, st) \<Rightarrow> ch\<lparr>ch_cstate := c, ch_store := st\<rparr>)"
| "channel_step ch Finish =
     (case SharedQueueFinish_slot (ch_cstate ch) (ch_store ch) of
        (c, st, n) \<Rightarrow> ch\<lparr>ch_cstate := c, ch_store := st\<rparr>)"
| "channel_step ch (Read canwait) =
     (case ch_reader ch of
        None \<Rightarrow> channel_settle (SharedQueueRead_locked 0 (ch_cstate ch) canwait) ch
      | Some waiting \<Rightarrow> ch)"
| "channel_step ch Wake =
     (case ch_reader ch of
        None \<Rightarrow> ch
      | Some waiting \<Rightarrow> channel_settle (SharedQueueRead_wake 0 (ch_cstate ch) True waiting) ch)"

definition channel_run :: "channel \<Rightarrow> action list \<Rightarrow> channel" where
  "channel_run ch acts = foldl channel_step ch acts"

text \<open>A slot as \<^verbatim>\<open>SharedQueueAcquire\<close> formats it, with the bytes \<open>mem\<close> in its queue.\<close>

definition fresh_slot :: "byte list \<Rightarrow> ConsState" where
  "fresh_slot mem =
     \<lparr>cs_pid = 0, cs_node = - 1, cs_ntuples = 0, cs_status = CONSUMER_ACTIVE,
      cs_qstart = mem, cs_qlength = int (length mem), cs_qreadpos = 0, cs_qwritepos = 0\<rparr>"

definition fresh_channel :: "ConsState \<Rightarrow> channel" where
  "fresh_channel cstate =
     \<lparr>ch_cstate = cstate, ch_store = None, ch_reader = None, ch_received = [], ch_eof = False\<rparr>"

section \<open>The queue header and the shared memory\<close>

text \<open>
  \<^verbatim>\<open>sq_sync\<close> points into the pool \<^verbatim>\<open>SQueueSyncs\<close>: it is the index of the
  \<^verbatim>\<open>SQueueSync\<close>, or \<open>None\<close> for \<^verbatim>\<open>NULL\<close>. The hash table \<^verbatim>\<open>SharedQueues\<close> is the list of
  its entries, each with its key \<^verbatim>\<open>sq_key\<close>; a pointer to an entry is the key. Of an
  \<^verbatim>\<open>SQueueSync\<close> the model keeps the field \<^verbatim>\<open>queue\<close>, the key of the entry it points to.
\<close>

record SQueueHeader =
  sq_key :: string
  sq_pid :: int
  sq_nodeid :: int
  sq_sync :: "nat option"
  sq_refcnt :: int
  sq_nconsumers :: int
  sq_consumers :: "ConsState list"

record shmem =
  SharedQueues :: "SQueueHeader list"
  SQueueSyncs :: "string option list"

text \<open>
  Modelled from the spec: \<^verbatim>\<open>hash_search\<close> (\<^verbatim>\<open>dynahash.c\<close>) is not among the sources. The
  Registry is a name-keyed table of fixed capacity \<^verbatim>\<open>NUM_SQUEUES\<close>; \<open>lookup\<close>,
  \<open>insert\<close> (which fails when the table is full) and \<open>remove\<close> are the three
  operations. \<open>hash_store\<close> is an assignment through a pointer to an entry.
\<close>

definition hash_find :: "shmem \<Rightarrow> string \<Rightarrow> SQueueHeader option" where
  "hash_find shm key = find (\<lambda>sq. sq_key sq = key) (SharedQueues shm)"

definition hash_store :: "shmem \<Rightarrow> SQueueHeader \<Rightarrow> shmem" where
  "hash_store shm sq =
     shm\<lparr>SharedQueues := map (\<lambda>e. if sq_key e = sq_key sq then sq else e) (SharedQueues shm)\<rparr>"

definition hash_remove :: "shmem \<Rightarrow> string \<Rightarrow> shmem" where
  "hash_remove shm key =
     shm\<lparr>SharedQueues := filter (\<lambda>e. sq_key e \<noteq> key) (SharedQueues shm)\<rparr>"

text \<open>
  The constants of \<^verbatim>\<open>squeue.h\<close> and the sizes of the two structures, which the sources at
  hand do not give, are parameters.
\<close>

record squeue_params =
  NUM_SQUEUES :: nat
  SQUEUE_SIZE :: int
  sizeof_SQueueHeader :: int
  sizeof_ConsState :: int

text \<open>The index of the first element of a list that satisfies \<open>P\<close>, as the loops find it.\<close>

fun first_index :: "('a \<Rightarrow> bool) \<Rightarrow> 'a list \<Rightarrow> nat option" where
  "first_index P [] = None"
| "first_index P (x # xs) =
     (if P x then Some 0 else map_option Suc (first_index P xs))"

text \<open>The consumer states that the loops \<^verbatim>\<open>for (i = 0; i < sq->sq_nconsumers; i++)\<close> visit.\<close>

definition consumers :: "SQueueHeader \<Rightarrow> ConsState list" where
  "consumers sq = take (nat (sq_nconsumers sq)) (sq_consumers sq)"

text \<open>Such a loop when its body assigns \<open>f cstate\<close> to each consumer state.\<close>

definition for_consumers :: "(ConsState \<Rightarrow> ConsState) \<Rightarrow> SQueueHeader \<Rightarrow> SQueueHeader" where
  "for_consumers f sq =
     sq\<lparr>sq_consumers := map f (take (nat (sq_nconsumers sq)) (sq_consumers sq))
                            @ drop (nat (sq_nconsumers sq)) (sq_consumers sq)\<rparr>"

text \<open>Division of C integers truncates towards zero.\<close>

definition c_div :: "int \<Rightarrow> int \<Rightarrow> int" where
  "c_div a b = sgn a * sgn b * (\<bar>a\<bar> div \<bar>b\<bar>)"

subsection \<open>\<^verbatim>\<open>SharedQueueCanPause\<close>\<close>

text \<open>
  The loop \<^verbatim>\<open>for (i = 0; result && (i < squeue->sq_nconsumers); i++)\<close> over the consumer
  states still to visit, with the values of \<^verbatim>\<open>result\<close>, \<^verbatim>\<open>usedspace\<close> and \<^verbatim>\<open>ncons\<close>.
\<close>

fun SharedQueueCanPause_loop ::
    "ConsState list \<Rightarrow> bool \<Rightarrow> int \<Rightarrow> int \<Rightarrow> bool \<times> int \<times> int" where
  "SharedQueueCanPause_loop [] result usedspace ncons = (result, usedspace, ncons)"
| "SharedQueueCanPause_loop (cstate # rest) result usedspace ncons =
     (if result then
        (if cs_status cstate = CONSUMER_ACTIVE then
           SharedQueueCanPause_loop rest (cs_ntuples cstate > 0)
             (usedspace + (if cs_qwritepos cstate > cs_qreadpos cstate
                           then cs_qwritepos cstate - cs_qreadpos cstate
                           else cs_qlength cstate + cs_qwritepos cstate - cs_qreadpos cstate))
             (ncons + 1)
         else SharedQueueCanPause_loop rest result usedspace ncons)
      else (result, usedspace, ncons))"

definition SharedQueueCanPause :: "SQueueHeader \<Rightarrow> bool" where
  "SharedQueueCanPause squeue =
     (case SharedQueueCanPause_loop (consumers squeue) True 0 0 of
        (result, usedspace, ncons) \<Rightarrow>
          if ncons = 0 then False
          else if result
          then c_div usedspace ncons > c_div (cs_qlength (sq_consumers squeue ! 0)) 2
          else result)"

subsection \<open>\<^verbatim>\<open>SharedQueueReset\<close>, \<^verbatim>\<open>SharedQueueResetNotConnected\<close>, \<^verbatim>\<open>SharedQueueDisconnectConsumer\<close>\<close>

definition SharedQueueReset_producer :: "ConsState \<Rightarrow> ConsState" where
  "SharedQueueReset_producer cstate =
     (if cs_status cstate \<noteq> CONSUMER_EOF \<and> cs_status cstate \<noteq> CONSUMER_DONE
      then cstate\<lparr>cs_status := CONSUMER_ERROR, cs_ntuples := 0,
                  cs_qreadpos := 0, cs_qwritepos := 0\<rparr>
      else cstate)"

definition SharedQueueReset_consumer :: "ConsState \<Rightarrow> ConsState" where
  "SharedQueueReset_consumer cstate =
     (if cs_status cstate \<noteq> CONSUMER_DONE then cstate\<lparr>cs_status := CONSUMER_DONE\<rparr>
      else cstate)"

text \<open>\<open>consumerIdx\<close> is \<open>- 1\<close> for the producer, and the index of a consumer otherwise.\<close>

definition SharedQueueReset :: "SQueueHeader \<Rightarrow> int \<Rightarrow> SQueueHeader" where
  "SharedQueueReset squeue consumerIdx =
     (if sq_sync squeue = None then squeue
      else if consumerIdx = - 1 then for_consumers SharedQueueReset_producer squeue
      else squeue\<lparr>sq_consumers := (sq_consumers squeue)
             [nat consumerIdx := SharedQueueReset_consumer (sq_consumers squeue ! nat consumerIdx)]\<rparr>)"

definition SharedQueueResetNotConnected_slot :: "ConsState \<Rightarrow> ConsState" where
  "SharedQueueResetNotConnected_slot cstate =
     (if cs_pid cstate = 0 \<and> cs_status cstate \<noteq> CONSUMER_DONE
      then cstate\<lparr>cs_status := CONSUMER_DONE, cs_ntuples := 0,
                  cs_qreadpos := 0, cs_qwritepos := 0\<rparr>
      else cstate)"

definition SharedQueueResetNotConnected :: "SQueueHeader \<Rightarrow> SQueueHeader" where
  "SharedQueueResetNotConnected squeue =
     for_consumers SharedQueueResetNotConnected_slot squeue"

definition SharedQueueDisconnectConsumer_slot :: "int \<Rightarrow> ConsState \<Rightarrow> ConsState" where
  "SharedQueueDisconnectConsumer_slot node cstate =
     (if cs_node cstate = node
      then cstate\<lparr>cs_status := CONSUMER_DONE, cs_ntuples := 0,
                  cs_qreadpos := 0, cs_qwritepos := 0\<rparr>
      else cstate)"

text \<open>
  \<open>shm\<close> is \<open>None\<close> when the pointer \<^verbatim>\<open>SharedQueues\<close> of the calling process is
  \<^verbatim>\<open>NULL\<close>; \<open>node\<close> is \<^verbatim>\<open>PGXC_PARENT_NODE_ID\<close>.
\<close>

definition SharedQueueDisconnectConsumer ::
    "shmem option \<Rightarrow> string \<Rightarrow> int \<Rightarrow> shmem option \<times> event list" where
  "SharedQueueDisconnectConsumer shm sqname node =
     (case shm of
        None \<Rightarrow> (None, [])
      | Some m \<Rightarrow>
          (case hash_find m sqname of
             None \<Rightarrow> (Some m, [LWLockAcquire SQueuesLock LW_EXCLUSIVE, LWLockRelease SQueuesLock])
           | Some squeue \<Rightarrow>
               if sq_pid squeue = 0
               then (Some m, [LWLockAcquire SQueuesLock LW_EXCLUSIVE, LWLockRelease SQueuesLock])
               else
                 (Some (hash_store m
                     (for_consumers (SharedQueueDisconnectConsumer_slot node) squeue)),
                  [LWLockAcquire SQueuesLock LW_EXCLUSIVE,
                   LWLockAcquire sqs_producer_lwlock LW_EXCLUSIVE, LWLockRelease SQueuesLock]
                  @ concat (map (\<lambda>i. [LWLockAcquire (cs_lwlock i) LW_EXCLUSIVE,
                                        LWLockRelease (cs_lwlock i)])
                              [0..<length (consumers squeue)])
                  @ [SetLatch sqs_producer_latch, LWLockRelease sqs_producer_lwlock])))"


subsection \<open>\<^verbatim>\<open>SharedQueueAcquire\<close>\<close>

text \<open>
  The branch \<^verbatim>\<open>if (!found)\<close>: the new entry is formatted for \<open>ncons\<close> consumers and gets
  the first \<^verbatim>\<open>SQueueSync\<close> whose \<^verbatim>\<open>queue\<close> is \<^verbatim>\<open>NULL\<close>. The bytes of a new queue are
  whatever the shared memory holds; they are zero here, and no function reads a byte of
  a queue before it has written it.

  The size of one queue is computed as C does. \<^verbatim>\<open>sizeof\<close> is a \<^verbatim>\<open>size_t\<close>, so
  \<^verbatim>\<open>SQUEUE_HDR_SIZE(n)\<close>, the difference and the quotient are computed in
  \<^verbatim>\<open>unsigned long\<close>, modulo \<open>2 ^ 64\<close>, with \<open>ncons\<close> converted to that type; the quotient
  is then stored in the \<^verbatim>\<open>int\<close> \<^verbatim>\<open>qsize\<close>, which keeps its low 32 bits (\<open>c_int\<close>). With
  \<open>ncons = 0\<close>, which \<^verbatim>\<open>Assert(ncons > 0)\<close> forbids, the division is a division by zero:
  the process dies there, after it has entered the queue in the hash table and before it
  has set up a consumer or released \<^verbatim>\<open>SQueuesLock\<close>.
\<close>

definition c_int :: "int \<Rightarrow> int" where
  "c_int x = (x + 2147483648) mod 4294967296 - 2147483648"

definition SQUEUE_HDR_SIZE :: "squeue_params \<Rightarrow> int \<Rightarrow> int" where
  "SQUEUE_HDR_SIZE P nconsumers =
     size_t (sizeof_SQueueHeader P + size_t (size_t nconsumers * sizeof_ConsState P))"

definition SharedQueueAcquire_qsize :: "squeue_params \<Rightarrow> int \<Rightarrow> int" where
  "SharedQueueAcquire_qsize P ncons =
     c_int (size_t (SQUEUE_SIZE P - SQUEUE_HDR_SIZE P ncons) div size_t ncons)"

definition SharedQueueAcquire_format :: "squeue_params \<Rightarrow> shmem \<Rightarrow> string \<Rightarrow> int \<Rightarrow> shmem" where
  "SharedQueueAcquire_format P shm sqname ncons =
     (let free = first_index (\<lambda>q. q = None) (SQueueSyncs shm);
          qsize = SharedQueueAcquire_qsize P ncons;
          sq = \<lparr>sq_key = sqname, sq_pid = 0, sq_nodeid = - 1, sq_sync = free, sq_refcnt = 1,
                sq_nconsumers = ncons,
                sq_consumers = replicate (nat ncons)
                  \<lparr>cs_pid = 0, cs_node = - 1, cs_ntuples = 0, cs_status = CONSUMER_ACTIVE,
                   cs_qstart = replicate (nat qsize) 0, cs_qlength = qsize,
                   cs_qreadpos = 0, cs_qwritepos = 0\<rparr>\<rparr>
      in shm\<lparr>SharedQueues := SharedQueues shm @ [sq],
             SQueueSyncs := (case free of None \<Rightarrow> SQueueSyncs shm
                             | Some k \<Rightarrow> (SQueueSyncs shm)[k := Some sqname])\<rparr>)"

text \<open>
  The value of \<^verbatim>\<open>old_squeue\<close> after the loop over the consumers, for the caller's node
  \<open>node\<close> (\<^verbatim>\<open>PGXC_PARENT_NODE_ID\<close>), and the events of the loop.
\<close>

definition SharedQueueAcquire_old :: "SQueueHeader \<Rightarrow> int \<Rightarrow> bool \<times> event list" where
  "SharedQueueAcquire_old sq node =
     (case first_index (\<lambda>cstate. cs_node cstate = node) (consumers sq) of
        None \<Rightarrow> (True, [])
      | Some i \<Rightarrow> (cs_status (sq_consumers sq ! i) = CONSUMER_DONE,
                   [LWLockAcquire (cs_lwlock i) LW_EXCLUSIVE, LWLockRelease (cs_lwlock i)]))"

text \<open>
  The function from the label \<^verbatim>\<open>tryagain\<close> on, with the value of \<^verbatim>\<open>trycount\<close>.
  \<open>others k\<close> is what the other processes do to the shared memory during the sleep that
  follows try \<open>k\<close>. The result is the error raised, if any, the shared memory and the
  events.
\<close>

function SharedQueueAcquire_try ::
    "squeue_params \<Rightarrow> string \<Rightarrow> int \<Rightarrow> int \<Rightarrow> (int \<Rightarrow> shmem \<Rightarrow> shmem) \<Rightarrow> int \<Rightarrow> shmem
       \<Rightarrow> error option \<times> shmem \<times> event list" where
  "SharedQueueAcquire_try P sqname ncons node others trycount shm =
     (case hash_find shm sqname of
        None \<Rightarrow>
          if length (SharedQueues shm) \<ge> NUM_SQUEUES P
          then (Some out_of_shared_queue, shm, [LWLockAcquire SQueuesLock LW_EXCLUSIVE])
          else if ncons = 0
          then (Some division_by_zero, SharedQueueAcquire_format P shm sqname ncons,
                [LWLockAcquire SQueuesLock LW_EXCLUSIVE])
          else (None, SharedQueueAcquire_format P shm sqname ncons,
                [LWLockAcquire SQueuesLock LW_EXCLUSIVE, LWLockRelease SQueuesLock])
      | Some sq \<Rightarrow>
          let old = (if sq_pid sq \<noteq> 0 then SharedQueueAcquire_old sq node else (False, []))
          in if fst old then
               if trycount + 1 \<ge> 10 then
                 (Some (race_condition_not_resolved (trycount + 1)), others trycount shm,
                  [LWLockAcquire SQueuesLock LW_EXCLUSIVE] @ snd old
                  @ [LWLockRelease SQueuesLock, pg_usleep 1000000])
               else
                 (case SharedQueueAcquire_try P sqname ncons node others (trycount + 1)
                         (others trycount shm) of
                    (res, shm1, evs1) \<Rightarrow>
                      (res, shm1,
                       [LWLockAcquire SQueuesLock LW_EXCLUSIVE] @ snd old
                       @ [LWLockRelease SQueuesLock, pg_usleep 1000000] @ evs1))
             else
               (None, hash_store shm (sq\<lparr>sq_refcnt := sq_refcnt sq + 1\<rparr>),
                [LWLockAcquire SQueuesLock LW_EXCLUSIVE] @ snd old
                @ [LWLockRelease SQueuesLock]))"
  by pat_completeness auto
termination
  by (relation "measure (\<lambda>(P, sqname, ncons, node, others, trycount, shm). nat (10 - trycount))")
    auto

definition SharedQueueAcquire ::
    "squeue_params \<Rightarrow> string \<Rightarrow> int \<Rightarrow> int \<Rightarrow> (int \<Rightarrow> shmem \<Rightarrow> shmem) \<Rightarrow> shmem
       \<Rightarrow> error option \<times> shmem \<times> event list" where
  "SharedQueueAcquire P sqname ncons node others shm =
     SharedQueueAcquire_try P sqname ncons node others 0 shm"

subsection \<open>\<^verbatim>\<open>SharedQueueBind\<close>\<close>

text \<open>
  Modelled from the spec: \<^verbatim>\<open>squeue.h\<close> is not among the sources. The consumer map holds
  slot indexes and the two marks \<open>SELF\<close> and \<open>NONE\<close>; the marks are negative numbers.
\<close>

definition SQ_CONS_SELF :: int where
  "SQ_CONS_SELF = - 1"

definition SQ_CONS_NONE :: int where
  "SQ_CONS_NONE = - 2"

text \<open>
  The producer's loop \<^verbatim>\<open>foreach(lc, distNodes)\<close>: the nodes still to visit, the consumer
  states (of which the first \<open>n\<close> are in use) and the part of \<^verbatim>\<open>consMap\<close> filled so far.
\<close>

fun SharedQueueBind_producer ::
    "int list \<Rightarrow> int list \<Rightarrow> int \<Rightarrow> nat \<Rightarrow> ConsState list \<Rightarrow> int list
       \<Rightarrow> ConsState list \<times> int list" where
  "SharedQueueBind_producer [] consNodes node n cs consMap = (cs, consMap)"
| "SharedQueueBind_producer (nodeid # distNodes) consNodes node n cs consMap =
     (if nodeid = node then
        SharedQueueBind_producer distNodes consNodes node n cs (consMap @ [SQ_CONS_SELF])
      else if nodeid \<in> set consNodes then
        (case first_index (\<lambda>cstate. cs_node cstate = nodeid \<or> cs_node cstate = - 1) (take n cs) of
           None \<Rightarrow> SharedQueueBind_producer distNodes consNodes node n cs consMap
         | Some j \<Rightarrow>
             if cs_node (cs ! j) = nodeid then
               SharedQueueBind_producer distNodes consNodes node n cs (consMap @ [SQ_CONS_NONE])
             else
               SharedQueueBind_producer distNodes consNodes node n
                 (cs[j := (cs ! j)\<lparr>cs_node := nodeid\<rparr>]) (consMap @ [int j]))
      else
        SharedQueueBind_producer distNodes consNodes node n cs (consMap @ [SQ_CONS_NONE]))"

text \<open>
  The consumer's loop \<^verbatim>\<open>foreach (lc, consNodes)\<close>: \<open>producer\<close> is \<^verbatim>\<open>sq->sq_nodeid\<close>,
  \<open>node\<close> the caller's node and \<open>pid\<close> its process id. The result is the error raised, if
  any, the consumer states, \<^verbatim>\<open>*myindex\<close> and the events.
\<close>

fun SharedQueueBind_consumer ::
    "int list \<Rightarrow> int \<Rightarrow> int \<Rightarrow> int \<Rightarrow> nat \<Rightarrow> ConsState list \<Rightarrow> int \<Rightarrow> event list
       \<Rightarrow> error option \<times> ConsState list \<times> int \<times> event list" where
  "SharedQueueBind_consumer [] producer node pid n cs myindex evs = (None, cs, myindex, evs)"
| "SharedQueueBind_consumer (nodeid # consNodes) producer node pid n cs myindex evs =
     (if nodeid = producer then SharedQueueBind_consumer consNodes producer node pid n cs myindex evs
      else
        (case first_index (\<lambda>cstate. cs_node cstate = nodeid) (take n cs) of
           None \<Rightarrow> SharedQueueBind_consumer consNodes producer node pid n cs myindex evs
         | Some i \<Rightarrow>
             if nodeid = node then
               (if cs_status (cs ! i) = CONSUMER_ERROR \<or> cs_status (cs ! i) = CONSUMER_DONE then
                  (Some producer_failed, cs[i := (cs ! i)\<lparr>cs_status := CONSUMER_DONE\<rparr>], myindex,
                   evs @ [LWLockAcquire (cs_lwlock i) LW_EXCLUSIVE, SetLatch sqs_producer_latch,
                          LWLockRelease (cs_lwlock i), LWLockRelease sqs_producer_lwlock])
                else
                  SharedQueueBind_consumer consNodes producer node pid n
                    (cs[i := (cs ! i)\<lparr>cs_pid := pid\<rparr>]) (int i)
                    (evs @ [LWLockAcquire (cs_lwlock i) LW_EXCLUSIVE, OwnLatch (cs_latch i),
                            LWLockRelease (cs_lwlock i)]))
             else SharedQueueBind_consumer consNodes producer node pid n cs myindex evs))"

text \<open>
  The result is the error raised, if any, \<^verbatim>\<open>*myindex\<close> and \<^verbatim>\<open>consMap\<close>, then the shared
  memory and the events; the queue returned is the entry named \<open>sqname\<close>. \<open>pid\<close> is
  \<^verbatim>\<open>MyProcPid\<close>. The assertions of the function are not part of the model.
\<close>

definition SharedQueueBind ::
    "shmem \<Rightarrow> string \<Rightarrow> int list \<Rightarrow> int list \<Rightarrow> int \<Rightarrow> int
       \<Rightarrow> (error option \<times> int \<times> int list) \<times> shmem \<times> event list" where
  "SharedQueueBind shm sqname consNodes distNodes pid node =
     (case hash_find shm sqname of
        None \<Rightarrow> ((Some shared_queue_not_found, - 1, []), shm,
                 [LWLockAcquire SQueuesLock LW_EXCLUSIVE])
      | Some sq \<Rightarrow>
          if sq_pid sq = 0 then
            (case SharedQueueBind_producer distNodes consNodes node (nat (sq_nconsumers sq))
                    (sq_consumers sq) [] of
               (cs, consMap) \<Rightarrow>
                 ((None, - 1, consMap),
                  hash_store shm (sq\<lparr>sq_pid := pid, sq_nodeid := node, sq_consumers := cs,
                                     sq_refcnt := sq_refcnt sq + 1\<rparr>),
                  [LWLockAcquire SQueuesLock LW_EXCLUSIVE,
                   LWLockAcquire sqs_producer_lwlock LW_EXCLUSIVE, LWLockRelease SQueuesLock,
                   OwnLatch sqs_producer_latch, LWLockRelease sqs_producer_lwlock]))
          else
            (case SharedQueueBind_consumer consNodes (sq_nodeid sq) node pid
                    (nat (sq_nconsumers sq)) (sq_consumers sq) (- 1) [] of
               (err, cs, myindex, evs) \<Rightarrow>
                 ((err, myindex, []), hash_store shm (sq\<lparr>sq_consumers := cs\<rparr>),
                  [LWLockAcquire SQueuesLock LW_EXCLUSIVE,
                   LWLockAcquire sqs_producer_lwlock LW_EXCLUSIVE, LWLockRelease SQueuesLock]
                  @ evs
                  @ (if err = None then [LWLockRelease sqs_producer_lwlock] else []))))"


subsection \<open>\<^verbatim>\<open>SharedQueueUnBind\<close> and \<^verbatim>\<open>SharedQueueRelease\<close>\<close>

text \<open>
  The last holder removes the entry: the code under \<^verbatim>\<open>if (--sq->sq_refcnt == 0)\<close> in both
  functions. The result is the shared memory, and the entry that \<^verbatim>\<open>hash_search\<close> removed
  and returned, as the two assignments of \<^verbatim>\<open>NULL\<close> have left it; it is \<open>None\<close> when the
  count stays above zero. In the model \<^verbatim>\<open>hash_search\<close> returns the entry of that key, so
  that the \<^verbatim>\<open>PANIC\<close> does not occur.
\<close>

definition drop_reference :: "shmem \<Rightarrow> SQueueHeader \<Rightarrow> shmem \<times> SQueueHeader option" where
  "drop_reference shm sq =
     (let sq1 = sq\<lparr>sq_refcnt := sq_refcnt sq - 1\<rparr>
      in if sq_refcnt sq1 = 0 then
           (hash_remove
              (shm\<lparr>SQueueSyncs := (case sq_sync sq1 of None \<Rightarrow> SQueueSyncs shm
                                     | Some k \<Rightarrow> (SQueueSyncs shm)[k := None])\<rparr>)
              (sq_key sq1),
            Some (sq1\<lparr>sq_sync := None\<rparr>))
         else (hash_store shm sq1, None))"

text \<open>The events of a loop that takes and releases the lock of each consumer in turn.\<close>

definition each_consumer_locked :: "nat \<Rightarrow> event list" where
  "each_consumer_locked n =
     concat (map (\<lambda>i. [LWLockAcquire (cs_lwlock i) LW_EXCLUSIVE, LWLockRelease (cs_lwlock i)])
               [0..<n])"

text \<open>
  The loop \<^verbatim>\<open>/* check queue states */\<close> of \<^verbatim>\<open>SharedQueueUnBind\<close>, from consumer \<open>i\<close> on:
  the consumer states, what it adds to \<^verbatim>\<open>c_count\<close>, and the events.
\<close>

fun SharedQueueUnBind_check ::
    "bool \<Rightarrow> nat \<Rightarrow> ConsState list \<Rightarrow> ConsState list \<times> int \<times> event list" where
  "SharedQueueUnBind_check failed i [] = ([], 0, [])"
| "SharedQueueUnBind_check failed i (cstate # rest) =
     (case SharedQueueUnBind_check failed (Suc i) rest of
        (cs, c_count, evs) \<Rightarrow>
          if cs_status cstate = CONSUMER_ACTIVE \<and> failed then
            (cstate\<lparr>cs_status := CONSUMER_ERROR\<rparr> # cs, c_count,
             [LWLockAcquire (cs_lwlock i) LW_EXCLUSIVE, LWLockRelease (cs_lwlock i)] @ evs)
          else if cs_status cstate \<noteq> CONSUMER_DONE \<and> \<not> failed then
            (cstate # cs, c_count + 1,
             [LWLockAcquire (cs_lwlock i) LW_EXCLUSIVE, SetLatch (cs_latch i),
              ResetLatch sqs_producer_latch, LWLockRelease (cs_lwlock i)] @ evs)
          else
            (cstate # cs, c_count,
             [LWLockAcquire (cs_lwlock i) LW_EXCLUSIVE, LWLockRelease (cs_lwlock i)] @ evs))"

text \<open>The events of \<^verbatim>\<open>SharedQueueResetNotConnected\<close>.\<close>

definition SharedQueueResetNotConnected_events :: "SQueueHeader \<Rightarrow> event list" where
  "SharedQueueResetNotConnected_events squeue =
     [LWLockAcquire sqs_producer_lwlock LW_EXCLUSIVE]
     @ concat (map (\<lambda>i. [LWLockAcquire (cs_lwlock i) LW_EXCLUSIVE]
                         @ (if cs_pid (sq_consumers squeue ! i) = 0
                               \<and> cs_status (sq_consumers squeue ! i) \<noteq> CONSUMER_DONE
                            then [SetLatch (cs_latch i)] else [])
                         @ [LWLockRelease (cs_lwlock i)])
                 [0..<length (consumers squeue)])
     @ [LWLockRelease sqs_producer_lwlock]"

text \<open>
  \<^verbatim>\<open>SharedQueueUnBind\<close> from the label \<^verbatim>\<open>CHECK\<close> to the point where it holds
  \<^verbatim>\<open>SQueuesLock\<close> and the producer's lock and has found no consumer running. The other
  processes act on the queue while the producer waits in \<^verbatim>\<open>WaitLatch\<close>, and between its
  two locked sections; \<open>others\<close> lists, for each of these moments in turn, whether the
  wait timed out (of use in the first case only) and what the others did to the queue. The
  result is \<open>None\<close> when the list ends before the function gets there.
\<close>

fun SharedQueueUnBind_wait ::
    "bool \<Rightarrow> SQueueHeader \<Rightarrow> (bool \<times> (SQueueHeader \<Rightarrow> SQueueHeader)) list
       \<Rightarrow> (SQueueHeader \<times> event list) option" where
  "SharedQueueUnBind_wait failed squeue [] = None"
| "SharedQueueUnBind_wait failed squeue ((timeout, f) # others) =
     (case SharedQueueUnBind_check failed 0 (consumers squeue) of
        (cs, c_count, evs) \<Rightarrow>
          let sq1 = squeue\<lparr>sq_consumers := cs @ drop (nat (sq_nconsumers squeue))
                                                   (sq_consumers squeue)\<rparr>;
              evs1 = [LWLockAcquire sqs_producer_lwlock LW_EXCLUSIVE] @ evs
                     @ [LWLockRelease sqs_producer_lwlock]
          in if c_count = 0 then
               let sq2 = f sq1;
                   evs2 = evs1 @ [LWLockAcquire SQueuesLock LW_EXCLUSIVE,
                                  LWLockAcquire sqs_producer_lwlock LW_EXCLUSIVE]
                          @ each_consumer_locked (length (consumers sq2))
               in if filter (\<lambda>cstate. cs_status cstate = CONSUMER_ACTIVE \<and> cs_pid cstate \<noteq> 0)
                       (consumers sq2) \<noteq> []
                  then
                    (case SharedQueueUnBind_wait failed sq2 others of
                       None \<Rightarrow> None
                     | Some (sq3, evs3) \<Rightarrow>
                         Some (sq3, evs2 @ [LWLockRelease sqs_producer_lwlock,
                                            LWLockRelease SQueuesLock] @ evs3))
                  else Some (sq2, evs2)
             else
               let sq2 = f sq1;
                   sq3 = (if timeout then SharedQueueResetNotConnected sq2 else sq2);
                   evs2 = evs1 @ [WaitLatch sqs_producer_latch]
                          @ (if timeout then SharedQueueResetNotConnected_events sq2 else [])
               in (case SharedQueueUnBind_wait failed sq3 others of
                     None \<Rightarrow> None
                   | Some (sq4, evs4) \<Rightarrow> Some (sq4, evs2 @ evs4)))"

text \<open>
  The whole function, for the queue named \<open>key\<close>, which \<^verbatim>\<open>squeue\<close> points to. The result is
  the shared memory, the entry removed, if any, and the events; it is \<open>None\<close> as for
  \<open>SharedQueueUnBind_wait\<close>, and when \<^verbatim>\<open>squeue\<close> does not point to an entry with an
  \<^verbatim>\<open>SQueueSync\<close>.
\<close>

definition SharedQueueUnBind ::
    "shmem \<Rightarrow> string \<Rightarrow> bool \<Rightarrow> (bool \<times> (SQueueHeader \<Rightarrow> SQueueHeader)) list
       \<Rightarrow> (shmem \<times> SQueueHeader option \<times> event list) option" where
  "SharedQueueUnBind shm key failed others =
     (case hash_find shm key of
        None \<Rightarrow> None
      | Some squeue \<Rightarrow>
          if sq_sync squeue = None then None
          else
            (case SharedQueueUnBind_wait failed squeue others of
               None \<Rightarrow> None
             | Some (sq1, evs) \<Rightarrow>
                 (case drop_reference (hash_store shm sq1) sq1 of
                    (shm1, removed) \<Rightarrow>
                      Some (shm1, removed,
                            evs @ [DisownLatch sqs_producer_latch]
                            @ (if removed = None then [] else [HASH_REMOVE key])
                            @ [LWLockRelease sqs_producer_lwlock, LWLockRelease SQueuesLock]))))"

text \<open>
  \<^verbatim>\<open>SharedQueueRelease\<close> where the caller is a consumer of a bound queue
  (\<^verbatim>\<open>sq->sq_nodeid != PGXC_PARENT_NODE_ID\<close>), up to the label \<^verbatim>\<open>done\<close>.
\<close>

definition SharedQueueRelease_consumer :: "SQueueHeader \<Rightarrow> int \<Rightarrow> SQueueHeader \<times> event list" where
  "SharedQueueRelease_consumer sq node =
     (case first_index (\<lambda>cstate. cs_node cstate = node) (consumers sq) of
        Some i \<Rightarrow>
          let cstate = sq_consumers sq ! i in
          if cs_pid cstate = 0 then
            (sq, [LWLockAcquire (cs_lwlock i) LW_EXCLUSIVE, LWLockRelease (cs_lwlock i),
                  LWLockRelease sqs_producer_lwlock])
          else if cs_status cstate \<noteq> CONSUMER_DONE then
            (sq\<lparr>sq_consumers := (sq_consumers sq)
                  [i := (if cs_pid cstate > 0
                         then cstate\<lparr>cs_status := CONSUMER_DONE, cs_pid := 0\<rparr>
                         else cstate\<lparr>cs_status := CONSUMER_DONE\<rparr>)]\<rparr>,
             [LWLockAcquire (cs_lwlock i) LW_EXCLUSIVE]
             @ (if cs_pid cstate > 0 then [DisownLatch (cs_latch i)] else [])
             @ [SetLatch sqs_producer_latch, LWLockRelease (cs_lwlock i),
                LWLockRelease sqs_producer_lwlock])
          else
            (sq, [LWLockAcquire (cs_lwlock i) LW_EXCLUSIVE, LWLockRelease (cs_lwlock i),
                  LWLockRelease sqs_producer_lwlock])
      | None \<Rightarrow>
          (for_consumers
             (\<lambda>cstate. if cs_node cstate = - 1 then cstate\<lparr>cs_status := CONSUMER_DONE\<rparr>
                         else cstate) sq,
           concat (map (\<lambda>i. if cs_node (sq_consumers sq ! i) = - 1
                             then [LWLockAcquire (cs_lwlock i) LW_EXCLUSIVE,
                                   SetLatch sqs_producer_latch, LWLockRelease (cs_lwlock i)]
                             else [])
                     [0..<length (consumers sq)])
           @ [LWLockRelease sqs_producer_lwlock]))"

text \<open>
  The result is the shared memory, the entry removed, if any, and the events. \<open>node\<close> is
  \<^verbatim>\<open>PGXC_PARENT_NODE_ID\<close>.
\<close>

definition SharedQueueRelease ::
    "shmem \<Rightarrow> string \<Rightarrow> int \<Rightarrow> shmem \<times> SQueueHeader option \<times> event list" where
  "SharedQueueRelease shm sqname node =
     (case hash_find shm sqname of
        None \<Rightarrow> (shm, None, [LWLockAcquire SQueuesLock LW_EXCLUSIVE, LWLockRelease SQueuesLock])
      | Some sq \<Rightarrow>
          (case (if sq_nodeid sq = - 1 then (sq, [LWLockRelease sqs_producer_lwlock])
                 else if sq_nodeid sq \<noteq> node then SharedQueueRelease_consumer sq node
                 else (sq, [LWLockRelease sqs_producer_lwlock])) of
             (sq1, evs) \<Rightarrow>
               (case drop_reference (hash_store shm sq1) sq1 of
                  (shm1, removed) \<Rightarrow>
                    (shm1, removed,
                     [LWLockAcquire SQueuesLock LW_EXCLUSIVE,
                      LWLockAcquire sqs_producer_lwlock LW_EXCLUSIVE] @ evs
                     @ (if removed = None then [] else [HASH_REMOVE sqname])
                     @ [LWLockRelease SQueuesLock]))))"

text \<open>
  The locks that a process holds after the events \<open>evs\<close>, having held \<open>held\<close> before.
\<close>

fun locks_after :: "lwlock list \<Rightarrow> event list \<Rightarrow> lwlock list" where
  "locks_after held [] = held"
| "locks_after held (LWLockAcquire l m # evs) = locks_after (l # held) evs"
| "locks_after held (LWLockRelease l # evs) = locks_after (remove1 l held) evs"
| "locks_after held (e # evs) = locks_after held evs"

text \<open>
  Whether every \<^verbatim>\<open>hash_search(..., HASH_REMOVE, ...)\<close> among the events is made with
  \<^verbatim>\<open>SQueuesLock\<close> held.
\<close>

fun removes_under_lock :: "lwlock list \<Rightarrow> event list \<Rightarrow> bool" where
  "removes_under_lock held [] = True"
| "removes_under_lock held (LWLockAcquire l m # evs) = removes_under_lock (l # held) evs"
| "removes_under_lock held (LWLockRelease l # evs) = removes_under_lock (remove1 l held) evs"
| "removes_under_lock held (HASH_REMOVE key # evs) =
     (SQueuesLock \<in> set held \<and> removes_under_lock held evs)"
| "removes_under_lock held (e # evs) = removes_under_lock held evs"


section \<open>What a consumer queue holds\<close>

text \<open>
  The predicates of this section describe consumer states; they are what the functions
  above are proved to establish and to maintain.

  \<open>ring_ok\<close>: the queue has \<open>cs_qlength\<close> bytes, at least one, and both positions lie
  inside it.
\<close>

definition ring_ok :: "ConsState \<Rightarrow> bool" where
  "ring_ok cs \<longleftrightarrow>
     0 < cs_qlength cs \<and> length (cs_qstart cs) = nat (cs_qlength cs) \<and>
     0 \<le> cs_qreadpos cs \<and> cs_qreadpos cs < cs_qlength cs \<and>
     0 \<le> cs_qwritepos cs \<and> cs_qwritepos cs < cs_qlength cs"

text \<open>
  A tuple record is the four bytes of the length followed by the data row;
  \<open>queue_bytes\<close> are the records of a list of data rows one after the other, and
  \<open>used_bytes\<close> is their number of bytes.
\<close>

definition record_bytes :: "byte list \<Rightarrow> byte list" where
  "record_bytes d = int_bytes (int (length d)) @ d"

definition queue_bytes :: "byte list list \<Rightarrow> byte list" where
  "queue_bytes ts = concat (map record_bytes ts)"

definition used_bytes :: "byte list list \<Rightarrow> nat" where
  "used_bytes ts = sum_list (map (\<lambda>d. 4 + length d) ts)"

text \<open>The bytes of the queue in the order in which a reader meets them.\<close>

definition ring_view :: "ConsState \<Rightarrow> byte list" where
  "ring_view cs = rotate (nat (cs_qreadpos cs)) (cs_qstart cs)"

text \<open>\<open>ring_rel cs u\<close>: the write position is \<open>u\<close> bytes ahead of the read position.\<close>

definition ring_rel :: "ConsState \<Rightarrow> nat \<Rightarrow> bool" where
  "ring_rel cs u \<longleftrightarrow>
     ring_ok cs \<and> int u \<le> cs_qlength cs \<and>
     cs_qwritepos cs = (cs_qreadpos cs + int u) mod cs_qlength cs"

text \<open>
  \<open>ring_holds cs ts\<close>: the queue holds the records of the data rows \<open>ts\<close>, oldest first,
  from the read position up to the write position, and counts them in \<open>cs_ntuples\<close>.
\<close>

definition ring_holds :: "ConsState \<Rightarrow> byte list list \<Rightarrow> bool" where
  "ring_holds cs ts \<longleftrightarrow>
     ring_rel cs (used_bytes ts) \<and> cs_ntuples cs = int (length ts) \<and>
     take (used_bytes ts) (ring_view cs) = queue_bytes ts"

section \<open>Example states\<close>

text \<open>
  The states of a queue of 8 bytes after the first piece of a data row of 6 bytes has
  been read, and of a queue of 16 bytes that holds one data row of 3 bytes.
\<close>

definition long_tuple_state :: ConsState where
  "long_tuple_state =
     ch_cstate (channel_run (fresh_channel (fresh_slot [0, 0, 0, 0, 0, 0, 0, 0]))
                  [Write [1, 2, 3, 4, 5, 6], Read True, Finish, Wake])"

definition one_tuple_state :: ConsState where
  "one_tuple_state =
     ch_cstate (channel_run
       (fresh_channel (fresh_slot [0, 0, 0, 0, 0, 0, 0, 0, 0, 0, 0, 0, 0, 0, 0, 0]))
       [Write [65, 66, 67]])"

text \<open>
  The events of \<^verbatim>\<open>SharedQueueRead\<close> from the taking of the two locks to its return of
  true.
\<close>

definition SharedQueueRead_eof_events :: "nat \<Rightarrow> event list" where
  "SharedQueueRead_eof_events consumerIdx =
     [LWLockAcquire sqs_producer_lwlock LW_SHARED,
      LWLockAcquire (cs_lwlock consumerIdx) LW_EXCLUSIVE,
      DisownLatch (cs_latch consumerIdx), LWLockRelease (cs_lwlock consumerIdx),
      ExecClearTuple, SetLatch sqs_producer_latch, LWLockRelease sqs_producer_lwlock]"

text \<open>
  The events of \<^verbatim>\<open>SharedQueueRead\<close> from the taking of the two locks to the end of a
  wait on the empty queue.
\<close>

definition SharedQueueRead_wait_events :: "nat \<Rightarrow> event list" where
  "SharedQueueRead_wait_events consumerIdx =
     [LWLockAcquire sqs_producer_lwlock LW_SHARED,
      LWLockAcquire (cs_lwlock consumerIdx) LW_EXCLUSIVE,
      ResetLatch (cs_latch consumerIdx), LWLockRelease (cs_lwlock consumerIdx),
      SetLatch sqs_producer_latch, LWLockRelease sqs_producer_lwlock,
      WaitLatch (cs_latch consumerIdx)]"

text \<open>
  The consumer states on which \<^verbatim>\<open>SharedQueueRead\<close> waits when it may wait: the queue is
  empty, and the status tells neither the end of the data nor an error.
\<close>

definition waits_on :: "ConsState \<Rightarrow> bool" where
  "waits_on cstate \<longleftrightarrow>
     cs_ntuples cstate \<le> 0 \<and> cs_status cstate \<noteq> CONSUMER_EOF \<and>
     cs_status cstate \<noteq> CONSUMER_ERROR"

text \<open>
  The consumer states that a call finds one after the other when it takes the locks again,
  where \<open>fs\<close> lists what the other processes do during its waits and the call itself
  leaves the consumer state as it is.
\<close>

primrec woken_states :: "ConsState \<Rightarrow> (ConsState \<Rightarrow> ConsState) list \<Rightarrow> ConsState list" where
  "woken_states cstate [] = []"
| "woken_states cstate (f # fs) = f cstate # woken_states (f cstate) fs"

text \<open>
  The consumer state that a call of \<^verbatim>\<open>SharedQueueRead\<close> has found when it took the locks
  for the last time: the state \<open>found\<close> at which the step at hand has started, or, when
  this step waits and the other processes do \<open>f\<close> meanwhile, the state \<open>f cstate\<close> at
  which the next step starts, and so on, as in \<open>SharedQueueRead_run\<close>.
\<close>

fun SharedQueueRead_found ::
    "nat \<Rightarrow> bool \<Rightarrow> ConsState \<Rightarrow> read_step \<Rightarrow> (ConsState \<Rightarrow> ConsState) list \<Rightarrow> ConsState" where
  "SharedQueueRead_found consumerIdx canwait found (Returns b d, cstate, evs) others = found"
| "SharedQueueRead_found consumerIdx canwait found (Raises e, cstate, evs) others = found"
| "SharedQueueRead_found consumerIdx canwait found (waiting, cstate, evs) [] = found"
| "SharedQueueRead_found consumerIdx canwait found (waiting, cstate, evs) (f # others) =
     (case SharedQueueRead_wake consumerIdx (f cstate) canwait waiting of
        (res, c, evs1) \<Rightarrow>
          SharedQueueRead_found consumerIdx canwait (f cstate) (res, c, evs @ evs1) others)"

text \<open>A consumer state in which the producer has marked the end of the data.\<close>

definition eof_slot :: ConsState where
  "eof_slot = (fresh_slot [0, 0, 0, 0, 0, 0, 0, 0])\<lparr>cs_status := CONSUMER_EOF\<rparr>"

text \<open>
  Parameters for small examples, an empty shared memory with two \<^verbatim>\<open>SQueueSync\<close>, and the
  shared memory after \<^verbatim>\<open>SharedQueueAcquire("q1", 1)\<close> by a process of node 7.
\<close>

definition example_params :: squeue_params where
  "example_params =
     \<lparr>NUM_SQUEUES = 2, SQUEUE_SIZE = 64, sizeof_SQueueHeader = 40, sizeof_ConsState = 8\<rparr>"

definition empty_shmem :: shmem where
  "empty_shmem = \<lparr>SharedQueues = [], SQueueSyncs = [None, None]\<rparr>"

definition acquired_shmem :: shmem where
  "acquired_shmem =
     fst (snd (SharedQueueAcquire example_params ''q1'' 1 7 (\<lambda>k shm. shm) empty_shmem))"

text \<open>
  The consumers that \<^verbatim>\<open>SharedQueueCanPause\<close> counts, and the bytes in use in a consumer's
  queue: its length minus its free space.
\<close>

definition active_consumers :: "SQueueHeader \<Rightarrow> ConsState list" where
  "active_consumers sq = filter (\<lambda>cstate. cs_status cstate = CONSUMER_ACTIVE) (consumers sq)"

definition ring_occupancy :: "ConsState \<Rightarrow> int" where
  "ring_occupancy cstate = cs_qlength cstate - QUEUE_FREE_SPACE cstate"

text \<open>
  A queue with two active consumers, whose queues of 16 bytes hold a data row of 4 bytes
  and one of 5 bytes, and a queue with the second of them only.
\<close>

definition pause_example :: SQueueHeader where
  "pause_example =
     \<lparr>sq_key = ''q1'', sq_pid = 100, sq_nodeid = 1, sq_sync = Some 0, sq_refcnt = 2,
      sq_nconsumers = 2,
      sq_consumers =
        [ch_cstate (channel_run
           (fresh_channel (fresh_slot [0, 0, 0, 0, 0, 0, 0, 0, 0, 0, 0, 0, 0, 0, 0, 0]))
           [Write [1, 2, 3, 4]]),
         ch_cstate (channel_run
           (fresh_channel (fresh_slot [0, 0, 0, 0, 0, 0, 0, 0, 0, 0, 0, 0, 0, 0, 0, 0]))
           [Write [1, 2, 3, 4, 5]])]\<rparr>"

definition pause_example_one :: SQueueHeader where
  "pause_example_one =
     pause_example\<lparr>sq_nconsumers := 1, sq_consumers := tl (sq_consumers pause_example)\<rparr>"

text \<open>
  A consumer whose queue of 16 bytes holds a data row of 8 bytes and who has then been
  reset with its own index, as by \<^verbatim>\<open>SharedQueueReset(squeue, consumerIdx)\<close>: its status is
  \<open>CONSUMER_DONE\<close> and its queue is as it was.
\<close>

definition done_slot :: ConsState where
  "done_slot =
     SharedQueueReset_consumer
       (ch_cstate (channel_run
          (fresh_channel (fresh_slot [0, 0, 0, 0, 0, 0, 0, 0, 0, 0, 0, 0, 0, 0, 0, 0]))
          [Write [1, 2, 3, 4, 5, 6, 7, 8]]))"

text \<open>
  \<open>stale_entry\<close>: \<^verbatim>\<open>SharedQueueAcquire\<close> finds an entry with a producer bound and sets
  \<^verbatim>\<open>old_squeue\<close>, which it does when the first consumer state of the caller's node has
  the status \<open>CONSUMER_DONE\<close>, and when no consumer state is of the caller's node.
  \<open>sleeps\<close> counts the calls \<^verbatim>\<open>pg_usleep(1000000L)\<close>, of one second each.
\<close>

definition stale_entry :: "shmem \<Rightarrow> string \<Rightarrow> int \<Rightarrow> bool" where
  "stale_entry shm sqname node =
     (case hash_find shm sqname of
        None \<Rightarrow> False
      | Some sq \<Rightarrow> sq_pid sq \<noteq> 0 \<and> fst (SharedQueueAcquire_old sq node))"

definition sleeps :: "event list \<Rightarrow> nat" where
  "sleeps evs = length (filter (\<lambda>e. e = pg_usleep 1000000) evs)"

text \<open>
  The shared memory after the process 100 of node 1 has bound to \<open>q1\<close> as the producer
  for the nodes 1 and 7, and the same after node 7 has been disconnected.
\<close>

definition bound_shmem :: shmem where
  "bound_shmem = fst (snd (SharedQueueBind acquired_shmem ''q1'' [1, 7] [1, 7] 100 1))"

definition stale_shmem :: shmem where
  "stale_shmem = the (fst (SharedQueueDisconnectConsumer (Some bound_shmem) ''q1'' 7))"

text \<open>
  Events that take and release locks in a nested way, and remove nothing from the hash
  table.
\<close>

definition quiet :: "event list \<Rightarrow> bool" where
  "quiet evs \<longleftrightarrow> (\<forall>held. locks_after held evs = held \<and> removes_under_lock held evs)"

text \<open>
  The \<^verbatim>\<open>sq_refcnt\<close> and the \<^verbatim>\<open>sq_sync\<close> of the entry named \<open>name\<close>, if the table has
  one; a number of calls of \<^verbatim>\<open>SharedQueueRelease\<close> for that name, one from each of the
  nodes listed.
\<close>

definition refcount :: "shmem \<Rightarrow> string \<Rightarrow> int option" where
  "refcount shm name = map_option sq_refcnt (hash_find shm name)"

definition sync_of :: "shmem \<Rightarrow> string \<Rightarrow> nat option" where
  "sync_of shm name = (case hash_find shm name of None \<Rightarrow> None | Some sq \<Rightarrow> sq_sync sq)"

definition releases :: "shmem \<Rightarrow> string \<Rightarrow> int list \<Rightarrow> shmem" where
  "releases shm name nodes = foldl (\<lambda>s node. fst (SharedQueueRelease s name node)) shm nodes"

text \<open>
  What the other processes do to the queue while \<^verbatim>\<open>SharedQueueUnBind\<close> waits leaves its
  key, its reference count and its \<^verbatim>\<open>SQueueSync\<close> alone.
\<close>

definition keeps_header :: "(SQueueHeader \<Rightarrow> SQueueHeader) \<Rightarrow> bool" where
  "keeps_header f \<longleftrightarrow>
     (\<forall>sq. sq_key (f sq) = sq_key sq \<and> sq_refcnt (f sq) = sq_refcnt sq \<and>
           sq_sync (f sq) = sq_sync sq)"

text \<open>It leaves the key alone: no function of \<^verbatim>\<open>squeue.c\<close> writes the key of an entry.\<close>

definition keeps_key :: "(SQueueHeader \<Rightarrow> SQueueHeader) \<Rightarrow> bool" where
  "keeps_key f \<longleftrightarrow> (\<forall>sq. sq_key (f sq) = sq_key sq)"

text \<open>
  The entry as \<^verbatim>\<open>SharedQueueUnBind\<close> finds it when its wait for the consumers is over and
  it holds \<^verbatim>\<open>SQueuesLock\<close>, before it subtracts from \<^verbatim>\<open>sq_refcnt\<close>.
\<close>

definition SharedQueueUnBind_found ::
    "shmem \<Rightarrow> string \<Rightarrow> bool \<Rightarrow> (bool \<times> (SQueueHeader \<Rightarrow> SQueueHeader)) list
       \<Rightarrow> SQueueHeader option" where
  "SharedQueueUnBind_found shm key failed others =
     (case hash_find shm key of
        None \<Rightarrow> None
      | Some squeue \<Rightarrow> map_option fst (SharedQueueUnBind_wait failed squeue others))"

text \<open>
  The life of a queue of two participants. Both acquire \<open>q1\<close>; the process 100 of node
  1 binds as the producer and the process 200 of node 7 as the consumer; the consumer
  releases the queue; the producer unbinds. \<open>lone_unbound_shmem\<close> is the shared memory
  after a producer, alone, has acquired the queue, bound to it and unbound from it.
\<close>

definition two_acquired_shmem :: shmem where
  "two_acquired_shmem =
     fst (snd (SharedQueueAcquire example_params ''q1'' 1 7 (\<lambda>k shm. shm) acquired_shmem))"

definition both_bound_shmem :: shmem where
  "both_bound_shmem =
     fst (snd (SharedQueueBind
       (fst (snd (SharedQueueBind two_acquired_shmem ''q1'' [1, 7] [1, 7] 100 1)))
       ''q1'' [1, 7] [1, 7] 200 7))"

definition consumer_released_shmem :: shmem where
  "consumer_released_shmem = fst (SharedQueueRelease both_bound_shmem ''q1'' 7)"

definition unbound_shmem :: shmem where
  "unbound_shmem =
     fst (the (SharedQueueUnBind consumer_released_shmem ''q1'' False [(False, \<lambda>sq. sq)]))"

definition lone_unbound_shmem :: shmem where
  "lone_unbound_shmem =
     fst (the (SharedQueueUnBind bound_shmem ''q1'' True [(False, \<lambda>sq. sq)]))"

text \<open>
  What a call of \<^verbatim>\<open>SharedQueueRelease\<close> by the consumer of node \<open>node\<close> does to an entry
  that stays in the table; and the shared memory after the process 200 of node 7 has
  bound as the consumer to the queue of \<open>bound_shmem\<close>.
\<close>

definition released_by :: "int \<Rightarrow> SQueueHeader \<Rightarrow> SQueueHeader" where
  "released_by node sq =
     (fst (SharedQueueRelease_consumer sq node))\<lparr>sq_refcnt := sq_refcnt sq - 1\<rparr>"

definition joined_shmem :: shmem where
  "joined_shmem = fst (snd (SharedQueueBind bound_shmem ''q1'' [1, 7] [1, 7] 200 7))"

subsection \<open>Chunks, phases and runs\<close>

text \<open>
  \<open>ring_chunks cs chunks\<close>: the queue holds the byte sequences \<open>chunks\<close>, oldest first,
  from the read position up to the write position, and counts them in \<open>cs_ntuples\<close>.
  A chunk is the record of a data row or a piece of a long data row with its length.
\<close>

definition ring_chunks :: "ConsState \<Rightarrow> byte list list \<Rightarrow> bool" where
  "ring_chunks cs chunks \<longleftrightarrow>
     ring_rel cs (length (concat chunks)) \<and> cs_ntuples cs = int (length chunks) \<and>
     take (length (concat chunks)) (ring_view cs) = concat chunks \<and> [] \<notin> set chunks"

text \<open>
  The piece of the data row \<open>t\<close> that \<^verbatim>\<open>sq_push_long_tuple\<close> writes when \<open>k\<close> bytes of
  it have been passed on, into a queue that takes \<open>m\<close> bytes after the length: the number
  of the bytes that remain, and the next bytes.
\<close>

definition fragment :: "nat \<Rightarrow> byte list \<Rightarrow> nat \<Rightarrow> byte list" where
  "fragment m t k = int_bytes (int (length t) - int k) @ take m (drop k t)"

text \<open>The data rows in the producer's store.\<close>

definition stored :: "tuplestore option \<Rightarrow> byte list list" where
  "stored st = (case st of None \<Rightarrow> [] | Some s \<Rightarrow> s)"

text \<open>The number of bytes that a queue takes after the four of a length.\<close>

definition room :: "ConsState \<Rightarrow> nat" where
  "room cs = nat (cs_qlength cs) - 4"

text \<open>
  The wait of a reader in \<^verbatim>\<open>sq_pull_long_tuple\<close> that has got the first \<open>k\<close> bytes
  of the data row \<open>t\<close>.
\<close>

definition long_wait :: "byte list \<Rightarrow> nat \<Rightarrow> read_result option" where
  "long_wait t k =
     Some (WaitsLong \<lparr>pl_msglen = int (length t), pl_msg = take k t, pl_offset = int k\<rparr>)"

text \<open>
  \<open>phase W c st rd rcv\<close>: the data rows \<open>W\<close> written so far are those received
  \<open>rcv\<close>, those in the queue of the consumer state \<open>c\<close> and those in the store \<open>st\<close>,
  in this order, where \<open>rd\<close> is the wait of the reader. The queue holds whole records
  (\<open>Normal\<close>); or a piece, not the last one, of the first data row of the store
  (\<open>Partial\<close>); or nothing, while the reader has taken such a piece and left the number
  of bytes it has got at the start of the queue (\<open>Await\<close>); or the last piece of a data
  row, followed by whole records (\<open>Last\<close>).
\<close>

inductive phase ::
    "byte list list \<Rightarrow> ConsState \<Rightarrow> tuplestore option \<Rightarrow> read_result option \<Rightarrow>
     byte list list \<Rightarrow> bool" where
  Normal: "ring_chunks c (map record_bytes ts) \<Longrightarrow> rd = None \<or> rd = Some WaitsEmpty \<Longrightarrow>
     W = rcv @ ts @ stored st \<Longrightarrow> (cs_status c = CONSUMER_DONE \<longrightarrow> ts = []) \<Longrightarrow>
     phase W c st rd rcv"
| Partial: "ring_chunks c [fragment (room c) t k] \<Longrightarrow> room c < length t - k \<Longrightarrow>
     k = 0 \<and> (rd = None \<or> rd = Some WaitsEmpty) \<or> rd = long_wait t k \<Longrightarrow>
     st = Some (t # rest) \<Longrightarrow> W = rcv @ t # rest \<Longrightarrow> cs_status c = CONSUMER_ACTIVE \<Longrightarrow>
     phase W c st rd rcv"
| Await: "ring_rel c 0 \<Longrightarrow> cs_ntuples c = LONG_TUPLE \<Longrightarrow>
     take 4 (cs_qstart c) = int_bytes (int k) \<Longrightarrow> k < length t \<Longrightarrow> room c < length t \<Longrightarrow>
     rd = long_wait t k \<Longrightarrow> st = Some (t # rest) \<Longrightarrow> W = rcv @ t # rest \<Longrightarrow>
     cs_status c = CONSUMER_ACTIVE \<Longrightarrow> phase W c st rd rcv"
| Last: "ring_chunks c (fragment (room c) t k # map record_bytes ts) \<Longrightarrow>
     length t - k \<le> room c \<Longrightarrow> k \<le> length t \<Longrightarrow> rd = long_wait t k \<Longrightarrow>
     W = rcv @ t # ts @ stored st \<Longrightarrow> cs_status c \<noteq> CONSUMER_DONE \<Longrightarrow>
     phase W c st rd rcv"

text \<open>
  \<open>chan_inv W fin ch\<close>: what holds of a channel after the data rows \<open>W\<close> have been
  written to it, \<open>fin\<close> telling whether \<^verbatim>\<open>SharedQueueFinish\<close> has been called. The queue
  is longer than a length and its length is that of a C \<^verbatim>\<open>int\<close>, as are the lengths of
  the data rows.
\<close>

definition chan_inv :: "byte list list \<Rightarrow> bool \<Rightarrow> channel \<Rightarrow> bool" where
  "chan_inv W fin ch \<longleftrightarrow>
     phase W (ch_cstate ch) (ch_store ch) (ch_reader ch) (ch_received ch) \<and>
     4 < cs_qlength (ch_cstate ch) \<and> cs_qlength (ch_cstate ch) < 2147483648 \<and>
     (\<forall>t\<in>set W. length t < 2147483648) \<and>
     (cs_status (ch_cstate ch) = CONSUMER_ACTIVE \<or>
      (cs_status (ch_cstate ch) = CONSUMER_EOF \<or> cs_status (ch_cstate ch) = CONSUMER_DONE) \<and>
      ch_store ch = None) \<and>
     (ch_eof ch \<longleftrightarrow> cs_status (ch_cstate ch) = CONSUMER_DONE) \<and>
     (\<not> fin \<longrightarrow> cs_status (ch_cstate ch) = CONSUMER_ACTIVE)"

text \<open>
  The data rows that a sequence of steps writes, and the sequences in which no data row is
  written after \<^verbatim>\<open>SharedQueueFinish\<close> has been called, as a producer does.
\<close>

definition written :: "action list \<Rightarrow> byte list list" where
  "written acts = concat (map (\<lambda>a. case a of Write d \<Rightarrow> [d] | _ \<Rightarrow> []) acts)"

primrec orderly :: "action list \<Rightarrow> bool" where
  "orderly [] = True"
| "orderly (a # acts) = (case a of Finish \<Rightarrow> written acts = [] | _ \<Rightarrow> orderly acts)"

text \<open>
  A consumer state in which a producer and a consumer start: the queue is empty, the
  consumer is active, and the queue is longer than a length, its length being a positive C
  \<^verbatim>\<open>int\<close>.
\<close>

definition empty_slot :: "ConsState \<Rightarrow> bool" where
  "empty_slot cs \<longleftrightarrow>
     ring_ok cs \<and> cs_qreadpos cs = cs_qwritepos cs \<and> cs_ntuples cs = 0 \<and>
     cs_status cs = CONSUMER_ACTIVE \<and> 4 < cs_qlength cs \<and> cs_qlength cs < 2147483648"




text \<open>
  What the consumer has still to get in a run: for each data row written and not yet
  returned one step and its bytes, less the bytes already taken of a long data row, and
  one step for the end of the data.
\<close>

definition owed :: "byte list list \<Rightarrow> channel \<Rightarrow> nat" where
  "owed W ch =
     sum_list (map (\<lambda>t. Suc (length t)) (drop (length (ch_received ch)) W))
     - (case ch_reader ch of Some (WaitsLong ps) \<Rightarrow> nat (pl_offset ps) | _ \<Rightarrow> 0)
     + (if ch_eof ch then 0 else 1)"


text \<open>
  A run on a queue of 8 bytes: a data row of 2 bytes, one of 6 bytes, which does not fit
  the queue, and one of 1 byte are written; the consumer reads while the producer
  finishes, until it is told that the data have ended.
\<close>

definition fifo_acts :: "action list" where
  "fifo_acts =
     [Write [1, 2], Write [1, 2, 3, 4, 5, 6], Write [9], Read True, Finish, Read True, Finish,
      Wake, Finish, Read True, Read True]"

definition fifo_example :: channel where
  "fifo_example = channel_run (fresh_channel (fresh_slot [0, 0, 0, 0, 0, 0, 0, 0])) fifo_acts"

text \<open>
  The three calls of \<^verbatim>\<open>SharedQueueWrite\<close> of this run alone; and \<open>n\<close> rounds in which the
  producer calls \<^verbatim>\<open>SharedQueueFinish\<close>, a waiting call of the consumer is resumed, and
  the consumer calls \<^verbatim>\<open>SharedQueueRead\<close>.
\<close>

definition fifo_writes :: "action list" where
  "fifo_writes = [Write [1, 2], Write [1, 2, 3, 4, 5, 6], Write [9]]"

definition reader_rounds :: "nat \<Rightarrow> action list" where
  "reader_rounds n = concat (replicate n [Finish, Wake, Read True])"





section \<open>Properties of the consumer ring\<close>

lemma length_int_bytes [simp]: "length (int_bytes x) = 4"
  by (simp add: int_bytes_def Let_def)

lemma length_queue_bytes: "length (queue_bytes ts) = used_bytes ts"
  by (induction ts) (simp_all add: queue_bytes_def used_bytes_def record_bytes_def)

lemma ring_okE:
  assumes "ring_ok cs"
  obtains r w N where "cs_qreadpos cs = int r" "cs_qwritepos cs = int w" "cs_qlength cs = int N"
    "length (cs_qstart cs) = N" "r < N" "w < N"
proof -
  have "cs_qreadpos cs = int (nat (cs_qreadpos cs))" "cs_qwritepos cs = int (nat (cs_qwritepos cs))"
    "cs_qlength cs = int (nat (cs_qlength cs))" "length (cs_qstart cs) = nat (cs_qlength cs)"
    "nat (cs_qreadpos cs) < nat (cs_qlength cs)" "nat (cs_qwritepos cs) < nat (cs_qlength cs)"
    using assms unfolding ring_ok_def by simp_all
  then show thesis by (rule that)
qed

lemma free_space_empty: "cs_ntuples cs \<le> 0 \<Longrightarrow> QUEUE_FREE_SPACE cs = cs_qlength cs"
  by (simp add: QUEUE_FREE_SPACE_def)

lemma free_space_mod:
  assumes "0 < cs_ntuples cs" "0 \<le> cs_qreadpos cs" "cs_qreadpos cs < cs_qlength cs"
    "0 \<le> cs_qwritepos cs" "cs_qwritepos cs < cs_qlength cs"
  shows "QUEUE_FREE_SPACE cs = (cs_qreadpos cs - cs_qwritepos cs) mod cs_qlength cs"
proof (cases "cs_qreadpos cs \<ge> cs_qwritepos cs")
  case True
  then have "(cs_qreadpos cs - cs_qwritepos cs) mod cs_qlength cs = cs_qreadpos cs - cs_qwritepos cs"
    using assms by (intro mod_pos_pos_trivial) linarith+
  then show ?thesis using True assms(1) by (simp add: QUEUE_FREE_SPACE_def)
next
  case False
  have "(cs_qreadpos cs - cs_qwritepos cs) mod cs_qlength cs
      = (cs_qreadpos cs - cs_qwritepos cs + cs_qlength cs) mod cs_qlength cs"
    by simp
  also have "\<dots> = cs_qreadpos cs - cs_qwritepos cs + cs_qlength cs"
    using False assms by (intro mod_pos_pos_trivial) linarith+
  finally show ?thesis using False assms(1) by (simp add: QUEUE_FREE_SPACE_def)
qed

lemma free_space_rel:
  assumes "ring_rel cs u" "0 < cs_ntuples cs \<longleftrightarrow> 0 < u"
  shows "QUEUE_FREE_SPACE cs = cs_qlength cs - int u"
proof -
  from assms(1) have ok: "ring_ok cs" and u: "int u \<le> cs_qlength cs"
    and w: "cs_qwritepos cs = (cs_qreadpos cs + int u) mod cs_qlength cs"
    by (simp_all add: ring_rel_def)
  from ok obtain r w' N where c: "cs_qreadpos cs = int r" "cs_qlength cs = int N" and lt: "r < N"
    by (rule ring_okE)
  have uN: "u \<le> N" using u c by simp
  have md: "(int r + int u) mod int N = int ((r + u) mod N)" by (simp add: zmod_int)
  show ?thesis
  proof (cases "u = 0")
    case True
    then show ?thesis using assms(2) by (simp add: QUEUE_FREE_SPACE_def)
  next
    case False
    then have pos: "0 < cs_ntuples cs" using assms(2) by simp
    show ?thesis
    proof (cases "r + u < N")
      case True
      then have "(r + u) mod N = r + u" by simp
      then have "cs_qwritepos cs = int r + int u" unfolding w c md by simp
      then show ?thesis using pos False unfolding QUEUE_FREE_SPACE_def c by simp
    next
      case ge: False
      then have "(r + u) mod N = r + u - N" using lt uN by (simp add: le_mod_geq)
      then have "cs_qwritepos cs = int r + int u - int N" unfolding w c md using ge by simp
      then show ?thesis using pos uN unfolding QUEUE_FREE_SPACE_def c by simp
    qed
  qed
qed

lemma used_bytes_pos: "ts \<noteq> [] \<Longrightarrow> 0 < used_bytes ts"
  by (cases ts) (simp_all add: used_bytes_def)

lemma free_space_holds:
  assumes "ring_holds cs ts"
  shows "QUEUE_FREE_SPACE cs = cs_qlength cs - int (used_bytes ts)"
proof -
  have "0 < cs_ntuples cs \<longleftrightarrow> 0 < used_bytes ts"
    using assms used_bytes_pos [of ts] by (cases ts) (simp_all add: ring_holds_def used_bytes_def)
  with assms show ?thesis by (simp add: ring_holds_def free_space_rel)
qed

section \<open>The claims\<close>

text \<open>
  C3, as amended. \<^verbatim>\<open>QUEUE_FREE_SPACE\<close> is the queue length whenever \<open>cs_ntuples\<close> is not
  positive: when it is 0, and also when it is the mark \<open>LONG_TUPLE\<close>. When
  \<open>cs_ntuples\<close> is positive and both positions lie in the queue, it is the read position
  minus the write position modulo the queue length. When the queue holds the records of
  the data rows \<open>ts\<close>, it is the queue length minus the bytes of these records, each
  with the four bytes of its length.
\<close>

theorem C3_free_space:
  "(cs_ntuples cs \<le> 0 \<longrightarrow> QUEUE_FREE_SPACE cs = cs_qlength cs) \<and>
   (0 < cs_ntuples cs \<and> 0 \<le> cs_qreadpos cs \<and> cs_qreadpos cs < cs_qlength cs \<and>
      0 \<le> cs_qwritepos cs \<and> cs_qwritepos cs < cs_qlength cs \<longrightarrow>
    QUEUE_FREE_SPACE cs = (cs_qreadpos cs - cs_qwritepos cs) mod cs_qlength cs) \<and>
   (ring_holds cs ts \<longrightarrow> QUEUE_FREE_SPACE cs = cs_qlength cs - int (used_bytes ts))"
  using free_space_empty [of cs] free_space_mod [of cs] free_space_holds [of cs ts] by blast

lemmas write_defs = SharedQueueWrite_def SharedQueueWrite_row_def SharedQueueDump_def
  SharedQueueFinish_slot_def sq_push_long_tuple_def QUEUE_WRITE_def QUEUE_FREE_SPACE_def
  size_t_def memcpy_into_def memcpy_from_def int_bytes_def bytes_int_def LONG_TUPLE_def

lemmas read_defs = SharedQueueRead_locked_def SharedQueueRead_loop_def SharedQueueRead_row_def
  SharedQueueRead_store_def SharedQueueRead_wake_def sq_pull_long_tuple_def
  sq_pull_long_tuple_pass_def sq_pull_long_tuple_wake_def sq_pull_long_tuple_sleep_def
  QUEUE_READ_def

lemmas channel_defs = channel_run_def channel_settle_def fresh_channel_def fresh_slot_def

lemma long_tuple_state_eq:
  "long_tuple_state = \<lparr>cs_pid = 0, cs_node = - 1, cs_ntuples = - 42,
       cs_status = CONSUMER_ACTIVE, cs_qstart = [4, 0, 0, 0, 1, 2, 3, 4],
       cs_qlength = 8, cs_qreadpos = 0, cs_qwritepos = 0\<rparr>"
  unfolding long_tuple_state_def
  by (simp add: write_defs read_defs channel_defs Let_def)

lemma one_tuple_state_eq:
  "one_tuple_state = \<lparr>cs_pid = 0, cs_node = - 1, cs_ntuples = 1,
       cs_status = CONSUMER_ACTIVE, cs_qstart = [3, 0, 0, 0, 65, 66, 67, 0, 0, 0, 0, 0, 0, 0, 0, 0],
       cs_qlength = 16, cs_qreadpos = 0, cs_qwritepos = 7\<rparr>"
  unfolding one_tuple_state_def
  by (simp add: write_defs channel_defs Let_def)

lemma one_tuple_state_holds: "ring_holds one_tuple_state [[65, 66, 67]]"
  by (simp add: one_tuple_state_eq ring_holds_def ring_rel_def ring_ok_def used_bytes_def
      ring_view_def queue_bytes_def record_bytes_def int_bytes_def)

theorem C3_free_space_witness:
  "cs_ntuples long_tuple_state \<le> 0 \<and> QUEUE_FREE_SPACE long_tuple_state = 8 \<and>
   0 < cs_ntuples one_tuple_state \<and> ring_holds one_tuple_state [[65, 66, 67]] \<and>
   QUEUE_FREE_SPACE one_tuple_state = (0 - 7) mod 16 \<and>
   QUEUE_FREE_SPACE one_tuple_state = 16 - int (used_bytes [[65, 66, 67]])"
  using C3_free_space [of long_tuple_state "[]"] C3_free_space [of one_tuple_state "[[65, 66, 67]]"]
    one_tuple_state_holds
  by (simp add: long_tuple_state_eq one_tuple_state_eq)

text \<open>
  C3 as stated fails in long-tuple mode: after the consumer has read the first piece of a
  long data row, \<open>cs_ntuples\<close> is \<open>LONG_TUPLE\<close>, the two positions are equal, and the
  free space is the queue length, not 0.
\<close>

theorem C3_counterexample:
  "cs_ntuples long_tuple_state \<noteq> 0 \<and>
   QUEUE_FREE_SPACE long_tuple_state
     \<noteq> (cs_qreadpos long_tuple_state - cs_qwritepos long_tuple_state)
         mod cs_qlength long_tuple_state"
  by (simp add: long_tuple_state_eq QUEUE_FREE_SPACE_def)

subsection \<open>When \<^verbatim>\<open>SharedQueueRead\<close> returns true\<close>

lemma store_not_true: "SharedQueueRead_store i c msg \<noteq> (Returns True d, c', evs)"
  by (simp add: SharedQueueRead_store_def)

lemma pull_not_true: "sq_pull_long_tuple i c ps len \<noteq> (Returns True d, c', evs)"
  by (simp add: sq_pull_long_tuple_def store_not_true split: prod.splits bool.splits)

lemma pull_wake_not_true: "sq_pull_long_tuple_wake i c ps \<noteq> (Returns True d, c', evs)"
  by (auto simp add: sq_pull_long_tuple_wake_def Let_def pull_not_true split: prod.splits if_splits)

lemma row_not_true: "SharedQueueRead_row i c \<noteq> (Returns True d, c', evs)"
  by (auto simp add: SharedQueueRead_row_def Let_def pull_not_true store_not_true
      split: prod.splits if_splits)

lemma locked_eof:
  assumes "cs_ntuples c \<le> 0" "cs_status c = CONSUMER_EOF"
  shows "SharedQueueRead_locked i c canwait =
     (Returns True None, c\<lparr>cs_status := CONSUMER_DONE\<rparr>, SharedQueueRead_eof_events i)"
  using assms
  by (simp add: SharedQueueRead_locked_def SharedQueueRead_loop_def SharedQueueRead_eof_events_def)

lemma locked_true:
  assumes "SharedQueueRead_locked i c canwait = (Returns True d, c', evs)"
  shows "cs_ntuples c \<le> 0 \<and> cs_status c = CONSUMER_EOF \<and> d = None \<and>
         c' = c\<lparr>cs_status := CONSUMER_DONE\<rparr> \<and> evs = SharedQueueRead_eof_events i"
  using assms
  by (auto simp add: SharedQueueRead_locked_def SharedQueueRead_loop_def row_not_true
      SharedQueueRead_eof_events_def split: prod.splits if_splits)

lemma wake_true:
  assumes "SharedQueueRead_wake i c canwait w = (Returns True d, c', evs)"
    "w = WaitsEmpty \<or> (\<exists>ps. w = WaitsLong ps)"
  shows "cs_ntuples c \<le> 0 \<and> cs_status c = CONSUMER_EOF \<and> d = None \<and>
         c' = c\<lparr>cs_status := CONSUMER_DONE\<rparr> \<and> evs = SharedQueueRead_eof_events i"
  using assms locked_true [of i c canwait d c' evs]
  by (auto simp add: SharedQueueRead_wake_def pull_wake_not_true)

lemma locked_waits:
  assumes "waits_on c"
  shows "SharedQueueRead_locked i c True = (WaitsEmpty, c, SharedQueueRead_wait_events i)"
  using assms
  by (simp add: waits_on_def SharedQueueRead_locked_def SharedQueueRead_loop_def
      SharedQueueRead_wait_events_def)

lemma locked_true_iff:
  "SharedQueueRead_locked i c canwait = (Returns True d, c', evs) \<longleftrightarrow>
     cs_ntuples c \<le> 0 \<and> cs_status c = CONSUMER_EOF \<and> d = None \<and>
     c' = c\<lparr>cs_status := CONSUMER_DONE\<rparr> \<and> evs = SharedQueueRead_eof_events i"
  using locked_true [of i c canwait d c' evs] locked_eof [of c i canwait] by auto

lemma run_waits:
  assumes "list_all waits_on (woken_states c fs)"
    "cs_ntuples (f (last (c # woken_states c fs))) \<le> 0"
    "cs_status (f (last (c # woken_states c fs))) = CONSUMER_EOF"
  shows "SharedQueueRead_run i True (WaitsEmpty, c, evs0) (fs @ f # others) =
     Some (Returns True None, (f (last (c # woken_states c fs)))\<lparr>cs_status := CONSUMER_DONE\<rparr>,
           evs0 @ concat (replicate (length fs) (SharedQueueRead_wait_events i))
           @ SharedQueueRead_eof_events i)"
  using assms
proof (induction fs arbitrary: c evs0)
  case Nil
  then show ?case by (simp add: SharedQueueRead_wake_def locked_eof)
next
  case (Cons g gs)
  have w: "waits_on (g c)" and rest: "list_all waits_on (woken_states (g c) gs)"
    using Cons.prems(1) by simp_all
  have l: "last (c # woken_states c (g # gs)) = last (g c # woken_states (g c) gs)" by simp
  have "SharedQueueRead_run i True (WaitsEmpty, c, evs0) ((g # gs) @ f # others)
      = SharedQueueRead_run i True (WaitsEmpty, g c, evs0 @ SharedQueueRead_wait_events i)
          (gs @ f # others)"
    by (simp add: SharedQueueRead_wake_def locked_waits [OF w])
  also have "\<dots> = Some (Returns True None,
      (f (last (g c # woken_states (g c) gs)))\<lparr>cs_status := CONSUMER_DONE\<rparr>,
      (evs0 @ SharedQueueRead_wait_events i)
      @ concat (replicate (length gs) (SharedQueueRead_wait_events i))
      @ SharedQueueRead_eof_events i)"
    by (rule Cons.IH [OF rest]) (use Cons.prems(2,3) l in simp_all)
  finally show ?case unfolding l by simp
qed

lemma read_waits:
  assumes "list_all waits_on (cstate # woken_states cstate fs)"
    "cs_ntuples (f (last (cstate # woken_states cstate fs))) \<le> 0"
    "cs_status (f (last (cstate # woken_states cstate fs))) = CONSUMER_EOF"
  shows "SharedQueueRead i cstate True (fs @ f # others) =
     Some (Returns True None,
           (f (last (cstate # woken_states cstate fs)))\<lparr>cs_status := CONSUMER_DONE\<rparr>,
           concat (replicate (Suc (length fs)) (SharedQueueRead_wait_events i))
           @ SharedQueueRead_eof_events i)"
proof -
  have w: "waits_on cstate" and rest: "list_all waits_on (woken_states cstate fs)"
    using assms(1) by simp_all
  note r = run_waits [where c = cstate and fs = fs and f = f and i = i
      and ?evs0.0 = "SharedQueueRead_wait_events i" and others = others]
  show ?thesis
    unfolding SharedQueueRead_def locked_waits [OF w] using r rest assms(2,3)
    by simp
qed

lemma found_true:
  assumes "SharedQueueRead_run i canwait step others = Some (Returns True d, c', evs')"
    "\<forall>d c evs. step = (Returns True d, c, evs) \<longrightarrow>
       cs_ntuples c0 \<le> 0 \<and> cs_status c0 = CONSUMER_EOF \<and> d = None \<and>
       c = c0\<lparr>cs_status := CONSUMER_DONE\<rparr> \<and> (\<exists>evs0. evs = evs0 @ SharedQueueRead_eof_events i)"
  shows "cs_ntuples (SharedQueueRead_found i canwait c0 step others) \<le> 0 \<and>
         cs_status (SharedQueueRead_found i canwait c0 step others) = CONSUMER_EOF \<and> d = None \<and>
         c' = (SharedQueueRead_found i canwait c0 step others)\<lparr>cs_status := CONSUMER_DONE\<rparr> \<and>
         (\<exists>evs0. evs' = evs0 @ SharedQueueRead_eof_events i)"
  using assms
proof (induction others arbitrary: step c0)
  case Nil
  obtain r cstate evs where s: "step = (r, cstate, evs)" by (cases step)
  show ?case using Nil unfolding s by (cases r) auto
next
  case (Cons f others)
  obtain r cstate evs where s: "step = (r, cstate, evs)" by (cases step)
  have woken: ?case if waiting: "r = WaitsEmpty \<or> (\<exists>ps. r = WaitsLong ps)"
  proof -
    obtain res c evs1 where w: "SharedQueueRead_wake i (f cstate) canwait r = (res, c, evs1)"
      by (cases "SharedQueueRead_wake i (f cstate) canwait r") auto
    have run: "SharedQueueRead_run i canwait (res, c, evs @ evs1) others =
        Some (Returns True d, c', evs')"
      using Cons.prems(1) waiting w unfolding s by auto
    have fnd: "SharedQueueRead_found i canwait c0 step (f # others)
        = SharedQueueRead_found i canwait (f cstate) (res, c, evs @ evs1) others"
      using waiting w unfolding s by auto
    have "\<forall>d ca evsa. (res, c, evs @ evs1) = (Returns True d, ca, evsa) \<longrightarrow>
       cs_ntuples (f cstate) \<le> 0 \<and> cs_status (f cstate) = CONSUMER_EOF \<and> d = None \<and>
       ca = (f cstate)\<lparr>cs_status := CONSUMER_DONE\<rparr> \<and>
       (\<exists>evs0. evsa = evs0 @ SharedQueueRead_eof_events i)"
      using wake_true [of i "f cstate" canwait r _ c evs1] w waiting by auto
    from Cons.IH [OF run this] show ?thesis unfolding fnd .
  qed
  show ?case
  proof (cases r)
    case (Returns b d0)
    then show ?thesis using Cons.prems unfolding s by auto
  next
    case (Raises e)
    then show ?thesis using Cons.prems unfolding s by simp
  next
    case WaitsEmpty
    then show ?thesis using woken by simp
  next
    case (WaitsLong ps)
    then show ?thesis using woken by simp
  qed
qed

lemma read_found:
  assumes "SharedQueueRead i cstate canwait others = Some (Returns True d, c', evs)"
  shows "cs_ntuples (SharedQueueRead_found i canwait cstate
           (SharedQueueRead_locked i cstate canwait) others) \<le> 0 \<and>
         cs_status (SharedQueueRead_found i canwait cstate
           (SharedQueueRead_locked i cstate canwait) others) = CONSUMER_EOF \<and> d = None \<and>
         c' = (SharedQueueRead_found i canwait cstate
           (SharedQueueRead_locked i cstate canwait) others)\<lparr>cs_status := CONSUMER_DONE\<rparr> \<and>
         (\<exists>evs0. evs = evs0 @ SharedQueueRead_eof_events i)"
proof (rule found_true)
  show "SharedQueueRead_run i canwait (SharedQueueRead_locked i cstate canwait) others
      = Some (Returns True d, c', evs)"
    using assms by (simp add: SharedQueueRead_def)
  show "\<forall>d c evs. SharedQueueRead_locked i cstate canwait = (Returns True d, c, evs) \<longrightarrow>
       cs_ntuples cstate \<le> 0 \<and> cs_status cstate = CONSUMER_EOF \<and> d = None \<and>
       c = cstate\<lparr>cs_status := CONSUMER_DONE\<rparr> \<and>
       (\<exists>evs0. evs = evs0 @ SharedQueueRead_eof_events i)"
    using locked_true [of i cstate canwait] by auto
qed

lemma found_waits:
  assumes "list_all waits_on (woken_states c fs)"
    "cs_ntuples (f (last (c # woken_states c fs))) \<le> 0"
    "cs_status (f (last (c # woken_states c fs))) = CONSUMER_EOF"
  shows "SharedQueueRead_found i True c0 (WaitsEmpty, c, evs0) (fs @ f # others)
           = f (last (c # woken_states c fs))"
  using assms
proof (induction fs arbitrary: c c0 evs0)
  case Nil
  then show ?case by (simp add: SharedQueueRead_wake_def locked_eof)
next
  case (Cons g gs)
  have w: "waits_on (g c)" and rest: "list_all waits_on (woken_states (g c) gs)"
    using Cons.prems(1) by simp_all
  have l: "last (c # woken_states c (g # gs)) = last (g c # woken_states (g c) gs)" by simp
  have "SharedQueueRead_found i True c0 (WaitsEmpty, c, evs0) ((g # gs) @ f # others)
      = SharedQueueRead_found i True (g c)
          (WaitsEmpty, g c, evs0 @ SharedQueueRead_wait_events i) (gs @ f # others)"
    by (simp add: SharedQueueRead_wake_def locked_waits [OF w])
  also have "\<dots> = f (last (g c # woken_states (g c) gs))"
    by (rule Cons.IH [OF rest]) (use Cons.prems(2,3) l in simp_all)
  finally show ?case unfolding l by simp
qed

lemma read_found_waits:
  assumes "list_all waits_on (cstate # woken_states cstate fs)"
    "cs_ntuples (f (last (cstate # woken_states cstate fs))) \<le> 0"
    "cs_status (f (last (cstate # woken_states cstate fs))) = CONSUMER_EOF"
  shows "SharedQueueRead_found i True cstate (SharedQueueRead_locked i cstate True)
           (fs @ f # others) = f (last (cstate # woken_states cstate fs))"
proof -
  have w: "waits_on cstate" and rest: "list_all waits_on (woken_states cstate fs)"
    using assms(1) by simp_all
  note r = found_waits [where c = cstate and fs = fs and f = f and i = i and ?c0.0 = cstate
      and ?evs0.0 = "SharedQueueRead_wait_events i" and others = others]
  show ?thesis
    unfolding locked_waits [OF w] using r rest assms(2,3) by simp
qed

text \<open>
  C7. A call of \<^verbatim>\<open>SharedQueueRead\<close> that finds \<open>cs_ntuples \<le> 0\<close> and the status
  \<open>CONSUMER_EOF\<close>, when it is entered or when it has taken the locks again after one or
  more waits on the empty queue, sets the status to \<open>CONSUMER_DONE\<close>, disowns the
  consumer's latch, releases the consumer's lock, clears the slot, sets the producer's
  latch, releases the producer's lock and returns true; these events leave no lock held.
  In the second case \<open>fs\<close> is what the other processes do during the waits that end with
  the queue still empty and the status neither \<open>CONSUMER_EOF\<close> nor \<open>CONSUMER_ERROR\<close>, and
  \<open>f\<close> what they do during the last wait. It is the only return of true: the piece of the
  function that runs from the taking of the locks returns true in this case only, the
  resumption of \<^verbatim>\<open>sq_pull_long_tuple\<close> never does, and a whole call that returns true has
  found, when it took the locks for the last time, the consumer state
  \<open>SharedQueueRead_found\<close> with \<open>cs_ntuples \<le> 0\<close> and status \<open>CONSUMER_EOF\<close>; it leaves
  this state with the status \<open>CONSUMER_DONE\<close>, the slot cleared, and these events last.
\<close>

theorem C7_read_eof:
  "(cs_ntuples cstate \<le> 0 \<and> cs_status cstate = CONSUMER_EOF \<longrightarrow>
      SharedQueueRead i cstate canwait others =
        Some (Returns True None, cstate\<lparr>cs_status := CONSUMER_DONE\<rparr>,
              SharedQueueRead_eof_events i) \<and>
      SharedQueueRead_wake i cstate canwait WaitsEmpty =
        (Returns True None, cstate\<lparr>cs_status := CONSUMER_DONE\<rparr>,
         SharedQueueRead_eof_events i)) \<and>
   (list_all waits_on (cstate # woken_states cstate fs) \<and>
    cs_ntuples (f (last (cstate # woken_states cstate fs))) \<le> 0 \<and>
    cs_status (f (last (cstate # woken_states cstate fs))) = CONSUMER_EOF \<longrightarrow>
      SharedQueueRead i cstate True (fs @ f # others) =
        Some (Returns True None,
              (f (last (cstate # woken_states cstate fs)))\<lparr>cs_status := CONSUMER_DONE\<rparr>,
              concat (replicate (Suc (length fs)) (SharedQueueRead_wait_events i))
              @ SharedQueueRead_eof_events i) \<and>
      SharedQueueRead_found i True cstate (SharedQueueRead_locked i cstate True)
        (fs @ f # others) = f (last (cstate # woken_states cstate fs))) \<and>
   locks_after [] (SharedQueueRead_eof_events i) = [] \<and>
   (SharedQueueRead_locked i cstate canwait = (Returns True d, c', evs) \<longleftrightarrow>
      cs_ntuples cstate \<le> 0 \<and> cs_status cstate = CONSUMER_EOF \<and> d = None \<and>
      c' = cstate\<lparr>cs_status := CONSUMER_DONE\<rparr> \<and> evs = SharedQueueRead_eof_events i) \<and>
   sq_pull_long_tuple_wake i cstate ps \<noteq> (Returns True d, c', evs) \<and>
   (SharedQueueRead i cstate canwait others = Some (Returns True d, c', evs) \<longrightarrow>
      cs_ntuples (SharedQueueRead_found i canwait cstate
        (SharedQueueRead_locked i cstate canwait) others) \<le> 0 \<and>
      cs_status (SharedQueueRead_found i canwait cstate
        (SharedQueueRead_locked i cstate canwait) others) = CONSUMER_EOF \<and>
      d = None \<and>
      c' = (SharedQueueRead_found i canwait cstate
        (SharedQueueRead_locked i cstate canwait) others)\<lparr>cs_status := CONSUMER_DONE\<rparr> \<and>
      (\<exists>evs0. evs = evs0 @ SharedQueueRead_eof_events i))"
proof (intro conjI impI)
  assume a: "cs_ntuples cstate \<le> 0 \<and> cs_status cstate = CONSUMER_EOF"
  then show "SharedQueueRead i cstate canwait others =
        Some (Returns True None, cstate\<lparr>cs_status := CONSUMER_DONE\<rparr>,
              SharedQueueRead_eof_events i)"
    by (simp add: SharedQueueRead_def locked_eof)
  from a show "SharedQueueRead_wake i cstate canwait WaitsEmpty =
        (Returns True None, cstate\<lparr>cs_status := CONSUMER_DONE\<rparr>,
         SharedQueueRead_eof_events i)"
    by (simp add: SharedQueueRead_wake_def locked_eof)
next
  assume h: "list_all waits_on (cstate # woken_states cstate fs) \<and>
    cs_ntuples (f (last (cstate # woken_states cstate fs))) \<le> 0 \<and>
    cs_status (f (last (cstate # woken_states cstate fs))) = CONSUMER_EOF"
  then show "SharedQueueRead i cstate True (fs @ f # others) =
        Some (Returns True None,
              (f (last (cstate # woken_states cstate fs)))\<lparr>cs_status := CONSUMER_DONE\<rparr>,
              concat (replicate (Suc (length fs)) (SharedQueueRead_wait_events i))
              @ SharedQueueRead_eof_events i)"
    using read_waits [of cstate fs f i others] by blast
  from h show "SharedQueueRead_found i True cstate (SharedQueueRead_locked i cstate True)
        (fs @ f # others) = f (last (cstate # woken_states cstate fs))"
    using read_found_waits [of cstate fs f i others] by blast
next
  show "locks_after [] (SharedQueueRead_eof_events i) = []"
    by (simp add: SharedQueueRead_eof_events_def)
next
  show "SharedQueueRead_locked i cstate canwait = (Returns True d, c', evs) \<longleftrightarrow>
      cs_ntuples cstate \<le> 0 \<and> cs_status cstate = CONSUMER_EOF \<and> d = None \<and>
      c' = cstate\<lparr>cs_status := CONSUMER_DONE\<rparr> \<and> evs = SharedQueueRead_eof_events i"
    by (rule locked_true_iff)
next
  show "sq_pull_long_tuple_wake i cstate ps \<noteq> (Returns True d, c', evs)"
    by (rule pull_wake_not_true)
next
  assume r: "SharedQueueRead i cstate canwait others = Some (Returns True d, c', evs)"
  note f = read_found [OF r]
  from f show "cs_ntuples (SharedQueueRead_found i canwait cstate
        (SharedQueueRead_locked i cstate canwait) others) \<le> 0" by blast
  from f show "cs_status (SharedQueueRead_found i canwait cstate
        (SharedQueueRead_locked i cstate canwait) others) = CONSUMER_EOF" by blast
  from f show "d = None" by blast
  from f show "c' = (SharedQueueRead_found i canwait cstate
        (SharedQueueRead_locked i cstate canwait) others)\<lparr>cs_status := CONSUMER_DONE\<rparr>" by blast
  from f show "\<exists>evs0. evs = evs0 @ SharedQueueRead_eof_events i" by blast
qed

theorem C7_read_eof_witness:
  "cs_ntuples eof_slot \<le> 0 \<and> cs_status eof_slot = CONSUMER_EOF \<and>
   SharedQueueRead 0 eof_slot True [] =
     Some (Returns True None, eof_slot\<lparr>cs_status := CONSUMER_DONE\<rparr>,
           SharedQueueRead_eof_events 0) \<and>
   SharedQueueRead_found 0 True eof_slot (SharedQueueRead_locked 0 eof_slot True) [] = eof_slot \<and>
   SharedQueueRead 0 (fresh_slot [0, 0, 0, 0, 0, 0, 0, 0]) True
       [\<lambda>c. c, \<lambda>c. c\<lparr>cs_status := CONSUMER_EOF\<rparr>] =
     Some (Returns True None, (fresh_slot [0, 0, 0, 0, 0, 0, 0, 0])\<lparr>cs_status := CONSUMER_DONE\<rparr>,
           SharedQueueRead_wait_events 0 @ SharedQueueRead_wait_events 0
           @ SharedQueueRead_eof_events 0) \<and>
   SharedQueueRead_found 0 True (fresh_slot [0, 0, 0, 0, 0, 0, 0, 0])
       (SharedQueueRead_locked 0 (fresh_slot [0, 0, 0, 0, 0, 0, 0, 0]) True)
       [\<lambda>c. c, \<lambda>c. c\<lparr>cs_status := CONSUMER_EOF\<rparr>]
     = eof_slot"
proof -
  define z where "z = fresh_slot [0, 0, 0, 0, 0, 0, 0, 0]"
  define f where "f = (\<lambda>c :: ConsState. c\<lparr>cs_status := CONSUMER_EOF\<rparr>)"
  have h: "cs_ntuples eof_slot \<le> 0 \<and> cs_status eof_slot = CONSUMER_EOF"
    by (simp add: eof_slot_def fresh_slot_def)
  note t = C7_read_eof [where cstate = eof_slot and i = 0 and canwait = True and others = "[]"]
  from t h have r: "SharedQueueRead 0 eof_slot True [] =
     Some (Returns True None, eof_slot\<lparr>cs_status := CONSUMER_DONE\<rparr>,
           SharedQueueRead_eof_events 0)" by blast
  have r0: "SharedQueueRead_found 0 True eof_slot (SharedQueueRead_locked 0 eof_slot True) [] = eof_slot"
    using h by (simp add: locked_eof)
  have w: "list_all waits_on (z # woken_states z [\<lambda>c. c]) \<and>
    cs_ntuples (f (last (z # woken_states z [\<lambda>c. c]))) \<le> 0 \<and>
    cs_status (f (last (z # woken_states z [\<lambda>c. c]))) = CONSUMER_EOF"
    by (simp add: waits_on_def z_def f_def fresh_slot_def)
  note u = C7_read_eof [where cstate = z and i = 0 and fs = "[\<lambda>c. c]" and f = f and others = "[]"]
  from u w have a: "SharedQueueRead 0 z True ([\<lambda>c. c] @ f # []) =
        Some (Returns True None,
              (f (last (z # woken_states z [\<lambda>c. c])))\<lparr>cs_status := CONSUMER_DONE\<rparr>,
              concat (replicate (Suc (length [\<lambda>c :: ConsState. c])) (SharedQueueRead_wait_events 0))
              @ SharedQueueRead_eof_events 0)"
    and b: "SharedQueueRead_found 0 True z (SharedQueueRead_locked 0 z True)
        ([\<lambda>c. c] @ f # []) = f (last (z # woken_states z [\<lambda>c. c]))"
    by blast+
  have e: "f (last (z # woken_states z [\<lambda>c. c])) = eof_slot"
    "(f (last (z # woken_states z [\<lambda>c. c])))\<lparr>cs_status := CONSUMER_DONE\<rparr>
       = z\<lparr>cs_status := CONSUMER_DONE\<rparr>"
    by (simp_all add: f_def z_def eof_slot_def)
  have a': "SharedQueueRead 0 z True [\<lambda>c. c, f] =
     Some (Returns True None, z\<lparr>cs_status := CONSUMER_DONE\<rparr>,
           SharedQueueRead_wait_events 0 @ SharedQueueRead_wait_events 0
           @ SharedQueueRead_eof_events 0)"
    using a unfolding e(2) by simp
  have b': "SharedQueueRead_found 0 True z (SharedQueueRead_locked 0 z True) [\<lambda>c. c, f] = eof_slot"
    using b unfolding e(1) by simp
  from h r r0 a' b' show ?thesis unfolding z_def f_def by (intro conjI) blast+
qed

subsection \<open>\<^verbatim>\<open>SharedQueueDisconnectConsumer\<close> before the producer has bound\<close>

lemmas example_defs = example_params_def empty_shmem_def hash_find_def hash_store_def
  hash_remove_def consumers_def for_consumers_def SharedQueueAcquire_qsize_def
  SQUEUE_HDR_SIZE_def size_t_def c_int_def

lemma acquired_shmem_eq:
  "acquired_shmem =
     \<lparr>SharedQueues =
        [\<lparr>sq_key = ''q1'', sq_pid = 0, sq_nodeid = - 1, sq_sync = Some 0, sq_refcnt = 1,
          sq_nconsumers = 1,
          sq_consumers =
            [\<lparr>cs_pid = 0, cs_node = - 1, cs_ntuples = 0, cs_status = CONSUMER_ACTIVE,
              cs_qstart = [0, 0, 0, 0, 0, 0, 0, 0, 0, 0, 0, 0, 0, 0, 0, 0], cs_qlength = 16,
              cs_qreadpos = 0, cs_qwritepos = 0\<rparr>]\<rparr>],
      SQueueSyncs = [Some ''q1'', None]\<rparr>"
  by (simp add: acquired_shmem_def SharedQueueAcquire_def SharedQueueAcquire_format_def
      example_defs Let_def numeral_eq_Suc)

text \<open>
  C10. When the entry named \<open>sqname\<close> exists and its \<^verbatim>\<open>sq_pid\<close> is 0,
  \<^verbatim>\<open>SharedQueueDisconnectConsumer\<close> leaves the whole shared memory as it is: it takes
  \<^verbatim>\<open>SQueuesLock\<close> and releases it, and does nothing else. A call for a name that is not
  in the table does the same.
\<close>

theorem C10_disconnect_unbound:
  assumes "hash_find shm sqname = Some squeue" "sq_pid squeue = 0"
  shows "SharedQueueDisconnectConsumer (Some shm) sqname node =
           (Some shm, [LWLockAcquire SQueuesLock LW_EXCLUSIVE, LWLockRelease SQueuesLock]) \<and>
         (hash_find shm0 sqname = None \<longrightarrow>
            SharedQueueDisconnectConsumer (Some shm0) sqname node =
              (Some shm0, snd (SharedQueueDisconnectConsumer (Some shm) sqname node)))"
  using assms by (simp add: SharedQueueDisconnectConsumer_def)

theorem C10_disconnect_unbound_witness:
  "hash_find acquired_shmem ''q1'' \<noteq> None \<and>
   sq_pid (the (hash_find acquired_shmem ''q1'')) = 0 \<and>
   SharedQueueDisconnectConsumer (Some acquired_shmem) ''q1'' 7 =
     (Some acquired_shmem, [LWLockAcquire SQueuesLock LW_EXCLUSIVE, LWLockRelease SQueuesLock]) \<and>
   hash_find empty_shmem ''q1'' = None \<and>
   SharedQueueDisconnectConsumer (Some empty_shmem) ''q1'' 7 =
     (Some empty_shmem, [LWLockAcquire SQueuesLock LW_EXCLUSIVE, LWLockRelease SQueuesLock])"
proof -
  have f: "hash_find acquired_shmem ''q1'' = Some (hd (SharedQueues acquired_shmem))"
    and p: "sq_pid (hd (SharedQueues acquired_shmem)) = 0"
    and e: "hash_find empty_shmem ''q1'' = None"
    by (simp_all add: acquired_shmem_eq example_defs)
  from C10_disconnect_unbound [OF f p, of 7 empty_shmem] f p e show ?thesis by simp
qed

subsection \<open>\<^verbatim>\<open>SharedQueueCanPause\<close>\<close>

lemma loop_stopped: "SharedQueueCanPause_loop cs False u n = (False, u, n)"
  by (cases cs) simp_all

lemma loop_all:
  "list_all (\<lambda>c. 0 < cs_ntuples c) (filter (\<lambda>c. cs_status c = CONSUMER_ACTIVE) cs) \<Longrightarrow>
   SharedQueueCanPause_loop cs True u n =
     (True, u + sum_list (map ring_occupancy (filter (\<lambda>c. cs_status c = CONSUMER_ACTIVE) cs)),
      n + int (length (filter (\<lambda>c. cs_status c = CONSUMER_ACTIVE) cs)))"
proof (induction cs arbitrary: u n)
  case Nil
  then show ?case by simp
next
  case (Cons c cs)
  show ?case
  proof (cases "cs_status c = CONSUMER_ACTIVE")
    case True
    with Cons.prems have pos: "0 < cs_ntuples c"
      and rest: "list_all (\<lambda>c. 0 < cs_ntuples c) (filter (\<lambda>c. cs_status c = CONSUMER_ACTIVE) cs)"
      by simp_all
    have occ: "ring_occupancy c =
        (if cs_qwritepos c > cs_qreadpos c then cs_qwritepos c - cs_qreadpos c
         else cs_qlength c + cs_qwritepos c - cs_qreadpos c)"
      using pos by (simp add: ring_occupancy_def QUEUE_FREE_SPACE_def)
    show ?thesis
      using True pos Cons.IH [OF rest] by (simp add: occ [symmetric] add.assoc)
  next
    case False
    with Cons show ?thesis by simp
  qed
qed

lemma loop_some_empty:
  "\<not> list_all (\<lambda>c. 0 < cs_ntuples c) (filter (\<lambda>c. cs_status c = CONSUMER_ACTIVE) cs) \<Longrightarrow>
   fst (SharedQueueCanPause_loop cs True u n) = False"
proof (induction cs arbitrary: u n)
  case Nil
  then show ?case by simp
next
  case (Cons c cs)
  show ?case
  proof (cases "cs_status c = CONSUMER_ACTIVE \<and> \<not> 0 < cs_ntuples c")
    case True
    then show ?thesis by (simp add: loop_stopped)
  next
    case False
    with Cons.prems
    have "\<not> list_all (\<lambda>c. 0 < cs_ntuples c) (filter (\<lambda>c. cs_status c = CONSUMER_ACTIVE) cs)"
      by (auto split: if_splits)
    from Cons.IH [OF this] False show ?thesis by auto
  qed
qed

lemma pause_example_eq:
  "pause_example =
     \<lparr>sq_key = ''q1'', sq_pid = 100, sq_nodeid = 1, sq_sync = Some 0, sq_refcnt = 2,
      sq_nconsumers = 2,
      sq_consumers =
        [\<lparr>cs_pid = 0, cs_node = - 1, cs_ntuples = 1, cs_status = CONSUMER_ACTIVE,
          cs_qstart = [4, 0, 0, 0, 1, 2, 3, 4, 0, 0, 0, 0, 0, 0, 0, 0], cs_qlength = 16,
          cs_qreadpos = 0, cs_qwritepos = 8\<rparr>,
         \<lparr>cs_pid = 0, cs_node = - 1, cs_ntuples = 1, cs_status = CONSUMER_ACTIVE,
          cs_qstart = [5, 0, 0, 0, 1, 2, 3, 4, 5, 0, 0, 0, 0, 0, 0, 0], cs_qlength = 16,
          cs_qreadpos = 0, cs_qwritepos = 9\<rparr>]\<rparr>"
  unfolding pause_example_def by (simp add: write_defs channel_defs Let_def)

text \<open>
  C8, as amended. \<^verbatim>\<open>SharedQueueCanPause\<close> returns true if and only if every active
  consumer has \<open>cs_ntuples > 0\<close>, some consumer is active, and the bytes in use in the
  queues of the active consumers, divided by their number as C divides integers (the
  quotient truncated), exceed the length of the first consumer's queue divided by 2 in
  the same way.
\<close>

theorem C8_can_pause:
  "SharedQueueCanPause squeue \<longleftrightarrow>
     list_all (\<lambda>cstate. 0 < cs_ntuples cstate) (active_consumers squeue) \<and>
     active_consumers squeue \<noteq> [] \<and>
     c_div (sum_list (map ring_occupancy (active_consumers squeue)))
           (int (length (active_consumers squeue)))
       > c_div (cs_qlength (sq_consumers squeue ! 0)) 2"
proof (cases "list_all (\<lambda>cstate. 0 < cs_ntuples cstate) (active_consumers squeue)")
  case True
  then show ?thesis
    using loop_all [of "consumers squeue" 0 0]
    by (auto simp add: SharedQueueCanPause_def active_consumers_def)
next
  case False
  then have "fst (SharedQueueCanPause_loop (consumers squeue) True 0 0) = False"
    using loop_some_empty [of "consumers squeue" 0 0] by (simp add: active_consumers_def)
  with False show ?thesis
    by (auto simp add: SharedQueueCanPause_def split: prod.splits)
qed

theorem C8_can_pause_witness:
  "SharedQueueCanPause pause_example_one \<and>
   sum_list (map ring_occupancy (active_consumers pause_example_one)) = 9 \<and>
   length (active_consumers pause_example_one) = 1 \<and>
   cs_qlength (sq_consumers pause_example_one ! 0) = 16"
  using C8_can_pause [of pause_example_one]
  by (simp add: pause_example_one_def pause_example_eq active_consumers_def consumers_def
      ring_occupancy_def QUEUE_FREE_SPACE_def c_div_def)

text \<open>
  C8 as stated fails where the truncation matters. With 8 and 9 bytes in use in two
  queues of 16 bytes, every active consumer has a tuple and the average of the bytes in
  use, 8.5, exceeds half the queue length, 8; the function computes 17 / 2 = 8 and
  returns false.
\<close>

theorem C8_counterexample:
  "list_all (\<lambda>cstate. 0 < cs_ntuples cstate) (active_consumers pause_example) \<and>
   active_consumers pause_example \<noteq> [] \<and>
   real_of_int (sum_list (map ring_occupancy (active_consumers pause_example)))
       / real (length (active_consumers pause_example))
     > real_of_int (cs_qlength (sq_consumers pause_example ! 0)) / 2 \<and>
   \<not> SharedQueueCanPause pause_example"
  by (simp add: pause_example_eq active_consumers_def consumers_def ring_occupancy_def
      QUEUE_FREE_SPACE_def SharedQueueCanPause_def c_div_def)

subsection \<open>\<^verbatim>\<open>SharedQueueWrite\<close> to a consumer that is not active\<close>

lemma done_slot_eq:
  "done_slot = \<lparr>cs_pid = 0, cs_node = - 1, cs_ntuples = 1, cs_status = CONSUMER_DONE,
       cs_qstart = [8, 0, 0, 0, 1, 2, 3, 4, 5, 6, 7, 8, 0, 0, 0, 0], cs_qlength = 16,
       cs_qreadpos = 0, cs_qwritepos = 12\<rparr>"
  unfolding done_slot_def
  by (simp add: write_defs channel_defs SharedQueueReset_consumer_def Let_def)

text \<open>
  C5, as amended. A call of \<^verbatim>\<open>SharedQueueWrite\<close> for a consumer whose status is not
  \<open>CONSUMER_ACTIVE\<close> raises no error (the function has no error exit) and leaves the
  consumer state, and so the queue, as it is. The data row is dropped at once only when
  the queue has room for it, the store being absent or the queue more than half free (in
  which case the store is emptied as well). When the store exists and the queue is not
  more than half free, or when the queue has less free space than the data row needs, the
  data row is appended to the store, which is created if need be. What the store holds is
  never delivered to such a consumer: \<^verbatim>\<open>SharedQueueDump\<close> empties the store and
  \<^verbatim>\<open>SharedQueueFinish\<close> destroys it, and both leave the queue as it is.
\<close>

theorem C5_write_inactive:
  assumes "cs_status cstate \<noteq> CONSUMER_ACTIVE"
  shows "fst (SharedQueueWrite cstate datarow tuplestore) = cstate \<and>
         snd (SharedQueueWrite cstate datarow tuplestore) =
           (if tuplestore \<noteq> None \<and> \<not> QUEUE_FREE_SPACE cstate > cs_qlength cstate div 2
            then Some (the tuplestore @ [datarow])
            else if size_t (QUEUE_FREE_SPACE cstate) < 4 + int (length datarow)
            then Some [datarow]
            else map_option (\<lambda>st. []) tuplestore) \<and>
         SharedQueueDump cstate st = (True, cstate, []) \<and>
         SharedQueueFinish_slot cstate (Some st) = (cstate, None, 0)"
  using assms
  by (cases tuplestore)
    (simp_all add: SharedQueueWrite_def SharedQueueWrite_row_def SharedQueueDump_def
      SharedQueueFinish_slot_def)

theorem C5_write_inactive_witness:
  "cs_status eof_slot \<noteq> CONSUMER_ACTIVE \<and>
   SharedQueueWrite eof_slot [1, 2] None = (eof_slot, None) \<and>
   SharedQueueWrite eof_slot [1, 2] (Some [[3]]) = (eof_slot, Some [])"
proof -
  have h: "cs_status eof_slot \<noteq> CONSUMER_ACTIVE"
    by (simp add: eof_slot_def)
  have f: "QUEUE_FREE_SPACE eof_slot = 8" "cs_qlength eof_slot = 8"
    by (simp_all add: eof_slot_def fresh_slot_def QUEUE_FREE_SPACE_def)
  from C5_write_inactive [OF h, of "[1, 2]" None] C5_write_inactive [OF h, of "[1, 2]" "Some [[3]]"] h
  show ?thesis by (simp add: f size_t_def prod_eq_iff)
qed

text \<open>
  C5 as stated fails when the queue lacks room: the consumer \<open>done_slot\<close> is done and
  has 4 bytes free; a data row of 2 bytes, which needs 6, is appended to a store created
  for it.
\<close>

theorem C5_counterexample:
  "cs_status done_slot = CONSUMER_DONE \<and>
   SharedQueueWrite done_slot [9, 9] None = (done_slot, Some [[9, 9]])"
  by (simp add: done_slot_eq SharedQueueWrite_def SharedQueueWrite_row_def QUEUE_FREE_SPACE_def
      size_t_def)

subsection \<open>\<^verbatim>\<open>SharedQueueAcquire\<close> and an entry left by an earlier execution\<close>

declare SharedQueueAcquire_try.simps [simp del]

lemma bound_shmem_eq:
  "bound_shmem =
     \<lparr>SharedQueues =
        [\<lparr>sq_key = ''q1'', sq_pid = 100, sq_nodeid = 1, sq_sync = Some 0, sq_refcnt = 2,
          sq_nconsumers = 1,
          sq_consumers =
            [\<lparr>cs_pid = 0, cs_node = 7, cs_ntuples = 0, cs_status = CONSUMER_ACTIVE,
              cs_qstart = [0, 0, 0, 0, 0, 0, 0, 0, 0, 0, 0, 0, 0, 0, 0, 0], cs_qlength = 16,
              cs_qreadpos = 0, cs_qwritepos = 0\<rparr>]\<rparr>],
      SQueueSyncs = [Some ''q1'', None]\<rparr>"
  by (simp add: bound_shmem_def acquired_shmem_eq SharedQueueBind_def example_defs)

lemma stale_shmem_eq:
  "stale_shmem =
     \<lparr>SharedQueues =
        [\<lparr>sq_key = ''q1'', sq_pid = 100, sq_nodeid = 1, sq_sync = Some 0, sq_refcnt = 2,
          sq_nconsumers = 1,
          sq_consumers =
            [\<lparr>cs_pid = 0, cs_node = 7, cs_ntuples = 0, cs_status = CONSUMER_DONE,
              cs_qstart = [0, 0, 0, 0, 0, 0, 0, 0, 0, 0, 0, 0, 0, 0, 0, 0], cs_qlength = 16,
              cs_qreadpos = 0, cs_qwritepos = 0\<rparr>]\<rparr>],
      SQueueSyncs = [Some ''q1'', None]\<rparr>"
  by (simp add: stale_shmem_def bound_shmem_eq SharedQueueDisconnectConsumer_def
      SharedQueueDisconnectConsumer_slot_def example_defs)

lemma try_stale_retry:
  assumes "stale_entry shm sqname node" "trycount + 1 < 10"
  shows "SharedQueueAcquire_try P sqname ncons node others trycount shm =
     (case SharedQueueAcquire_try P sqname ncons node others (trycount + 1) (others trycount shm) of
        (res, shm1, evs1) \<Rightarrow>
          (res, shm1,
           [LWLockAcquire SQueuesLock LW_EXCLUSIVE]
           @ snd (SharedQueueAcquire_old (the (hash_find shm sqname)) node)
           @ [LWLockRelease SQueuesLock, pg_usleep 1000000] @ evs1))"
  using assms
  by (subst SharedQueueAcquire_try.simps)
    (auto simp add: stale_entry_def Let_def split: option.splits)

lemma try_stale_fail:
  assumes "stale_entry shm sqname node" "trycount + 1 \<ge> 10"
  shows "SharedQueueAcquire_try P sqname ncons node others trycount shm =
     (Some (race_condition_not_resolved (trycount + 1)), others trycount shm,
      [LWLockAcquire SQueuesLock LW_EXCLUSIVE]
      @ snd (SharedQueueAcquire_old (the (hash_find shm sqname)) node)
      @ [LWLockRelease SQueuesLock, pg_usleep 1000000])"
  using assms
  by (subst SharedQueueAcquire_try.simps)
    (auto simp add: stale_entry_def Let_def split: option.splits)

lemma try_fresh:
  assumes "hash_find shm sqname = Some sq" "\<not> stale_entry shm sqname node"
  shows "SharedQueueAcquire_try P sqname ncons node others trycount shm =
     (None, hash_store shm (sq\<lparr>sq_refcnt := sq_refcnt sq + 1\<rparr>),
      [LWLockAcquire SQueuesLock LW_EXCLUSIVE]
      @ (if sq_pid sq \<noteq> 0 then snd (SharedQueueAcquire_old sq node) else [])
      @ [LWLockRelease SQueuesLock])"
  using assms
  by (subst SharedQueueAcquire_try.simps)
    (auto simp add: stale_entry_def Let_def split: option.splits)

lemma sleeps_old [simp]: "sleeps (snd (SharedQueueAcquire_old sq node)) = 0"
  by (simp add: SharedQueueAcquire_old_def sleeps_def split: option.splits)

lemma sleeps_append [simp]: "sleeps (xs @ ys) = sleeps xs + sleeps ys"
  by (simp add: sleeps_def)

lemma sleeps_Cons [simp]: "sleeps (e # xs) = (if e = pg_usleep 1000000 then 1 else 0) + sleeps xs"
  by (simp add: sleeps_def)

lemma sleeps_Nil [simp]: "sleeps [] = 0"
  by (simp add: sleeps_def)

lemma try_stays_stale:
  assumes inv: "\<And>k s. stale_entry s sqname node \<Longrightarrow> stale_entry (others k s) sqname node"
  shows "stale_entry shm sqname node \<Longrightarrow> 0 \<le> trycount \<Longrightarrow> trycount \<le> 9 \<Longrightarrow>
    n = nat (9 - trycount) \<Longrightarrow>
    fst (SharedQueueAcquire_try P sqname ncons node others trycount shm)
      = Some (race_condition_not_resolved 10) \<and>
    sleeps (snd (snd (SharedQueueAcquire_try P sqname ncons node others trycount shm)))
      = nat (10 - trycount)"
proof (induction n arbitrary: trycount shm)
  case 0
  then have "trycount = 9" by simp
  with 0 show ?case by (simp add: try_stale_fail)
next
  case (Suc n)
  then have lt: "trycount + 1 < 10" by simp
  have st: "stale_entry (others trycount shm) sqname node"
    using Suc.prems(1) by (rule inv)
  have "n = nat (9 - (trycount + 1))" using Suc.prems by simp
  from Suc.IH [OF st _ _ this] Suc.prems
  have ih: "fst (SharedQueueAcquire_try P sqname ncons node others (trycount + 1) (others trycount shm))
      = Some (race_condition_not_resolved 10)"
    "sleeps (snd (snd (SharedQueueAcquire_try P sqname ncons node others (trycount + 1) (others trycount shm))))
      = nat (10 - (trycount + 1))"
    by simp_all
  show ?case
    using ih Suc.prems lt
    by (auto simp add: try_stale_retry [OF Suc.prems(1) lt] split: prod.splits)
qed

lemma try_sleeps_le:
  "0 \<le> trycount \<Longrightarrow> trycount \<le> 9 \<Longrightarrow> n = nat (9 - trycount) \<Longrightarrow>
    sleeps (snd (snd (SharedQueueAcquire_try P sqname ncons node others trycount shm)))
      \<le> nat (10 - trycount)"
proof (induction n arbitrary: trycount shm)
  case 0
  then have t: "trycount = 9" by simp
  show ?case
  proof (cases "stale_entry shm sqname node")
    case True
    then show ?thesis using t by (simp add: try_stale_fail)
  next
    case False
    then show ?thesis
      by (subst SharedQueueAcquire_try.simps)
        (auto simp add: stale_entry_def Let_def split: option.splits)
  qed
next
  case (Suc n)
  then have lt: "trycount + 1 < 10" by simp
  show ?case
  proof (cases "stale_entry shm sqname node")
    case True
    have "n = nat (9 - (trycount + 1))" using Suc.prems by simp
    from Suc.IH [OF _ _ this, of "others trycount shm"] Suc.prems
    have "sleeps (snd (snd (SharedQueueAcquire_try P sqname ncons node others (trycount + 1) (others trycount shm))))
      \<le> nat (10 - (trycount + 1))" by simp
    then show ?thesis using Suc.prems lt
      by (auto simp add: try_stale_retry [OF True lt] split: prod.splits)
  next
    case False
    then show ?thesis
      by (subst SharedQueueAcquire_try.simps)
        (auto simp add: stale_entry_def Let_def split: option.splits)
  qed
qed

text \<open>
  C6, as amended. When \<^verbatim>\<open>SharedQueueAcquire\<close> finds an entry with a producer bound in
  which the first consumer state of the caller's node is \<open>CONSUMER_DONE\<close>, or in which
  no consumer state is of the caller's node, it releases \<^verbatim>\<open>SQueuesLock\<close>, sleeps one
  second (\<^verbatim>\<open>pg_usleep(1000000L)\<close>) and tries again, up to the tenth such finding, at which
  it raises an error after the sleep. So a call sleeps at most ten times, and it fails
  after ten sleeps when the entry stays as it is. When the first consumer state of the
  caller's node is not \<open>CONSUMER_DONE\<close>, or no producer is bound, the call does not
  sleep: it adds one to \<^verbatim>\<open>sq_refcnt\<close>, releases the lock and returns.
\<close>

theorem C6_acquire_stale:
  "(stale_entry shm sqname node \<and> trycount + 1 < 10 \<longrightarrow>
      SharedQueueAcquire_try P sqname ncons node others trycount shm =
        (case SharedQueueAcquire_try P sqname ncons node others (trycount + 1)
                (others trycount shm) of
           (res, shm1, evs1) \<Rightarrow>
             (res, shm1,
              [LWLockAcquire SQueuesLock LW_EXCLUSIVE]
              @ snd (SharedQueueAcquire_old (the (hash_find shm sqname)) node)
              @ [LWLockRelease SQueuesLock, pg_usleep 1000000] @ evs1))) \<and>
   (stale_entry shm sqname node \<and> trycount + 1 \<ge> 10 \<longrightarrow>
      SharedQueueAcquire_try P sqname ncons node others trycount shm =
        (Some (race_condition_not_resolved (trycount + 1)), others trycount shm,
         [LWLockAcquire SQueuesLock LW_EXCLUSIVE]
         @ snd (SharedQueueAcquire_old (the (hash_find shm sqname)) node)
         @ [LWLockRelease SQueuesLock, pg_usleep 1000000])) \<and>
   ((\<forall>k s. stale_entry s sqname node \<longrightarrow> stale_entry (others k s) sqname node) \<and>
      stale_entry shm sqname node \<longrightarrow>
      fst (SharedQueueAcquire P sqname ncons node others shm)
        = Some (race_condition_not_resolved 10) \<and>
      sleeps (snd (snd (SharedQueueAcquire P sqname ncons node others shm))) = 10) \<and>
   sleeps (snd (snd (SharedQueueAcquire P sqname ncons node others shm))) \<le> 10 \<and>
   (hash_find shm sqname = Some sq \<and> \<not> stale_entry shm sqname node \<longrightarrow>
      SharedQueueAcquire_try P sqname ncons node others trycount shm =
        (None, hash_store shm (sq\<lparr>sq_refcnt := sq_refcnt sq + 1\<rparr>),
         [LWLockAcquire SQueuesLock LW_EXCLUSIVE]
         @ (if sq_pid sq \<noteq> 0 then snd (SharedQueueAcquire_old sq node) else [])
         @ [LWLockRelease SQueuesLock]))"
proof (intro conjI impI)
  assume "stale_entry shm sqname node \<and> trycount + 1 < 10"
  then show "SharedQueueAcquire_try P sqname ncons node others trycount shm =
        (case SharedQueueAcquire_try P sqname ncons node others (trycount + 1)
                (others trycount shm) of
           (res, shm1, evs1) \<Rightarrow>
             (res, shm1,
              [LWLockAcquire SQueuesLock LW_EXCLUSIVE]
              @ snd (SharedQueueAcquire_old (the (hash_find shm sqname)) node)
              @ [LWLockRelease SQueuesLock, pg_usleep 1000000] @ evs1))"
    by (simp add: try_stale_retry)
next
  assume "stale_entry shm sqname node \<and> trycount + 1 \<ge> 10"
  then show "SharedQueueAcquire_try P sqname ncons node others trycount shm =
        (Some (race_condition_not_resolved (trycount + 1)), others trycount shm,
         [LWLockAcquire SQueuesLock LW_EXCLUSIVE]
         @ snd (SharedQueueAcquire_old (the (hash_find shm sqname)) node)
         @ [LWLockRelease SQueuesLock, pg_usleep 1000000])"
    by (simp add: try_stale_fail)
next
  assume a: "(\<forall>k s. stale_entry s sqname node \<longrightarrow> stale_entry (others k s) sqname node) \<and>
      stale_entry shm sqname node"
  then have inv: "\<And>k s. stale_entry s sqname node \<Longrightarrow> stale_entry (others k s) sqname node"
    by blast
  from try_stays_stale [of sqname node others shm 0 9 P ncons, OF inv] a
  show "fst (SharedQueueAcquire P sqname ncons node others shm)
        = Some (race_condition_not_resolved 10)"
    and "sleeps (snd (snd (SharedQueueAcquire P sqname ncons node others shm))) = 10"
    by (simp_all add: SharedQueueAcquire_def)
next
  from try_sleeps_le [of 0 9 P sqname ncons node others shm]
  show "sleeps (snd (snd (SharedQueueAcquire P sqname ncons node others shm))) \<le> 10"
    by (simp add: SharedQueueAcquire_def)
next
  assume "hash_find shm sqname = Some sq \<and> \<not> stale_entry shm sqname node"
  then show "SharedQueueAcquire_try P sqname ncons node others trycount shm =
        (None, hash_store shm (sq\<lparr>sq_refcnt := sq_refcnt sq + 1\<rparr>),
         [LWLockAcquire SQueuesLock LW_EXCLUSIVE]
         @ (if sq_pid sq \<noteq> 0 then snd (SharedQueueAcquire_old sq node) else [])
         @ [LWLockRelease SQueuesLock])"
    by (simp add: try_fresh)
qed

lemma stale_shmem_stale: "stale_entry stale_shmem ''q1'' 7"
  by (simp add: stale_entry_def stale_shmem_eq SharedQueueAcquire_old_def example_defs)

lemma bound_shmem_not_stale: "\<not> stale_entry bound_shmem ''q1'' 7"
  by (simp add: stale_entry_def bound_shmem_eq SharedQueueAcquire_old_def example_defs)

theorem C6_acquire_stale_witness:
  "stale_entry stale_shmem ''q1'' 7 \<and>
   fst (SharedQueueAcquire example_params ''q1'' 1 7 (\<lambda>k shm. shm) stale_shmem)
     = Some (race_condition_not_resolved 10) \<and>
   sleeps (snd (snd (SharedQueueAcquire example_params ''q1'' 1 7 (\<lambda>k shm. shm) stale_shmem)))
     = 10 \<and>
   \<not> stale_entry bound_shmem ''q1'' 7 \<and>
   fst (SharedQueueAcquire example_params ''q1'' 1 7 (\<lambda>k shm. shm) bound_shmem) = None"
proof -
  have f: "hash_find bound_shmem ''q1'' = Some (hd (SharedQueues bound_shmem))"
    by (simp add: bound_shmem_eq example_defs)
  from C6_acquire_stale [of stale_shmem "''q1''" 7 0 example_params 1 "\<lambda>k shm. shm"]
    stale_shmem_stale
  have 1: "fst (SharedQueueAcquire example_params ''q1'' 1 7 (\<lambda>k shm. shm) stale_shmem)
     = Some (race_condition_not_resolved 10) \<and>
   sleeps (snd (snd (SharedQueueAcquire example_params ''q1'' 1 7 (\<lambda>k shm. shm) stale_shmem)))
     = 10"
    by blast
  from C6_acquire_stale [of bound_shmem "''q1''" 7 0 example_params 1 "\<lambda>k shm. shm"
      "hd (SharedQueues bound_shmem)"] f bound_shmem_not_stale
  have 2: "fst (SharedQueueAcquire example_params ''q1'' 1 7 (\<lambda>k shm. shm) bound_shmem) = None"
    by (simp add: SharedQueueAcquire_def)
  from 1 2 stale_shmem_stale bound_shmem_not_stale show ?thesis by blast
qed

text \<open>
  C6 as stated fails: in \<open>bound_shmem\<close> the producer is bound and the consumer state of
  node 7 is not \<open>CONSUMER_DONE\<close>, and a call from node 7 neither sleeps nor tries
  again; it adds one to \<^verbatim>\<open>sq_refcnt\<close> and returns.
\<close>

theorem C6_counterexample:
  "sq_pid (hd (SharedQueues bound_shmem)) \<noteq> 0 \<and>
   cs_node (hd (sq_consumers (hd (SharedQueues bound_shmem)))) = 7 \<and>
   cs_status (hd (sq_consumers (hd (SharedQueues bound_shmem)))) \<noteq> CONSUMER_DONE \<and>
   SharedQueueAcquire example_params ''q1'' 1 7 (\<lambda>k shm. shm) bound_shmem =
     (None,
      hash_store bound_shmem ((hd (SharedQueues bound_shmem))\<lparr>sq_refcnt := 3\<rparr>),
      [LWLockAcquire SQueuesLock LW_EXCLUSIVE, LWLockAcquire (cs_lwlock 0) LW_EXCLUSIVE,
       LWLockRelease (cs_lwlock 0), LWLockRelease SQueuesLock])"
proof -
  have f: "hash_find bound_shmem ''q1'' = Some (hd (SharedQueues bound_shmem))"
    by (simp add: bound_shmem_eq example_defs)
  show ?thesis
    unfolding SharedQueueAcquire_def try_fresh [OF f bound_shmem_not_stale]
    by (simp add: bound_shmem_eq SharedQueueAcquire_old_def example_defs)
qed

subsection \<open>The reference count of an entry\<close>

lemma find_map_store:
  "sq_key sq = k \<Longrightarrow>
   find (\<lambda>e. sq_key e = k) (map (\<lambda>e. if sq_key e = sq_key sq then sq else e) xs) =
     (case find (\<lambda>e. sq_key e = k) xs of None \<Rightarrow> None | Some e \<Rightarrow> Some sq)"
  by (induction xs) auto

lemma find_filter_remove: "find (\<lambda>e. sq_key e = k) (filter (\<lambda>e. sq_key e \<noteq> k) xs) = None"
  by (induction xs) auto

lemma find_key: "find (\<lambda>e. sq_key e = k) xs = Some sq \<Longrightarrow> sq_key sq = k"
  by (induction xs) (auto split: if_splits)

lemma hash_find_key: "hash_find shm k = Some sq \<Longrightarrow> sq_key sq = k"
  unfolding hash_find_def by (rule find_key)

lemma hash_find_store:
  "hash_find shm (sq_key sq) = Some e \<Longrightarrow> hash_find (hash_store shm sq) (sq_key sq) = Some sq"
  by (simp add: hash_find_def hash_store_def find_map_store)

lemma hash_find_remove: "hash_find (hash_remove shm k) k = None"
  by (simp add: hash_find_def hash_remove_def find_filter_remove)

lemma hash_find_syncs [simp]: "hash_find (shm\<lparr>SQueueSyncs := s\<rparr>) k = hash_find shm k"
  by (simp add: hash_find_def)

lemma drop_reference_last:
  assumes "sq_refcnt sq = 1"
  shows "hash_find (fst (drop_reference shm sq)) (sq_key sq) = None"
    and "snd (drop_reference shm sq) = Some (sq\<lparr>sq_refcnt := 0, sq_sync := None\<rparr>)"
    and "sq_sync sq = Some k \<Longrightarrow> k < length (SQueueSyncs shm) \<Longrightarrow>
           SQueueSyncs (fst (drop_reference shm sq)) ! k = None"
  using assms
  by (simp_all add: drop_reference_def Let_def hash_find_def hash_remove_def find_filter_remove)

lemma drop_reference_more:
  assumes "sq_refcnt sq \<noteq> 1"
  shows "drop_reference shm sq = (hash_store shm (sq\<lparr>sq_refcnt := sq_refcnt sq - 1\<rparr>), None)"
  using assms by (simp add: drop_reference_def Let_def)

lemma removes_append:
  "removes_under_lock held (xs @ ys) \<longleftrightarrow>
     removes_under_lock held xs \<and> removes_under_lock (locks_after held xs) ys"
  by (induction held xs rule: removes_under_lock.induct) simp_all

lemma locks_append: "locks_after held (xs @ ys) = locks_after (locks_after held xs) ys"
  by (induction held xs rule: locks_after.induct) simp_all

lemma quiet_Nil [simp]: "quiet []"
  by (simp add: quiet_def)

lemma quiet_append: "quiet xs \<Longrightarrow> quiet ys \<Longrightarrow> quiet (xs @ ys)"
  by (simp add: quiet_def locks_append removes_append)

lemma quiet_concat: "(\<And>xs. xs \<in> set xss \<Longrightarrow> quiet xs) \<Longrightarrow> quiet (concat xss)"
  by (induction xss) (simp_all add: quiet_append)

lemma quiet_locked: "quiet xs \<Longrightarrow> quiet ([LWLockAcquire l m] @ xs @ [LWLockRelease l])"
  by (simp add: quiet_def locks_append removes_append)

lemma quiet_single [simp]:
  "quiet [SetLatch x]" "quiet [ResetLatch x]" "quiet [DisownLatch x]" "quiet [OwnLatch x]"
  "quiet [WaitLatch x]"
  by (simp_all add: quiet_def)

lemma quiet_each: "quiet (each_consumer_locked n)"
  unfolding each_consumer_locked_def
  by (rule quiet_concat) (auto simp: quiet_def)

lemma quiet_check: "quiet (snd (snd (SharedQueueUnBind_check failed i cs)))"
proof (induction cs arbitrary: i)
  case Nil
  then show ?case by simp
next
  case (Cons c cs)
  from Cons [of "Suc i"] show ?case
    by (auto simp add: quiet_def locks_append removes_append split: prod.splits)
qed

lemma quiet_reset: "quiet (SharedQueueResetNotConnected_events sq)"
proof -
  have "quiet (concat (map (\<lambda>i. [LWLockAcquire (cs_lwlock i) LW_EXCLUSIVE]
                         @ (if cs_pid (sq_consumers sq ! i) = 0
                               \<and> cs_status (sq_consumers sq ! i) \<noteq> CONSUMER_DONE
                            then [SetLatch (cs_latch i)] else [])
                         @ [LWLockRelease (cs_lwlock i)])
                 [0..<length (consumers sq)]))"
    by (rule quiet_concat) (auto simp: quiet_def)
  then show ?thesis
    unfolding SharedQueueResetNotConnected_events_def
    using quiet_locked by simp
qed

lemma wait_events:
  "SharedQueueUnBind_wait failed sq others = Some (sq1, evs) \<Longrightarrow>
   \<exists>pre. quiet pre \<and>
     evs = pre @ [LWLockAcquire SQueuesLock LW_EXCLUSIVE,
                  LWLockAcquire sqs_producer_lwlock LW_EXCLUSIVE]
               @ each_consumer_locked (length (consumers sq1))"
proof (induction others arbitrary: sq sq1 evs)
  case Nil
  then show ?case by simp
next
  case (Cons a others)
  obtain timeout f where a: "a = (timeout, f)" by (cases a)
  obtain cs c_count evs0 where ch: "SharedQueueUnBind_check failed 0 (consumers sq) = (cs, c_count, evs0)"
    by (cases "SharedQueueUnBind_check failed 0 (consumers sq)") auto
  have q0: "quiet evs0" using quiet_check [of failed 0 "consumers sq"] ch by simp
  define sqa where "sqa = sq\<lparr>sq_consumers := cs @ drop (nat (sq_nconsumers sq)) (sq_consumers sq)\<rparr>"
  define evs1 where "evs1 = [LWLockAcquire sqs_producer_lwlock LW_EXCLUSIVE] @ evs0
                     @ [LWLockRelease sqs_producer_lwlock]"
  have q1: "quiet evs1"
    unfolding evs1_def using q0 by (rule quiet_locked)
  define tail where "tail sqx = [LWLockAcquire SQueuesLock LW_EXCLUSIVE,
                  LWLockAcquire sqs_producer_lwlock LW_EXCLUSIVE]
               @ each_consumer_locked (length (consumers sqx))" for sqx
  define sqb where "sqb = (if timeout then SharedQueueResetNotConnected (f sqa) else f sqa)"
  define evw where "evw = evs1 @ [WaitLatch sqs_producer_latch]
                          @ (if timeout then SharedQueueResetNotConnected_events (f sqa) else [])"
  have step: "SharedQueueUnBind_wait failed sq ((timeout, f) # others) =
     (if c_count = 0 then
        if filter (\<lambda>cstate. cs_status cstate = CONSUMER_ACTIVE \<and> cs_pid cstate \<noteq> 0)
                       (consumers (f sqa)) \<noteq> []
        then (case SharedQueueUnBind_wait failed (f sqa) others of
                None \<Rightarrow> None
              | Some (sq3, evs3) \<Rightarrow>
                  Some (sq3, evs1 @ tail (f sqa)
                     @ [LWLockRelease sqs_producer_lwlock, LWLockRelease SQueuesLock] @ evs3))
        else Some (f sqa, evs1 @ tail (f sqa))
      else (case SharedQueueUnBind_wait failed sqb others of
              None \<Rightarrow> None
            | Some (sq4, evs4) \<Rightarrow> Some (sq4, evw @ evs4)))"
    unfolding sqa_def evs1_def tail_def sqb_def evw_def
    by (auto simp add: ch Let_def split: option.splits)
  show ?case
  proof (cases "c_count = 0")
    case True
    show ?thesis
    proof (cases "filter (\<lambda>cstate. cs_status cstate = CONSUMER_ACTIVE \<and> cs_pid cstate \<noteq> 0)
                       (consumers (f sqa)) \<noteq> []")
      case run: True
      from Cons.prems True run obtain evs3 where
        r: "SharedQueueUnBind_wait failed (f sqa) others = Some (sq1, evs3)"
        and e: "evs = evs1 @ tail (f sqa)
                   @ [LWLockRelease sqs_producer_lwlock, LWLockRelease SQueuesLock] @ evs3"
        unfolding a step by (auto split: option.splits)
      from Cons.IH [OF r]
      obtain pre where p: "quiet pre" "evs3 = pre @ tail sq1"
        unfolding tail_def by auto
      have mid: "quiet (tail (f sqa) @ [LWLockRelease sqs_producer_lwlock, LWLockRelease SQueuesLock])"
        using quiet_each [of "length (consumers (f sqa))"]
        by (simp add: quiet_def tail_def locks_append removes_append)
      have "quiet (evs1 @ (tail (f sqa)
           @ [LWLockRelease sqs_producer_lwlock, LWLockRelease SQueuesLock]) @ pre)"
        by (rule quiet_append [OF q1 quiet_append [OF mid p(1)]])
      then show ?thesis using e p(2) unfolding tail_def
        by (intro exI [of _ "evs1 @ (tail (f sqa)
           @ [LWLockRelease sqs_producer_lwlock, LWLockRelease SQueuesLock]) @ pre"])
          (simp add: tail_def)
    next
      case norun: False
      from Cons.prems True norun have
        e: "sq1 = f sqa" "evs = evs1 @ tail (f sqa)"
        unfolding a step by auto
      then show ?thesis using q1 unfolding tail_def
        by (intro exI [of _ evs1]) simp
    qed
  next
    case False
    from Cons.prems False obtain evs4 where
      r: "SharedQueueUnBind_wait failed sqb others = Some (sq1, evs4)"
      and e: "evs = evw @ evs4"
      unfolding a step by (auto split: option.splits)
    from Cons.IH [OF r]
    obtain pre where p: "quiet pre" "evs4 = pre @ tail sq1"
      unfolding tail_def by auto
    have "quiet ([WaitLatch sqs_producer_latch]
                          @ (if timeout then SharedQueueResetNotConnected_events (f sqa) else []))"
      by (rule quiet_append) (simp_all add: quiet_reset)
    then have "quiet evw" unfolding evw_def
      by (rule quiet_append [OF q1])
    then have "quiet (evw @ pre)" using p(1) by (rule quiet_append)
    then show ?thesis using e p(2) unfolding tail_def
      by (intro exI [of _ "evw @ pre"]) simp
  qed
qed

lemma for_consumers_header [simp]:
  "sq_key (for_consumers f sq) = sq_key sq" "sq_refcnt (for_consumers f sq) = sq_refcnt sq"
  "sq_sync (for_consumers f sq) = sq_sync sq"
  by (simp_all add: for_consumers_def)

lemma release_consumer_header:
  "sq_key (fst (SharedQueueRelease_consumer sq node)) = sq_key sq"
  "sq_refcnt (fst (SharedQueueRelease_consumer sq node)) = sq_refcnt sq"
  "sq_sync (fst (SharedQueueRelease_consumer sq node)) = sq_sync sq"
  by (simp_all add: SharedQueueRelease_consumer_def Let_def split: option.splits)

lemma release_consumer_quiet:
  "quiet ([LWLockAcquire sqs_producer_lwlock m] @ snd (SharedQueueRelease_consumer sq node))"
proof (cases "first_index (\<lambda>cstate. cs_node cstate = node) (consumers sq)")
  case None
  have "quiet (concat (map (\<lambda>i. if cs_node (sq_consumers sq ! i) = - 1
                             then [LWLockAcquire (cs_lwlock i) LW_EXCLUSIVE,
                                   SetLatch sqs_producer_latch, LWLockRelease (cs_lwlock i)]
                             else [])
                     [0..<length (consumers sq)]))"
    by (rule quiet_concat) (auto simp: quiet_def)
  from quiet_locked [OF this, of sqs_producer_lwlock m] show ?thesis
    using None by (simp add: SharedQueueRelease_consumer_def)
next
  case (Some i)
  then show ?thesis
    by (simp add: SharedQueueRelease_consumer_def Let_def quiet_def)
qed

lemma release_found:
  assumes "hash_find shm name = Some sq"
  shows "\<exists>sq1 q. sq_key sq1 = name \<and> sq_refcnt sq1 = sq_refcnt sq \<and> sq_sync sq1 = sq_sync sq \<and>
           quiet q \<and>
           SharedQueueRelease shm name node =
             (fst (drop_reference (hash_store shm sq1) sq1),
              snd (drop_reference (hash_store shm sq1) sq1),
              [LWLockAcquire SQueuesLock LW_EXCLUSIVE] @ q
              @ (if snd (drop_reference (hash_store shm sq1) sq1) = None then []
                 else [HASH_REMOVE name])
              @ [LWLockRelease SQueuesLock])"
proof -
  have k: "sq_key sq = name" using assms by (rule hash_find_key)
  define r where "r = (if sq_nodeid sq = - 1 then (sq, [LWLockRelease sqs_producer_lwlock])
                 else if sq_nodeid sq \<noteq> node then SharedQueueRelease_consumer sq node
                 else (sq, [LWLockRelease sqs_producer_lwlock]))"
  have h: "sq_key (fst r) = name" "sq_refcnt (fst r) = sq_refcnt sq" "sq_sync (fst r) = sq_sync sq"
    unfolding r_def by (simp_all add: release_consumer_header k)
  have q: "quiet ([LWLockAcquire sqs_producer_lwlock LW_EXCLUSIVE] @ snd r)"
    unfolding r_def using release_consumer_quiet [of LW_EXCLUSIVE sq node]
    by (simp add: quiet_def)
  obtain sq1 evs where r: "r = (sq1, evs)" by (cases r)
  have "SharedQueueRelease shm name node =
             (fst (drop_reference (hash_store shm (fst r)) (fst r)),
              snd (drop_reference (hash_store shm (fst r)) (fst r)),
              [LWLockAcquire SQueuesLock LW_EXCLUSIVE]
              @ ([LWLockAcquire sqs_producer_lwlock LW_EXCLUSIVE] @ snd r)
              @ (if snd (drop_reference (hash_store shm (fst r)) (fst r)) = None then []
                 else [HASH_REMOVE name])
              @ [LWLockRelease SQueuesLock])"
    using r [unfolded r_def]
    by (simp add: SharedQueueRelease_def assms r split: prod.splits)
  with h q show ?thesis by blast
qed

lemma release_under_lock:
  "removes_under_lock [] (snd (snd (SharedQueueRelease shm name node)))"
proof (cases "hash_find shm name")
  case None
  then show ?thesis by (simp add: SharedQueueRelease_def)
next
  case (Some sq)
  from release_found [OF Some, of node] obtain sq1 q where
    q: "quiet q" and r: "snd (snd (SharedQueueRelease shm name node)) =
         [LWLockAcquire SQueuesLock LW_EXCLUSIVE] @ q
              @ (if snd (drop_reference (hash_store shm sq1) sq1) = None then []
                 else [HASH_REMOVE name])
              @ [LWLockRelease SQueuesLock]"
    by auto
  show ?thesis unfolding r using q
    by (simp add: removes_append locks_append quiet_def)
qed

lemma hash_store_store [simp]:
  "sq_key sq' = sq_key sq \<Longrightarrow> hash_store (hash_store shm sq) sq' = hash_store shm sq'"
  by (simp add: hash_store_def comp_def)

lemma release_refcount:
  assumes "refcount shm name = Some n"
  shows "n = 1 \<Longrightarrow> refcount (fst (SharedQueueRelease shm name node)) name = None"
    and "n = 1 \<Longrightarrow> \<exists>e. fst (snd (SharedQueueRelease shm name node)) = Some e \<and>
             sq_sync e = None \<and> sq_refcnt e = 0"
    and "n = 1 \<Longrightarrow> sync_of shm name = Some k \<Longrightarrow> k < length (SQueueSyncs shm) \<Longrightarrow>
             SQueueSyncs (fst (SharedQueueRelease shm name node)) ! k = None"
    and "n \<noteq> 1 \<Longrightarrow> refcount (fst (SharedQueueRelease shm name node)) name = Some (n - 1)"
    and "n \<noteq> 1 \<Longrightarrow> fst (snd (SharedQueueRelease shm name node)) = None"
proof -
  from assms obtain sq where f: "hash_find shm name = Some sq" and n: "sq_refcnt sq = n"
    by (auto simp: refcount_def)
  from release_found [OF f, of node] obtain sq1 q where
    h: "sq_key sq1 = name" "sq_refcnt sq1 = n" "sq_sync sq1 = sq_sync sq"
    and r: "fst (SharedQueueRelease shm name node) = fst (drop_reference (hash_store shm sq1) sq1)"
      "fst (snd (SharedQueueRelease shm name node)) = snd (drop_reference (hash_store shm sq1) sq1)"
    using n by auto
  have fs: "hash_find shm (sq_key sq1) = Some sq" using f h by simp
  {
    assume "n = 1"
    then have one: "sq_refcnt sq1 = 1" using h by simp
    show "refcount (fst (SharedQueueRelease shm name node)) name = None"
      unfolding r refcount_def using drop_reference_last(1) [OF one] h by simp
    show "\<exists>e. fst (snd (SharedQueueRelease shm name node)) = Some e \<and>
             sq_sync e = None \<and> sq_refcnt e = 0"
      unfolding r using drop_reference_last(2) [OF one] by simp
    assume "sync_of shm name = Some k" "k < length (SQueueSyncs shm)"
    then have "sq_sync sq1 = Some k" "k < length (SQueueSyncs (hash_store shm sq1))"
      using f h by (simp_all add: sync_of_def hash_store_def)
    from drop_reference_last(3) [OF one this]
    show "SQueueSyncs (fst (SharedQueueRelease shm name node)) ! k = None"
      unfolding r .
  }
  {
    assume "n \<noteq> 1"
    then have more: "sq_refcnt sq1 \<noteq> 1" using h by simp
    have "hash_find (hash_store shm (sq1\<lparr>sq_refcnt := n - 1\<rparr>)) name
       = Some (sq1\<lparr>sq_refcnt := n - 1\<rparr>)"
      using hash_find_store [of shm "sq1\<lparr>sq_refcnt := n - 1\<rparr>" sq] f h by simp
    then show "refcount (fst (SharedQueueRelease shm name node)) name = Some (n - 1)"
      unfolding r refcount_def drop_reference_more [OF more] using h by simp
    show "fst (snd (SharedQueueRelease shm name node)) = None"
      unfolding r drop_reference_more [OF more] by simp
  }
qed

lemma releases_count:
  "refcount shm name = Some n \<Longrightarrow> int (length nodes) < n \<Longrightarrow>
     refcount (releases shm name nodes) name = Some (n - int (length nodes))"
proof (induction nodes arbitrary: shm n)
  case Nil
  then show ?case by (simp add: releases_def)
next
  case (Cons node nodes)
  then have "n \<noteq> 1" by auto
  from release_refcount(4) [OF Cons.prems(1) this, of node]
  have "refcount (fst (SharedQueueRelease shm name node)) name = Some (n - 1)" .
  from Cons.IH [OF this] Cons.prems(2) show ?case
    by (simp add: releases_def)
qed

lemma releases_last:
  assumes "refcount shm name = Some (int (length nodes))" "nodes \<noteq> []"
  shows "refcount (releases shm name nodes) name = None"
proof -
  from assms(2) obtain ns node where nodes: "nodes = ns @ [node]"
    by (metis rev_exhaust)
  have "refcount (releases shm name ns) name = Some (int (length nodes) - int (length ns))"
    using releases_count [OF assms(1), of ns] nodes by simp
  then have "refcount (releases shm name ns) name = Some 1" using nodes by simp
  from release_refcount(1) [OF this refl, of node] show ?thesis
    by (simp add: releases_def nodes)
qed

lemma unbind_wait_Cons:
  assumes "SharedQueueUnBind_check failed 0 (consumers sq) = (cs, c_count, evs0)"
  shows "SharedQueueUnBind_wait failed sq ((timeout, f) # others) =
     (let sqa = sq\<lparr>sq_consumers := cs @ drop (nat (sq_nconsumers sq)) (sq_consumers sq)\<rparr> in
      if c_count = 0 then
        if filter (\<lambda>cstate. cs_status cstate = CONSUMER_ACTIVE \<and> cs_pid cstate \<noteq> 0)
                       (consumers (f sqa)) \<noteq> []
        then map_option (\<lambda>(sq3, evs3).
               (sq3, ([LWLockAcquire sqs_producer_lwlock LW_EXCLUSIVE] @ evs0
                      @ [LWLockRelease sqs_producer_lwlock])
                     @ [LWLockAcquire SQueuesLock LW_EXCLUSIVE,
                        LWLockAcquire sqs_producer_lwlock LW_EXCLUSIVE]
                     @ each_consumer_locked (length (consumers (f sqa)))
                     @ [LWLockRelease sqs_producer_lwlock, LWLockRelease SQueuesLock] @ evs3))
               (SharedQueueUnBind_wait failed (f sqa) others)
        else Some (f sqa, ([LWLockAcquire sqs_producer_lwlock LW_EXCLUSIVE] @ evs0
                      @ [LWLockRelease sqs_producer_lwlock])
                     @ [LWLockAcquire SQueuesLock LW_EXCLUSIVE,
                        LWLockAcquire sqs_producer_lwlock LW_EXCLUSIVE]
                     @ each_consumer_locked (length (consumers (f sqa))))
      else map_option (\<lambda>(sq4, evs4).
               (sq4, ([LWLockAcquire sqs_producer_lwlock LW_EXCLUSIVE] @ evs0
                      @ [LWLockRelease sqs_producer_lwlock]) @ [WaitLatch sqs_producer_latch]
                     @ (if timeout then SharedQueueResetNotConnected_events (f sqa) else [])
                     @ evs4))
             (SharedQueueUnBind_wait failed
                (if timeout then SharedQueueResetNotConnected (f sqa) else f sqa) others))"
  by (auto simp add: assms Let_def split: option.splits)

lemma wait_keeps:
  "list_all (\<lambda>a. keeps_header (snd a)) others \<Longrightarrow>
   SharedQueueUnBind_wait failed sq others = Some (sq1, evs) \<Longrightarrow>
   sq_key sq1 = sq_key sq \<and> sq_refcnt sq1 = sq_refcnt sq \<and> sq_sync sq1 = sq_sync sq"
proof (induction others arbitrary: sq sq1 evs)
  case Nil
  then show ?case by simp
next
  case (Cons a others)
  obtain timeout f where a: "a = (timeout, f)" by (cases a)
  obtain cs c_count evs0 where ch: "SharedQueueUnBind_check failed 0 (consumers sq) = (cs, c_count, evs0)"
    by (cases "SharedQueueUnBind_check failed 0 (consumers sq)") auto
  define sqa where "sqa = sq\<lparr>sq_consumers := cs @ drop (nat (sq_nconsumers sq)) (sq_consumers sq)\<rparr>"
  have kf: "keeps_header f" and rest: "list_all (\<lambda>a. keeps_header (snd a)) others"
    using Cons.prems(1) a by simp_all
  have fa: "sq_key (f sqa) = sq_key sq" "sq_refcnt (f sqa) = sq_refcnt sq" "sq_sync (f sqa) = sq_sync sq"
    using kf by (simp_all add: keeps_header_def sqa_def)
  have fr: "sq_key (SharedQueueResetNotConnected (f sqa)) = sq_key sq"
    "sq_refcnt (SharedQueueResetNotConnected (f sqa)) = sq_refcnt sq"
    "sq_sync (SharedQueueResetNotConnected (f sqa)) = sq_sync sq"
    using fa by (simp_all add: SharedQueueResetNotConnected_def)
  from Cons.prems(2) [unfolded a unbind_wait_Cons [OF ch] Let_def sqa_def [symmetric]]
  consider (again) evs3 where "SharedQueueUnBind_wait failed (f sqa) others = Some (sq1, evs3)"
    | (finished) "sq1 = f sqa"
    | (waited) evs4 where "SharedQueueUnBind_wait failed
                (if timeout then SharedQueueResetNotConnected (f sqa) else f sqa) others = Some (sq1, evs4)"
    by (auto split: if_splits)
  then show ?case
  proof cases
    case again
    from Cons.IH [OF rest this] fa show ?thesis by simp
  next
    case finished
    with fa show ?thesis by simp
  next
    case waited
    from Cons.IH [OF rest this] fa fr show ?thesis by (simp split: if_splits)
  qed
qed

lemma unbind_found:
  assumes "SharedQueueUnBind shm key failed others = Some (shm', removed, evs)"
  shows "\<exists>squeue sq1 pre. hash_find shm key = Some squeue \<and>
           SharedQueueUnBind_wait failed squeue others
             = Some (sq1, pre @ [LWLockAcquire SQueuesLock LW_EXCLUSIVE,
                  LWLockAcquire sqs_producer_lwlock LW_EXCLUSIVE]
               @ each_consumer_locked (length (consumers sq1))) \<and>
           quiet pre \<and>
           (shm', removed) = drop_reference (hash_store shm sq1) sq1 \<and>
           evs = pre @ [LWLockAcquire SQueuesLock LW_EXCLUSIVE,
                  LWLockAcquire sqs_producer_lwlock LW_EXCLUSIVE]
               @ each_consumer_locked (length (consumers sq1))
               @ [DisownLatch sqs_producer_latch]
               @ (if removed = None then [] else [HASH_REMOVE key])
               @ [LWLockRelease sqs_producer_lwlock, LWLockRelease SQueuesLock]"
proof -
  from assms obtain squeue sq1 evs1 where f: "hash_find shm key = Some squeue"
    and w: "SharedQueueUnBind_wait failed squeue others = Some (sq1, evs1)"
    and d: "(shm', removed) = drop_reference (hash_store shm sq1) sq1"
    and e: "evs = evs1 @ [DisownLatch sqs_producer_latch]
                            @ (if removed = None then [] else [HASH_REMOVE key])
                            @ [LWLockRelease sqs_producer_lwlock, LWLockRelease SQueuesLock]"
    by (auto simp add: SharedQueueUnBind_def split: option.splits if_splits prod.splits)
  from wait_events [OF w] obtain pre where "quiet pre"
    "evs1 = pre @ [LWLockAcquire SQueuesLock LW_EXCLUSIVE,
                  LWLockAcquire sqs_producer_lwlock LW_EXCLUSIVE]
               @ each_consumer_locked (length (consumers sq1))"
    by auto
  with f w d e show ?thesis by auto
qed

lemma unbind_under_lock:
  assumes "SharedQueueUnBind shm key failed others = Some (shm', removed, evs)"
  shows "removes_under_lock [] evs"
proof -
  from unbind_found [OF assms] obtain sq1 pre where q: "quiet pre"
    and e: "evs = pre @ [LWLockAcquire SQueuesLock LW_EXCLUSIVE,
                  LWLockAcquire sqs_producer_lwlock LW_EXCLUSIVE]
               @ each_consumer_locked (length (consumers sq1))
               @ [DisownLatch sqs_producer_latch]
               @ (if removed = None then [] else [HASH_REMOVE key])
               @ [LWLockRelease sqs_producer_lwlock, LWLockRelease SQueuesLock]"
    by auto
  show ?thesis
    unfolding e using q quiet_each [of "length (consumers sq1)"]
    by (simp add: removes_append locks_append quiet_def)
qed

lemma wait_keeps_key:
  "list_all (\<lambda>a. keeps_key (snd a)) others \<Longrightarrow>
   SharedQueueUnBind_wait failed sq others = Some (sq1, evs) \<Longrightarrow>
   sq_key sq1 = sq_key sq"
proof (induction others arbitrary: sq sq1 evs)
  case Nil
  then show ?case by simp
next
  case (Cons a others)
  obtain timeout f where a: "a = (timeout, f)" by (cases a)
  obtain cs c_count evs0 where ch: "SharedQueueUnBind_check failed 0 (consumers sq) = (cs, c_count, evs0)"
    by (cases "SharedQueueUnBind_check failed 0 (consumers sq)") auto
  define sqa where "sqa = sq\<lparr>sq_consumers := cs @ drop (nat (sq_nconsumers sq)) (sq_consumers sq)\<rparr>"
  have kf: "keeps_key f" and rest: "list_all (\<lambda>a. keeps_key (snd a)) others"
    using Cons.prems(1) a by simp_all
  have fa: "sq_key (f sqa) = sq_key sq"
    using kf by (simp_all add: keeps_key_def sqa_def)
  have fr: "sq_key (SharedQueueResetNotConnected (f sqa)) = sq_key sq"
    using fa by (simp_all add: SharedQueueResetNotConnected_def)
  from Cons.prems(2) [unfolded a unbind_wait_Cons [OF ch] Let_def sqa_def [symmetric]]
  consider (again) evs3 where "SharedQueueUnBind_wait failed (f sqa) others = Some (sq1, evs3)"
    | (finished) "sq1 = f sqa"
    | (waited) evs4 where "SharedQueueUnBind_wait failed
                (if timeout then SharedQueueResetNotConnected (f sqa) else f sqa) others = Some (sq1, evs4)"
    by (auto split: if_splits)
  then show ?case
  proof cases
    case again
    from Cons.IH [OF rest this] fa show ?thesis by simp
  next
    case finished
    with fa show ?thesis by simp
  next
    case waited
    from Cons.IH [OF rest this] fa fr show ?thesis by (simp split: if_splits)
  qed
qed

lemma unbind_count:
  assumes "SharedQueueUnBind shm key failed others = Some (shm', removed, evs)"
    "SharedQueueUnBind_found shm key failed others = Some sq1"
    "list_all (\<lambda>a. keeps_key (snd a)) others"
  shows "sq_refcnt sq1 = 1 \<Longrightarrow> refcount shm' key = None"
    and "sq_refcnt sq1 = 1 \<Longrightarrow> removed = Some (sq1\<lparr>sq_refcnt := 0, sq_sync := None\<rparr>)"
    and "sq_refcnt sq1 = 1 \<Longrightarrow> sq_sync sq1 = Some k \<Longrightarrow> k < length (SQueueSyncs shm) \<Longrightarrow>
             SQueueSyncs shm' ! k = None"
    and "sq_refcnt sq1 \<noteq> 1 \<Longrightarrow>
             hash_find shm' key = Some (sq1\<lparr>sq_refcnt := sq_refcnt sq1 - 1\<rparr>) \<and> removed = None"
proof -
  from unbind_found [OF assms(1)] obtain squeue sq0 evs1 where f: "hash_find shm key = Some squeue"
    and w: "SharedQueueUnBind_wait failed squeue others = Some (sq0, evs1)"
    and d0: "(shm', removed) = drop_reference (hash_store shm sq0) sq0"
    by auto
  have e: "sq0 = sq1" using assms(2) f w by (simp add: SharedQueueUnBind_found_def)
  have d: "(shm', removed) = drop_reference (hash_store shm sq1) sq1" using d0 e by simp
  have k: "sq_key squeue = key" using f by (rule hash_find_key)
  have h: "sq_key sq1 = key" using wait_keeps_key [OF assms(3) w] k e by simp
  have r: "shm' = fst (drop_reference (hash_store shm sq1) sq1)"
    "removed = snd (drop_reference (hash_store shm sq1) sq1)"
    using d by (simp_all add: prod_eq_iff)
  {
    assume one: "sq_refcnt sq1 = 1"
    show "refcount shm' key = None"
      unfolding r refcount_def using drop_reference_last(1) [OF one] h by simp
    show "removed = Some (sq1\<lparr>sq_refcnt := 0, sq_sync := None\<rparr>)"
      unfolding r using drop_reference_last(2) [OF one] by simp
    assume "sq_sync sq1 = Some k" "k < length (SQueueSyncs shm)"
    then have "sq_sync sq1 = Some k" "k < length (SQueueSyncs (hash_store shm sq1))"
      by (simp_all add: hash_store_def)
    from drop_reference_last(3) [OF one this]
    show "SQueueSyncs shm' ! k = None"
      unfolding r .
  }
  {
    assume more: "sq_refcnt sq1 \<noteq> 1"
    have "hash_find (hash_store (hash_store shm sq1) (sq1\<lparr>sq_refcnt := sq_refcnt sq1 - 1\<rparr>)) key
       = Some (sq1\<lparr>sq_refcnt := sq_refcnt sq1 - 1\<rparr>)"
      using hash_find_store [of shm "sq1\<lparr>sq_refcnt := sq_refcnt sq1 - 1\<rparr>" squeue] f h
      by (simp add: hash_store_store)
    then show "hash_find shm' key = Some (sq1\<lparr>sq_refcnt := sq_refcnt sq1 - 1\<rparr>) \<and> removed = None"
      unfolding r drop_reference_more [OF more] by simp
  }
qed

lemma find_append_new:
  "find P xs = None \<Longrightarrow> P x \<Longrightarrow> find P (xs @ [x]) = Some x"
  by (induction xs) (auto split: if_splits)

lemma acquire_new:
  assumes "hash_find shm name = None" "length (SharedQueues shm) < NUM_SQUEUES P"
  shows "refcount (fst (snd (SharedQueueAcquire P name ncons node others shm))) name = Some 1"
  unfolding SharedQueueAcquire_def
  using assms
  by (subst SharedQueueAcquire_try.simps)
    (simp add: refcount_def SharedQueueAcquire_format_def Let_def hash_find_def find_append_new)

lemma acquire_again:
  assumes "refcount shm name = Some n" "\<not> stale_entry shm name node"
  shows "refcount (fst (snd (SharedQueueAcquire P name ncons node others shm))) name = Some (n + 1)"
proof -
  from assms(1) obtain sq where f: "hash_find shm name = Some sq" and n: "sq_refcnt sq = n"
    by (auto simp: refcount_def)
  have k: "sq_key sq = name" using f by (rule hash_find_key)
  have "hash_find (hash_store shm (sq\<lparr>sq_refcnt := n + 1\<rparr>)) name = Some (sq\<lparr>sq_refcnt := n + 1\<rparr>)"
    using hash_find_store [of shm "sq\<lparr>sq_refcnt := n + 1\<rparr>" sq] f k by simp
  then show ?thesis
    unfolding SharedQueueAcquire_def try_fresh [OF f assms(2)] refcount_def
    by (simp add: n)
qed

lemma bind_refcount:
  assumes "hash_find shm name = Some sq"
  shows "refcount (fst (snd (SharedQueueBind shm name consNodes distNodes pid node))) name =
           Some (if sq_pid sq = 0 then sq_refcnt sq + 1 else sq_refcnt sq)"
proof -
  have k: "sq_key sq = name" using assms by (rule hash_find_key)
  have st: "sq_key sq' = name \<Longrightarrow> hash_find (hash_store shm sq') name = Some sq'" for sq'
    using hash_find_store [of shm sq' sq] assms by simp
  show ?thesis
    by (simp add: SharedQueueBind_def assms refcount_def st k split: prod.splits)
qed

lemma acquired_find: "hash_find acquired_shmem ''q1'' = Some (hd (SharedQueues acquired_shmem))"
  by (simp add: acquired_shmem_eq example_defs)

lemma acquired_not_stale: "\<not> stale_entry acquired_shmem ''q1'' 7"
  by (simp add: stale_entry_def acquired_shmem_eq example_defs)

lemma two_acquired_shmem_eq:
  "two_acquired_shmem =
     \<lparr>SharedQueues =
        [\<lparr>sq_key = ''q1'', sq_pid = 0, sq_nodeid = - 1, sq_sync = Some 0, sq_refcnt = 2,
          sq_nconsumers = 1,
          sq_consumers =
            [\<lparr>cs_pid = 0, cs_node = - 1, cs_ntuples = 0, cs_status = CONSUMER_ACTIVE,
              cs_qstart = [0, 0, 0, 0, 0, 0, 0, 0, 0, 0, 0, 0, 0, 0, 0, 0], cs_qlength = 16,
              cs_qreadpos = 0, cs_qwritepos = 0\<rparr>]\<rparr>],
      SQueueSyncs = [Some ''q1'', None]\<rparr>"
  unfolding two_acquired_shmem_def SharedQueueAcquire_def
    try_fresh [OF acquired_find acquired_not_stale]
  by (simp add: acquired_shmem_eq example_defs)

lemma both_bound_shmem_eq:
  "both_bound_shmem =
     \<lparr>SharedQueues =
        [\<lparr>sq_key = ''q1'', sq_pid = 100, sq_nodeid = 1, sq_sync = Some 0, sq_refcnt = 3,
          sq_nconsumers = 1,
          sq_consumers =
            [\<lparr>cs_pid = 200, cs_node = 7, cs_ntuples = 0, cs_status = CONSUMER_ACTIVE,
              cs_qstart = [0, 0, 0, 0, 0, 0, 0, 0, 0, 0, 0, 0, 0, 0, 0, 0], cs_qlength = 16,
              cs_qreadpos = 0, cs_qwritepos = 0\<rparr>]\<rparr>],
      SQueueSyncs = [Some ''q1'', None]\<rparr>"
  by (simp add: both_bound_shmem_def two_acquired_shmem_eq SharedQueueBind_def example_defs)

lemma consumer_released_shmem_eq:
  "consumer_released_shmem =
     \<lparr>SharedQueues =
        [\<lparr>sq_key = ''q1'', sq_pid = 100, sq_nodeid = 1, sq_sync = Some 0, sq_refcnt = 2,
          sq_nconsumers = 1,
          sq_consumers =
            [\<lparr>cs_pid = 0, cs_node = 7, cs_ntuples = 0, cs_status = CONSUMER_DONE,
              cs_qstart = [0, 0, 0, 0, 0, 0, 0, 0, 0, 0, 0, 0, 0, 0, 0, 0], cs_qlength = 16,
              cs_qreadpos = 0, cs_qwritepos = 0\<rparr>]\<rparr>],
      SQueueSyncs = [Some ''q1'', None]\<rparr>"
  by (simp add: consumer_released_shmem_def both_bound_shmem_eq SharedQueueRelease_def
      SharedQueueRelease_consumer_def drop_reference_def example_defs Let_def)

lemma unbound_shmem_eq:
  "unbound_shmem =
     \<lparr>SharedQueues =
        [\<lparr>sq_key = ''q1'', sq_pid = 100, sq_nodeid = 1, sq_sync = Some 0, sq_refcnt = 1,
          sq_nconsumers = 1,
          sq_consumers =
            [\<lparr>cs_pid = 0, cs_node = 7, cs_ntuples = 0, cs_status = CONSUMER_DONE,
              cs_qstart = [0, 0, 0, 0, 0, 0, 0, 0, 0, 0, 0, 0, 0, 0, 0, 0], cs_qlength = 16,
              cs_qreadpos = 0, cs_qwritepos = 0\<rparr>]\<rparr>],
      SQueueSyncs = [Some ''q1'', None]\<rparr>"
  by (simp add: unbound_shmem_def consumer_released_shmem_eq SharedQueueUnBind_def
      drop_reference_def example_defs Let_def)

lemma lone_unbound_shmem_eq:
  "lone_unbound_shmem =
     \<lparr>SharedQueues =
        [\<lparr>sq_key = ''q1'', sq_pid = 100, sq_nodeid = 1, sq_sync = Some 0, sq_refcnt = 1,
          sq_nconsumers = 1,
          sq_consumers =
            [\<lparr>cs_pid = 0, cs_node = 7, cs_ntuples = 0, cs_status = CONSUMER_ERROR,
              cs_qstart = [0, 0, 0, 0, 0, 0, 0, 0, 0, 0, 0, 0, 0, 0, 0, 0], cs_qlength = 16,
              cs_qreadpos = 0, cs_qwritepos = 0\<rparr>]\<rparr>],
      SQueueSyncs = [Some ''q1'', None]\<rparr>"
  by (simp add: lone_unbound_shmem_def bound_shmem_eq SharedQueueUnBind_def
      drop_reference_def example_defs Let_def)

lemma joined_shmem_eq:
  "joined_shmem =
     \<lparr>SharedQueues =
        [\<lparr>sq_key = ''q1'', sq_pid = 100, sq_nodeid = 1, sq_sync = Some 0, sq_refcnt = 2,
          sq_nconsumers = 1,
          sq_consumers =
            [\<lparr>cs_pid = 200, cs_node = 7, cs_ntuples = 0, cs_status = CONSUMER_ACTIVE,
              cs_qstart = [0, 0, 0, 0, 0, 0, 0, 0, 0, 0, 0, 0, 0, 0, 0, 0], cs_qlength = 16,
              cs_qreadpos = 0, cs_qwritepos = 0\<rparr>]\<rparr>],
      SQueueSyncs = [Some ''q1'', None]\<rparr>"
  by (simp add: joined_shmem_def bound_shmem_eq SharedQueueBind_def example_defs)

lemma joined_found:
  "SharedQueueUnBind_found joined_shmem ''q1'' False [(False, released_by 7), (False, \<lambda>sq. sq)]
     = Some \<lparr>sq_key = ''q1'', sq_pid = 100, sq_nodeid = 1, sq_sync = Some 0, sq_refcnt = 1,
          sq_nconsumers = 1,
          sq_consumers =
            [\<lparr>cs_pid = 0, cs_node = 7, cs_ntuples = 0, cs_status = CONSUMER_DONE,
              cs_qstart = [0, 0, 0, 0, 0, 0, 0, 0, 0, 0, 0, 0, 0, 0, 0, 0], cs_qlength = 16,
              cs_qreadpos = 0, cs_qwritepos = 0\<rparr>]\<rparr>"
  by (simp add: SharedQueueUnBind_found_def joined_shmem_eq released_by_def
      SharedQueueRelease_consumer_def example_defs Let_def)

lemma joined_unbind:
  "\<exists>evs. SharedQueueUnBind joined_shmem ''q1'' False [(False, released_by 7), (False, \<lambda>sq. sq)]
     = Some (\<lparr>SharedQueues = [], SQueueSyncs = [None, None]\<rparr>,
         Some \<lparr>sq_key = ''q1'', sq_pid = 100, sq_nodeid = 1, sq_sync = None, sq_refcnt = 0,
          sq_nconsumers = 1,
          sq_consumers =
            [\<lparr>cs_pid = 0, cs_node = 7, cs_ntuples = 0, cs_status = CONSUMER_DONE,
              cs_qstart = [0, 0, 0, 0, 0, 0, 0, 0, 0, 0, 0, 0, 0, 0, 0, 0], cs_qlength = 16,
              cs_qreadpos = 0, cs_qwritepos = 0\<rparr>]\<rparr>, evs)"
  by (simp add: SharedQueueUnBind_def joined_shmem_eq released_by_def
      SharedQueueRelease_consumer_def drop_reference_def example_defs Let_def)

lemma joined_release:
  "hash_find (fst (SharedQueueRelease joined_shmem ''q1'' 7)) ''q1''
     = Some (released_by 7 (hd (SharedQueues joined_shmem)))"
  by (simp add: joined_shmem_eq released_by_def SharedQueueRelease_def
      SharedQueueRelease_consumer_def drop_reference_def example_defs Let_def)

lemma released_keeps_key: "keeps_key (released_by node)"
  by (simp add: keeps_key_def released_by_def SharedQueueRelease_consumer_def for_consumers_def
      Let_def split: option.splits)

lemma same_keeps_key: "keeps_key (\<lambda>sq. sq)"
  by (simp add: keeps_key_def)

lemma acquire_new_returns:
  assumes "hash_find shm name = None" "length (SharedQueues shm) < NUM_SQUEUES P" "ncons \<noteq> 0"
  shows "fst (SharedQueueAcquire P name ncons node others shm) = None"
  unfolding SharedQueueAcquire_def
  using assms
  by (subst SharedQueueAcquire_try.simps) simp

lemma unbind_finds:
  assumes "SharedQueueUnBind shm key failed others = Some (shm', removed, evs)"
  shows "\<exists>sq1. SharedQueueUnBind_found shm key failed others = Some sq1"
  using unbind_found [OF assms] by (auto simp add: SharedQueueUnBind_found_def)

lemma unbind_same_count:
  assumes "SharedQueueUnBind_found shm key failed others = Some sq1"
    "list_all (\<lambda>a. keeps_header (snd a)) others" "refcount shm key = Some n"
  shows "sq_refcnt sq1 = n"
proof -
  from assms(3) obtain squeue where f: "hash_find shm key = Some squeue" and n: "sq_refcnt squeue = n"
    by (auto simp add: refcount_def)
  from assms(1) f obtain evs1 where w: "SharedQueueUnBind_wait failed squeue others = Some (sq1, evs1)"
    by (auto simp add: SharedQueueUnBind_found_def)
  from wait_keeps [OF assms(2) w] n show ?thesis by simp
qed

text \<open>
  C9, as amended. \<^verbatim>\<open>SharedQueueRelease\<close> and \<^verbatim>\<open>SharedQueueUnBind\<close> subtract one from
  \<^verbatim>\<open>sq_refcnt\<close>. When that makes it zero, the entry is removed from the hash table, its
  \<^verbatim>\<open>sq_sync\<close> is \<^verbatim>\<open>NULL\<close> and the \<^verbatim>\<open>queue\<close> of its \<^verbatim>\<open>SQueueSync\<close> is \<^verbatim>\<open>NULL\<close>; otherwise
  the entry stays, with the count one less. Every removal is made with \<^verbatim>\<open>SQueuesLock\<close>
  held. \<^verbatim>\<open>SharedQueueUnBind\<close> subtracts from the count that it finds when its wait for the
  consumers is over and it holds \<^verbatim>\<open>SQueuesLock\<close>: what other processes did to the entry
  during the wait, a \<^verbatim>\<open>SharedQueueRelease\<close> of a consumer among it, is then in the entry
  \<open>sq1\<close> that \<open>SharedQueueUnBind_found\<close> gives. Of these processes only this is supposed,
  that they leave the name of the entry alone; when they leave the count alone too,
  the count found is the count at the call. The count is 1 after the call of
  \<^verbatim>\<open>SharedQueueAcquire\<close> that creates the entry (for a number of consumers that is not
  zero, the call returns); each later call of \<^verbatim>\<open>SharedQueueAcquire\<close> that does not fail
  adds one, and so does \<^verbatim>\<open>SharedQueueBind\<close> of the producer, while \<^verbatim>\<open>SharedQueueBind\<close> of
  a consumer adds nothing. So the entry is gone when as many calls of
  \<^verbatim>\<open>SharedQueueRelease\<close> and \<^verbatim>\<open>SharedQueueUnBind\<close> have been made as references were
  taken, and not before: with \<open>k\<close> participants that have acquired the queue and a
  producer bound, after \<open>k + 1\<close> such calls.
\<close>

theorem C9_refcount:
  "(refcount shm name = Some 1 \<longrightarrow>
      refcount (fst (SharedQueueRelease shm name node)) name = None \<and>
      (\<exists>e. fst (snd (SharedQueueRelease shm name node)) = Some e \<and>
           sq_sync e = None \<and> sq_refcnt e = 0) \<and>
      (sync_of shm name = Some k \<and> k < length (SQueueSyncs shm) \<longrightarrow>
         SQueueSyncs (fst (SharedQueueRelease shm name node)) ! k = None)) \<and>
   (refcount shm name = Some n \<and> n \<noteq> 1 \<longrightarrow>
      refcount (fst (SharedQueueRelease shm name node)) name = Some (n - 1) \<and>
      fst (snd (SharedQueueRelease shm name node)) = None) \<and>
   removes_under_lock [] (snd (snd (SharedQueueRelease shm name node))) \<and>
   (SharedQueueUnBind shm name failed others = Some (shm', removed, evs) \<longrightarrow>
      removes_under_lock [] evs \<and>
      (\<exists>sq0. SharedQueueUnBind_found shm name failed others = Some sq0) \<and>
      (list_all (\<lambda>a. keeps_key (snd a)) others \<and>
       SharedQueueUnBind_found shm name failed others = Some sq1 \<longrightarrow>
         (sq_refcnt sq1 = 1 \<longrightarrow>
            refcount shm' name = None \<and>
            removed = Some (sq1\<lparr>sq_refcnt := 0, sq_sync := None\<rparr>) \<and>
            (sq_sync sq1 = Some k \<and> k < length (SQueueSyncs shm) \<longrightarrow>
               SQueueSyncs shm' ! k = None)) \<and>
         (sq_refcnt sq1 \<noteq> 1 \<longrightarrow>
            hash_find shm' name = Some (sq1\<lparr>sq_refcnt := sq_refcnt sq1 - 1\<rparr>) \<and>
            removed = None)) \<and>
      (list_all (\<lambda>a. keeps_header (snd a)) others \<and> refcount shm name = Some n \<and>
       SharedQueueUnBind_found shm name failed others = Some sq1 \<longrightarrow>
         sq_refcnt sq1 = n)) \<and>
   (hash_find shm name = None \<and> length (SharedQueues shm) < NUM_SQUEUES P \<and> ncons \<noteq> 0 \<longrightarrow>
      fst (SharedQueueAcquire P name ncons node sleeping shm) = None \<and>
      refcount (fst (snd (SharedQueueAcquire P name ncons node sleeping shm))) name = Some 1) \<and>
   (refcount shm name = Some n \<and> \<not> stale_entry shm name node \<longrightarrow>
      refcount (fst (snd (SharedQueueAcquire P name ncons node sleeping shm))) name
        = Some (n + 1)) \<and>
   (hash_find shm name = Some sq \<longrightarrow>
      refcount (fst (snd (SharedQueueBind shm name consNodes distNodes pid node))) name
        = Some (if sq_pid sq = 0 then sq_refcnt sq + 1 else sq_refcnt sq)) \<and>
   (refcount shm name = Some (int (length nodes)) \<and> nodes \<noteq> [] \<longrightarrow>
      refcount (releases shm name nodes) name = None) \<and>
   (refcount shm name = Some n \<and> int (length nodes) < n \<longrightarrow>
      refcount (releases shm name nodes) name = Some (n - int (length nodes)))"
proof -
  have 1: "refcount shm name = Some 1 \<longrightarrow>
      refcount (fst (SharedQueueRelease shm name node)) name = None \<and>
      (\<exists>e. fst (snd (SharedQueueRelease shm name node)) = Some e \<and>
           sq_sync e = None \<and> sq_refcnt e = 0) \<and>
      (sync_of shm name = Some k \<and> k < length (SQueueSyncs shm) \<longrightarrow>
         SQueueSyncs (fst (SharedQueueRelease shm name node)) ! k = None)"
    using release_refcount(1,2) [of shm name 1 node] release_refcount(3) [of shm name 1 k node]
    by blast
  have 2: "refcount shm name = Some n \<and> n \<noteq> 1 \<longrightarrow>
      refcount (fst (SharedQueueRelease shm name node)) name = Some (n - 1) \<and>
      fst (snd (SharedQueueRelease shm name node)) = None"
    using release_refcount(4,5) [of shm name n node] by blast
  have 3: "removes_under_lock [] (snd (snd (SharedQueueRelease shm name node)))"
    by (rule release_under_lock)
  have 4: "SharedQueueUnBind shm name failed others = Some (shm', removed, evs) \<longrightarrow>
      removes_under_lock [] evs \<and>
      (\<exists>sq0. SharedQueueUnBind_found shm name failed others = Some sq0) \<and>
      (list_all (\<lambda>a. keeps_key (snd a)) others \<and>
       SharedQueueUnBind_found shm name failed others = Some sq1 \<longrightarrow>
         (sq_refcnt sq1 = 1 \<longrightarrow>
            refcount shm' name = None \<and>
            removed = Some (sq1\<lparr>sq_refcnt := 0, sq_sync := None\<rparr>) \<and>
            (sq_sync sq1 = Some k \<and> k < length (SQueueSyncs shm) \<longrightarrow>
               SQueueSyncs shm' ! k = None)) \<and>
         (sq_refcnt sq1 \<noteq> 1 \<longrightarrow>
            hash_find shm' name = Some (sq1\<lparr>sq_refcnt := sq_refcnt sq1 - 1\<rparr>) \<and>
            removed = None)) \<and>
      (list_all (\<lambda>a. keeps_header (snd a)) others \<and> refcount shm name = Some n \<and>
       SharedQueueUnBind_found shm name failed others = Some sq1 \<longrightarrow>
         sq_refcnt sq1 = n)"
  proof
    assume u: "SharedQueueUnBind shm name failed others = Some (shm', removed, evs)"
    have a: "removes_under_lock [] evs" using unbind_under_lock [OF u] .
    have b: "\<exists>sq0. SharedQueueUnBind_found shm name failed others = Some sq0"
      using unbind_finds [OF u] .
    have c: "list_all (\<lambda>a. keeps_key (snd a)) others \<and>
       SharedQueueUnBind_found shm name failed others = Some sq1 \<longrightarrow>
         (sq_refcnt sq1 = 1 \<longrightarrow>
            refcount shm' name = None \<and>
            removed = Some (sq1\<lparr>sq_refcnt := 0, sq_sync := None\<rparr>) \<and>
            (sq_sync sq1 = Some k \<and> k < length (SQueueSyncs shm) \<longrightarrow>
               SQueueSyncs shm' ! k = None)) \<and>
         (sq_refcnt sq1 \<noteq> 1 \<longrightarrow>
            hash_find shm' name = Some (sq1\<lparr>sq_refcnt := sq_refcnt sq1 - 1\<rparr>) \<and>
            removed = None)"
    proof
      assume h: "list_all (\<lambda>a. keeps_key (snd a)) others \<and>
         SharedQueueUnBind_found shm name failed others = Some sq1"
      then have f: "SharedQueueUnBind_found shm name failed others = Some sq1"
        and kk: "list_all (\<lambda>a. keeps_key (snd a)) others" by simp_all
      show "(sq_refcnt sq1 = 1 \<longrightarrow>
            refcount shm' name = None \<and>
            removed = Some (sq1\<lparr>sq_refcnt := 0, sq_sync := None\<rparr>) \<and>
            (sq_sync sq1 = Some k \<and> k < length (SQueueSyncs shm) \<longrightarrow>
               SQueueSyncs shm' ! k = None)) \<and>
         (sq_refcnt sq1 \<noteq> 1 \<longrightarrow>
            hash_find shm' name = Some (sq1\<lparr>sq_refcnt := sq_refcnt sq1 - 1\<rparr>) \<and>
            removed = None)"
        using unbind_count(1,2,4) [OF u f kk] unbind_count(3) [OF u f kk, of k]
        by blast
    qed
    have d: "list_all (\<lambda>a. keeps_header (snd a)) others \<and> refcount shm name = Some n \<and>
       SharedQueueUnBind_found shm name failed others = Some sq1 \<longrightarrow>
         sq_refcnt sq1 = n"
      using unbind_same_count by blast
    from a b c d show "removes_under_lock [] evs \<and>
      (\<exists>sq0. SharedQueueUnBind_found shm name failed others = Some sq0) \<and>
      (list_all (\<lambda>a. keeps_key (snd a)) others \<and>
       SharedQueueUnBind_found shm name failed others = Some sq1 \<longrightarrow>
         (sq_refcnt sq1 = 1 \<longrightarrow>
            refcount shm' name = None \<and>
            removed = Some (sq1\<lparr>sq_refcnt := 0, sq_sync := None\<rparr>) \<and>
            (sq_sync sq1 = Some k \<and> k < length (SQueueSyncs shm) \<longrightarrow>
               SQueueSyncs shm' ! k = None)) \<and>
         (sq_refcnt sq1 \<noteq> 1 \<longrightarrow>
            hash_find shm' name = Some (sq1\<lparr>sq_refcnt := sq_refcnt sq1 - 1\<rparr>) \<and>
            removed = None)) \<and>
      (list_all (\<lambda>a. keeps_header (snd a)) others \<and> refcount shm name = Some n \<and>
       SharedQueueUnBind_found shm name failed others = Some sq1 \<longrightarrow>
         sq_refcnt sq1 = n)"
      by (intro conjI)
  qed
  have 5: "hash_find shm name = None \<and> length (SharedQueues shm) < NUM_SQUEUES P \<and> ncons \<noteq> 0 \<longrightarrow>
      fst (SharedQueueAcquire P name ncons node sleeping shm) = None \<and>
      refcount (fst (snd (SharedQueueAcquire P name ncons node sleeping shm))) name = Some 1"
    using acquire_new acquire_new_returns by blast
  have 6: "refcount shm name = Some n \<and> \<not> stale_entry shm name node \<longrightarrow>
      refcount (fst (snd (SharedQueueAcquire P name ncons node sleeping shm))) name
        = Some (n + 1)"
    using acquire_again by blast
  have 7: "hash_find shm name = Some sq \<longrightarrow>
      refcount (fst (snd (SharedQueueBind shm name consNodes distNodes pid node))) name
        = Some (if sq_pid sq = 0 then sq_refcnt sq + 1 else sq_refcnt sq)"
    using bind_refcount by blast
  have 8: "refcount shm name = Some (int (length nodes)) \<and> nodes \<noteq> [] \<longrightarrow>
      refcount (releases shm name nodes) name = None"
    using releases_last by blast
  have 9: "refcount shm name = Some n \<and> int (length nodes) < n \<longrightarrow>
      refcount (releases shm name nodes) name = Some (n - int (length nodes))"
    using releases_count by blast
  from 1 2 3 4 5 6 7 8 9 show ?thesis by (intro conjI)
qed

lemma unbound_refcount: "refcount unbound_shmem ''q1'' = Some 1"
  by (simp add: refcount_def unbound_shmem_eq example_defs)

lemma unbound_sync: "sync_of unbound_shmem ''q1'' = Some 0" "0 < length (SQueueSyncs unbound_shmem)"
  by (simp_all add: sync_of_def unbound_shmem_eq example_defs)

lemma joined_others: "list_all (\<lambda>a. keeps_key (snd a)) [(False, released_by 7), (False, \<lambda>sq. sq)]"
  by (simp add: released_keeps_key same_keeps_key)

theorem C9_refcount_witness:
  "refcount empty_shmem ''q1'' = None \<and>
   refcount acquired_shmem ''q1'' = Some 1 \<and>
   refcount two_acquired_shmem ''q1'' = Some 2 \<and>
   refcount both_bound_shmem ''q1'' = Some 3 \<and>
   refcount consumer_released_shmem ''q1'' = Some 2 \<and>
   refcount unbound_shmem ''q1'' = Some 1 \<and>
   refcount (fst (SharedQueueRelease unbound_shmem ''q1'' 1)) ''q1'' = None \<and>
   SQueueSyncs (fst (SharedQueueRelease unbound_shmem ''q1'' 1)) ! 0 = None \<and>
   removes_under_lock [] (snd (snd (SharedQueueRelease unbound_shmem ''q1'' 1))) \<and>
   refcount (releases consumer_released_shmem ''q1'' [7, 1]) ''q1'' = None \<and>
   fst (SharedQueueAcquire example_params ''q1'' 1 1 (\<lambda>k shm. shm) empty_shmem) = None \<and>
   refcount joined_shmem ''q1'' = Some 2 \<and>
   hash_find (fst (SharedQueueRelease joined_shmem ''q1'' 7)) ''q1''
     = Some (released_by 7 (hd (SharedQueues joined_shmem))) \<and>
   map_option sq_refcnt
     (SharedQueueUnBind_found joined_shmem ''q1'' False
        [(False, released_by 7), (False, \<lambda>sq. sq)]) = Some 1 \<and>
   refcount (fst (the (SharedQueueUnBind joined_shmem ''q1'' False
        [(False, released_by 7), (False, \<lambda>sq. sq)]))) ''q1'' = None \<and>
   SQueueSyncs (fst (the (SharedQueueUnBind joined_shmem ''q1'' False
        [(False, released_by 7), (False, \<lambda>sq. sq)]))) ! 0 = None \<and>
   removes_under_lock [] (snd (snd (the (SharedQueueUnBind joined_shmem ''q1'' False
        [(False, released_by 7), (False, \<lambda>sq. sq)]))))"
proof -
  have c: "refcount consumer_released_shmem ''q1'' = Some (int (length [7, 1 :: int]))"
    by (simp add: refcount_def consumer_released_shmem_eq example_defs)
  note t = C9_refcount [where shm = unbound_shmem and name = "''q1''" and node = 1 and k = 0
      and n = 1 and nodes = "[1]"]
  note t2 = C9_refcount [where shm = consumer_released_shmem and name = "''q1''" and node = 1
      and k = 0 and n = 2 and nodes = "[7, 1]"]
  have "refcount (fst (SharedQueueRelease unbound_shmem ''q1'' 1)) ''q1'' = None"
    "SQueueSyncs (fst (SharedQueueRelease unbound_shmem ''q1'' 1)) ! 0 = None"
    "removes_under_lock [] (snd (snd (SharedQueueRelease unbound_shmem ''q1'' 1)))"
    using t unbound_refcount unbound_sync by blast+
  moreover have "refcount (releases consumer_released_shmem ''q1'' [7, 1]) ''q1'' = None"
    using t2 c by blast
  moreover have "refcount empty_shmem ''q1'' = None" "refcount acquired_shmem ''q1'' = Some 1"
    "refcount two_acquired_shmem ''q1'' = Some 2" "refcount both_bound_shmem ''q1'' = Some 3"
    "refcount consumer_released_shmem ''q1'' = Some 2"
    by (simp_all add: refcount_def acquired_shmem_eq two_acquired_shmem_eq both_bound_shmem_eq
        consumer_released_shmem_eq example_defs)
  moreover have "fst (SharedQueueAcquire example_params ''q1'' 1 1 (\<lambda>k shm. shm) empty_shmem) = None"
  proof -
    have "hash_find empty_shmem ''q1'' = None"
      "length (SharedQueues empty_shmem) < NUM_SQUEUES example_params" "(1::int) \<noteq> 0"
      by (simp_all add: example_defs)
    then show ?thesis
      using C9_refcount [where shm = empty_shmem and name = "''q1''" and P = example_params
          and ncons = 1 and node = 1 and sleeping = "\<lambda>k shm. shm"]
      by blast
  qed
  moreover have "refcount joined_shmem ''q1'' = Some 2"
    by (simp add: refcount_def joined_shmem_eq example_defs)
  moreover note joined_release
  moreover have "map_option sq_refcnt
     (SharedQueueUnBind_found joined_shmem ''q1'' False
        [(False, released_by 7), (False, \<lambda>sq. sq)]) = Some 1"
    by (simp add: joined_found)
  moreover have "refcount (fst (the (SharedQueueUnBind joined_shmem ''q1'' False
        [(False, released_by 7), (False, \<lambda>sq. sq)]))) ''q1'' = None \<and>
   SQueueSyncs (fst (the (SharedQueueUnBind joined_shmem ''q1'' False
        [(False, released_by 7), (False, \<lambda>sq. sq)]))) ! 0 = None \<and>
   removes_under_lock [] (snd (snd (the (SharedQueueUnBind joined_shmem ''q1'' False
        [(False, released_by 7), (False, \<lambda>sq. sq)]))))"
  proof -
    from joined_unbind obtain shm' removed evs where
      u: "SharedQueueUnBind joined_shmem ''q1'' False [(False, released_by 7), (False, \<lambda>sq. sq)]
            = Some (shm', removed, evs)"
      by blast
    define sq1 where "sq1 = the (SharedQueueUnBind_found joined_shmem ''q1'' False
        [(False, released_by 7), (False, \<lambda>sq. sq)])"
    have f: "SharedQueueUnBind_found joined_shmem ''q1'' False
        [(False, released_by 7), (False, \<lambda>sq. sq)] = Some sq1"
      unfolding sq1_def by (simp add: joined_found)
    have r: "sq_refcnt sq1 = 1" "sq_sync sq1 = Some 0"
      unfolding sq1_def by (simp_all add: joined_found)
    have r2: "0 < length (SQueueSyncs joined_shmem)"
      by (simp add: joined_shmem_eq)
    have "refcount shm' ''q1'' = None \<and> SQueueSyncs shm' ! 0 = None \<and> removes_under_lock [] evs"
      using C9_refcount [where shm = joined_shmem and name = "''q1''" and failed = False
          and others = "[(False, released_by 7), (False, \<lambda>sq. sq)]" and shm' = shm'
          and removed = removed and evs = evs and ?sq1.0 = sq1 and k = 0] u f r r2 joined_others
      by blast
    then show ?thesis by (simp add: u)
  qed
  ultimately show ?thesis using unbound_refcount by blast
qed

text \<open>
  C9 as stated fails in its count. After two participants have acquired and bound the
  queue, and the two matching calls have been made, \<^verbatim>\<open>SharedQueueRelease\<close> by the
  consumer and \<^verbatim>\<open>SharedQueueUnBind\<close> by the producer, the entry is still in the table
  with one reference, which the producer's own \<^verbatim>\<open>SharedQueueRelease\<close> drops. The same
  holds for a producer alone, whatever the number of calls of \<^verbatim>\<open>SharedQueueAcquire\<close>.
\<close>

theorem C9_counterexample:
  "refcount both_bound_shmem ''q1'' = Some 3 \<and>
   refcount unbound_shmem ''q1'' = Some 1 \<and>
   refcount bound_shmem ''q1'' = Some 2 \<and>
   refcount lone_unbound_shmem ''q1'' = Some 1"
  by (simp add: refcount_def both_bound_shmem_eq unbound_shmem_eq bound_shmem_eq
      lone_unbound_shmem_eq example_defs)

section \<open>The queue between a producer and a consumer\<close>

text \<open>
  The bytes of a length come back as the length; \<^verbatim>\<open>QUEUE_WRITE\<close> and \<^verbatim>\<open>QUEUE_READ\<close>
  are described on the queue as the reader sees it; the functions of the producer and of
  the consumer are then followed through the phases of a channel.
\<close>

lemma unat_byte: "unat (of_nat (n mod 256) :: byte) = n mod 256"
  by (simp add: unat_of_nat)

lemma split4:
  assumes "(v::nat) < 4294967296"
  shows "v mod 256 + 256 * (v div 256 mod 256) + 65536 * (v div 65536 mod 256)
         + 16777216 * (v div 16777216 mod 256) = v"
proof -
  define a where "a = v div 256"
  define b where "b = a div 256"
  define c where "c = b div 256"
  have 1: "v = v mod 256 + 256 * a" unfolding a_def by simp
  have 2: "a = a mod 256 + 256 * b" unfolding b_def by simp
  have 3: "b = b mod 256 + 256 * c" unfolding c_def by simp
  have b: "v div 65536 = b" unfolding b_def a_def by (simp add: div_mult2_eq)
  have c: "v div 16777216 = c" unfolding c_def b_def a_def by (simp add: div_mult2_eq)
  have "c < 256" unfolding c [symmetric] using assms by simp
  then have 4: "c mod 256 = c" by simp
  show ?thesis unfolding b c 4 a_def [symmetric] using 1 2 3 by linarith
qed

lemma bytes_int_int_bytes:
  assumes "0 \<le> x" "x < 2147483648"
  shows "bytes_int (int_bytes x) = x"
proof -
  define v where "v = nat x"
  have v: "v < 4294967296" "int v = x" "nat (x mod 4294967296) = v"
    using assms unfolding v_def by simp_all
  define b0 where "b0 = v mod 256"
  define b1 where "b1 = v div 256 mod 256"
  define b2 where "b2 = v div 65536 mod 256"
  define b3 where "b3 = v div 16777216 mod 256"
  note bdefs = b0_def b1_def b2_def b3_def
  have ib: "int_bytes x = [of_nat b0, of_nat b1, of_nat b2, of_nat b3]"
    unfolding int_bytes_def Let_def v(3) by (simp only: bdefs)
  have u: "unat (of_nat b0 :: byte) = b0" "unat (of_nat b1 :: byte) = b1"
    "unat (of_nat b2 :: byte) = b2" "unat (of_nat b3 :: byte) = b3"
    by (simp_all only: bdefs unat_byte)
  have n: "[a0, a1, a2, a3] ! 0 = a0" "[a0, a1, a2, a3] ! 1 = a1"
    "[a0, a1, a2, a3] ! 2 = a2" "[a0, a1, a2, a3] ! 3 = a3" for a0 a1 a2 a3 :: byte
    by simp_all
  have e: "b0 + 256 * b1 + 65536 * b2 + 16777216 * b3 = v"
    unfolding bdefs by (rule split4 [OF v(1)])
  have "int b0 + 256 * int b1 + 65536 * int b2 + 16777216 * int b3 = int v"
    using e by linarith
  then show ?thesis
    unfolding bytes_int_def ib n u Let_def using v(2) assms(2) by simp
qed

lemma rotate_eq_drop_take: "n \<le> length xs \<Longrightarrow> rotate n xs = drop n xs @ take n xs"
  by (cases "n = length xs") (simp_all add: rotate_drop_take)

lemma memcpy_write_view1:
  assumes "w < length mem" "w + length buf \<le> length mem"
  shows "rotate w (memcpy_into mem w buf) = buf @ drop (length buf) (rotate w mem)"
  using assms by (simp add: rotate_eq_drop_take memcpy_into_def add.commute)

lemma memcpy_write_view2:
  assumes "w < length mem" "length buf \<le> length mem" "length mem < w + length buf"
  shows "rotate w (memcpy_into (memcpy_into mem w (take (length mem - w) buf)) 0
           (take (w + length buf - length mem) (drop (length mem - w) buf)))
         = buf @ drop (length buf) (rotate w mem)"
  using assms by (simp add: rotate_eq_drop_take memcpy_into_def min_def)

lemma QUEUE_WRITE_frame [simp]:
  "cs_pid (QUEUE_WRITE cs buf) = cs_pid cs"
  "cs_node (QUEUE_WRITE cs buf) = cs_node cs"
  "cs_ntuples (QUEUE_WRITE cs buf) = cs_ntuples cs"
  "cs_status (QUEUE_WRITE cs buf) = cs_status cs"
  "cs_qlength (QUEUE_WRITE cs buf) = cs_qlength cs"
  "cs_qreadpos (QUEUE_WRITE cs buf) = cs_qreadpos cs"
  by (simp_all add: QUEUE_WRITE_def Let_def)

lemma QUEUE_WRITE_writepos:
  assumes "ring_ok cs" "int (length buf) \<le> cs_qlength cs"
  shows "cs_qwritepos (QUEUE_WRITE cs buf) = (cs_qwritepos cs + int (length buf)) mod cs_qlength cs"
proof -
  from assms(1) obtain r w N where c: "cs_qwritepos cs = int w" "cs_qlength cs = int N"
    and lt: "w < N" by (rule ring_okE)
  have k: "length buf \<le> N" using assms(2) c by simp
  have md: "(int w + int (length buf)) mod int N = int ((w + length buf) mod N)"
    by (simp add: zmod_int)
  show ?thesis
  proof (cases "w + length buf \<le> N")
    case True
    then show ?thesis unfolding QUEUE_WRITE_def Let_def c md
      by (simp add: of_nat_add [symmetric] del: of_nat_add)
  next
    case False
    then have "(w + length buf) mod N = w + length buf - N" using lt k by (simp add: le_mod_geq)
    with False show ?thesis unfolding QUEUE_WRITE_def Let_def c md
      by (simp add: of_nat_add [symmetric] del: of_nat_add)
  qed
qed

lemma QUEUE_WRITE_length:
  assumes "ring_ok cs" "int (length buf) \<le> cs_qlength cs"
  shows "length (cs_qstart (QUEUE_WRITE cs buf)) = length (cs_qstart cs)"
proof -
  from assms(1) obtain r w N where c: "cs_qwritepos cs = int w" "cs_qlength cs = int N"
    and l: "length (cs_qstart cs) = N" and lt: "w < N" by (rule ring_okE)
  have k: "length buf \<le> N" using assms(2) c by simp
  show ?thesis
  proof (cases "w + length buf \<le> N")
    case True
    then show ?thesis unfolding QUEUE_WRITE_def Let_def c using lt
      by (simp add: of_nat_add [symmetric] memcpy_into_def l del: of_nat_add)
  next
    case False
    have n: "nat (int N - int w) = N - w"
      "nat (int (length buf) - (int N - int w)) = w + length buf - N"
      using False lt by linarith+
    from False show ?thesis unfolding QUEUE_WRITE_def Let_def c n using lt k
      by (simp add: of_nat_add [symmetric] memcpy_into_def l min_def del: of_nat_add)
  qed
qed

lemma QUEUE_WRITE_rotate:
  assumes "ring_ok cs" "int (length buf) \<le> cs_qlength cs"
  shows "rotate (nat (cs_qwritepos cs)) (cs_qstart (QUEUE_WRITE cs buf))
         = buf @ drop (length buf) (rotate (nat (cs_qwritepos cs)) (cs_qstart cs))"
proof -
  from assms(1) obtain r w N where c: "cs_qwritepos cs = int w" "cs_qlength cs = int N"
    and l: "length (cs_qstart cs) = N" and lt: "w < N" by (rule ring_okE)
  have k: "length buf \<le> N" using assms(2) c by simp
  show ?thesis
  proof (cases "w + length buf \<le> N")
    case True
    have "cs_qstart (QUEUE_WRITE cs buf) = memcpy_into (cs_qstart cs) w buf"
      using True unfolding QUEUE_WRITE_def Let_def c
      by (simp add: of_nat_add [symmetric] del: of_nat_add)
    then show ?thesis unfolding c using memcpy_write_view1 [of w "cs_qstart cs" buf] True lt l
      by simp
  next
    case False
    have n: "nat (int N - int w) = N - w"
      "nat (int (length buf) - (int N - int w)) = w + length buf - N"
      using False lt by linarith+
    have "cs_qstart (QUEUE_WRITE cs buf) =
        memcpy_into (memcpy_into (cs_qstart cs) w (take (N - w) buf)) 0
          (take (w + length buf - N) (drop (N - w) buf))"
      using False unfolding QUEUE_WRITE_def Let_def c n
      by (simp add: of_nat_add [symmetric] del: of_nat_add)
    then show ?thesis unfolding c using memcpy_write_view2 [of w "cs_qstart cs" buf] False lt l k
      by simp
  qed
qed

lemma rotate_back: "u \<le> length xs \<Longrightarrow> rotate (length xs - u) (rotate u xs) = xs"
  by (simp add: rotate_rotate rotate_conv_mod [of "length xs" xs])

lemma view_write:
  assumes "u + length buf \<le> length V" "length V' = length V"
    "rotate u V' = buf @ drop (length buf) (rotate u V)"
  shows "V' = take u V @ buf @ drop (u + length buf) V"
proof -
  have u: "u \<le> length V" using assms(1) by simp
  have "rotate u V' = (buf @ drop (u + length buf) V) @ take u V"
    using assms(1) unfolding assms(3) rotate_eq_drop_take [OF u] by (simp add: add.commute)
  moreover have "length V' - u = length (buf @ drop (u + length buf) V)"
    using assms(1,2) by simp
  moreover have "V' = rotate (length V' - u) (rotate u V')"
    using rotate_back [of u V'] u assms(2) by simp
  ultimately show ?thesis by (simp only: rotate_append)
qed

lemma rotate_mod_add:
  assumes "xs \<noteq> []"
  shows "rotate ((r + u) mod length xs) xs = rotate u (rotate r xs)"
  by (simp add: rotate_rotate rotate_conv_mod [of "r + u" xs] add.commute)

lemma ring_relE:
  assumes "ring_rel cs u"
  obtains r N where "cs_qreadpos cs = int r" "cs_qwritepos cs = int ((r + u) mod N)"
    "cs_qlength cs = int N" "length (cs_qstart cs) = N" "r < N" "u \<le> N"
proof -
  from assms have ok: "ring_ok cs" and u: "int u \<le> cs_qlength cs"
    and w: "cs_qwritepos cs = (cs_qreadpos cs + int u) mod cs_qlength cs"
    by (simp_all add: ring_rel_def)
  from ok obtain r w' N where c: "cs_qreadpos cs = int r" "cs_qlength cs = int N"
    "length (cs_qstart cs) = N" and lt: "r < N"
    by (rule ring_okE)
  have "cs_qwritepos cs = int ((r + u) mod N)" unfolding w c by (simp add: zmod_int)
  moreover have "u \<le> N" using u c by simp
  ultimately show thesis using c lt by (intro that)
qed

lemma ring_relI:
  assumes "cs_qreadpos cs = int r" "cs_qwritepos cs = int ((r + u) mod N)"
    "cs_qlength cs = int N" "length (cs_qstart cs) = N" "r < N" "u \<le> N"
  shows "ring_rel cs u"
  unfolding ring_rel_def ring_ok_def assms(1,2,3,4) using assms(5,6)
  by (simp add: zmod_int)

lemma ring_write:
  assumes "ring_rel cs u" "int (u + length buf) \<le> cs_qlength cs"
  shows "ring_rel (QUEUE_WRITE cs buf) (u + length buf)"
    and "ring_view (QUEUE_WRITE cs buf)
         = take u (ring_view cs) @ buf @ drop (u + length buf) (ring_view cs)"
proof -
  from assms(1) obtain r N where c: "cs_qreadpos cs = int r"
    "cs_qwritepos cs = int ((r + u) mod N)" "cs_qlength cs = int N"
    and l: "length (cs_qstart cs) = N" and lt: "r < N" "u \<le> N"
    by (rule ring_relE)
  have ok: "ring_ok cs" using assms(1) by (simp add: ring_rel_def)
  have k: "u + length buf \<le> N" using assms(2) c by simp
  then have kl: "int (length buf) \<le> cs_qlength cs" using c by simp
  let ?cs = "QUEUE_WRITE cs buf"
  have l': "length (cs_qstart ?cs) = N" using QUEUE_WRITE_length [OF ok kl] l by simp
  have "cs_qwritepos ?cs = (int ((r + u) mod N) + int (length buf)) mod int N"
    using QUEUE_WRITE_writepos [OF ok kl] c by simp
  also have "\<dots> = int (((r + u) mod N + length buf) mod N)" by (simp add: zmod_int)
  also have "((r + u) mod N + length buf) mod N = (r + (u + length buf)) mod N"
    by (simp add: mod_add_left_eq add.assoc)
  finally have w': "cs_qwritepos ?cs = int ((r + (u + length buf)) mod N)" .
  show "ring_rel ?cs (u + length buf)"
    by (rule ring_relI [where r = r and N = N]) (simp_all add: c w' l' lt k)
  have ne: "cs_qstart cs \<noteq> []" "cs_qstart ?cs \<noteq> []" using l l' lt by auto
  have "rotate u (ring_view ?cs) = rotate ((r + u) mod N) (cs_qstart ?cs)"
    unfolding ring_view_def using rotate_mod_add [OF ne(2), of r u] l' c by simp
  also have "\<dots> = buf @ drop (length buf) (rotate ((r + u) mod N) (cs_qstart cs))"
    using QUEUE_WRITE_rotate [OF ok kl] c by simp
  also have "rotate ((r + u) mod N) (cs_qstart cs) = rotate u (ring_view cs)"
    unfolding ring_view_def using rotate_mod_add [OF ne(1), of r u] l c by simp
  finally have "rotate u (ring_view ?cs) = buf @ drop (length buf) (rotate u (ring_view cs))" .
  then show "ring_view ?cs = take u (ring_view cs) @ buf @ drop (u + length buf) (ring_view cs)"
    by (rule view_write [rotated 2]) (simp_all add: ring_view_def l l' k)
qed

lemma QUEUE_READ_frame [simp]:
  "cs_pid (snd (QUEUE_READ cs len)) = cs_pid cs"
  "cs_node (snd (QUEUE_READ cs len)) = cs_node cs"
  "cs_ntuples (snd (QUEUE_READ cs len)) = cs_ntuples cs"
  "cs_status (snd (QUEUE_READ cs len)) = cs_status cs"
  "cs_qlength (snd (QUEUE_READ cs len)) = cs_qlength cs"
  "cs_qwritepos (snd (QUEUE_READ cs len)) = cs_qwritepos cs"
  "cs_qstart (snd (QUEUE_READ cs len)) = cs_qstart cs"
  by (simp_all add: QUEUE_READ_def Let_def)

lemma QUEUE_READ_value:
  assumes "ring_ok cs" "k \<le> nat (cs_qlength cs)"
  shows "fst (QUEUE_READ cs (int k)) = take k (ring_view cs)"
    and "cs_qreadpos (snd (QUEUE_READ cs (int k))) = (cs_qreadpos cs + int k) mod cs_qlength cs"
proof -
  from assms(1) obtain r w N where c: "cs_qreadpos cs = int r" "cs_qlength cs = int N"
    and l: "length (cs_qstart cs) = N" and lt: "r < N" by (rule ring_okE)
  have k: "k \<le> N" using assms(2) c by simp
  have md: "(int r + int k) mod int N = int ((r + k) mod N)" by (simp add: zmod_int)
  have rv: "ring_view cs = drop r (cs_qstart cs) @ take r (cs_qstart cs)"
    unfolding ring_view_def c using rotate_eq_drop_take [of r "cs_qstart cs"] lt l by simp
  show "fst (QUEUE_READ cs (int k)) = take k (ring_view cs)"
  proof (cases "r + k \<le> N")
    case True
    then show ?thesis unfolding QUEUE_READ_def Let_def c rv
      by (simp add: of_nat_add [symmetric] memcpy_from_def l del: of_nat_add)
  next
    case False
    have n: "nat (int N - int r) = N - r" "nat (int k - (int N - int r)) = r + k - N"
      using False lt by linarith+
    have "k - (N - r) = r + k - N" "r + k - N \<le> r" using False lt k by simp_all
    with False show ?thesis unfolding QUEUE_READ_def Let_def c rv n using lt k
      by (simp add: of_nat_add [symmetric] memcpy_from_def l min_def del: of_nat_add)
  qed
  show "cs_qreadpos (snd (QUEUE_READ cs (int k))) = (cs_qreadpos cs + int k) mod cs_qlength cs"
  proof (cases "r + k \<le> N")
    case True
    then show ?thesis unfolding QUEUE_READ_def Let_def c md
      by (simp add: of_nat_add [symmetric] del: of_nat_add)
  next
    case False
    then have "(r + k) mod N = r + k - N" using lt k by (simp add: le_mod_geq)
    with False show ?thesis unfolding QUEUE_READ_def Let_def c md
      by (simp add: of_nat_add [symmetric] del: of_nat_add)
  qed
qed

lemma ring_read:
  assumes "ring_rel cs u" "k \<le> u"
  shows "fst (QUEUE_READ cs (int k)) = take k (ring_view cs)"
    and "ring_rel (snd (QUEUE_READ cs (int k))) (u - k)"
    and "ring_view (snd (QUEUE_READ cs (int k))) = rotate k (ring_view cs)"
proof -
  from assms(1) obtain r N where c: "cs_qreadpos cs = int r"
    "cs_qwritepos cs = int ((r + u) mod N)" "cs_qlength cs = int N"
    and l: "length (cs_qstart cs) = N" and lt: "r < N" "u \<le> N"
    by (rule ring_relE)
  have ok: "ring_ok cs" using assms(1) by (simp add: ring_rel_def)
  have k: "k \<le> nat (cs_qlength cs)" using assms(2) lt c by simp
  let ?cs = "snd (QUEUE_READ cs (int k))"
  show "fst (QUEUE_READ cs (int k)) = take k (ring_view cs)"
    by (rule QUEUE_READ_value(1) [OF ok k])
  have "cs_qreadpos ?cs = (int r + int k) mod int N"
    using QUEUE_READ_value(2) [OF ok k] c by simp
  then have r': "cs_qreadpos ?cs = int ((r + k) mod N)" by (simp add: zmod_int)
  have "((r + k) mod N + (u - k)) mod N = (r + k + (u - k)) mod N"
    by (simp add: mod_add_left_eq)
  then have w: "(r + u) mod N = ((r + k) mod N + (u - k)) mod N" using assms(2) by simp
  show "ring_rel ?cs (u - k)"
    by (rule ring_relI [where r = "(r + k) mod N" and N = N])
       (use lt in \<open>simp_all add: r' c l w [symmetric]\<close>)
  have ne: "cs_qstart cs \<noteq> []" using l lt by auto
  show "ring_view ?cs = rotate k (ring_view cs)"
    unfolding ring_view_def using rotate_mod_add [OF ne, of r k] r' c l by simp
qed

lemma ring_rel_update [simp]:
  "ring_rel (cs\<lparr>cs_ntuples := x\<rparr>) u = ring_rel cs u"
  "ring_rel (cs\<lparr>cs_status := s\<rparr>) u = ring_rel cs u"
  by (simp_all add: ring_rel_def ring_ok_def)

lemma ring_view_update [simp]:
  "ring_view (cs\<lparr>cs_ntuples := x\<rparr>) = ring_view cs"
  "ring_view (cs\<lparr>cs_status := s\<rparr>) = ring_view cs"
  by (simp_all add: ring_view_def)

lemma ring_chunks_status [simp]:
  "ring_chunks (cs\<lparr>cs_status := s\<rparr>) chunks = ring_chunks cs chunks"
  by (simp add: ring_chunks_def)

lemma ring_view_length: "ring_ok cs \<Longrightarrow> length (ring_view cs) = nat (cs_qlength cs)"
  by (simp add: ring_view_def ring_ok_def)

lemma ring_holds_chunks: "ring_holds cs ts \<longleftrightarrow> ring_chunks cs (map record_bytes ts)"
proof -
  have "[] \<notin> set (map record_bytes ts)" by (auto simp add: record_bytes_def int_bytes_def Let_def)
  then show ?thesis
    by (simp add: ring_holds_def ring_chunks_def length_queue_bytes [symmetric] queue_bytes_def)
qed

lemma size_t_id: "0 \<le> x \<Longrightarrow> x < 2147483648 \<Longrightarrow> size_t x = x"
  by (simp add: size_t_def)

lemma free_space_chunks:
  assumes "ring_chunks cs chunks"
  shows "QUEUE_FREE_SPACE cs = cs_qlength cs - int (length (concat chunks))"
proof -
  have "0 < length chunks \<longleftrightarrow> 0 < length (concat chunks)"
    using assms by (cases chunks) (auto simp add: ring_chunks_def)
  then have "0 < cs_ntuples cs \<longleftrightarrow> 0 < length (concat chunks)"
    using assms by (simp add: ring_chunks_def)
  with assms show ?thesis by (simp add: ring_chunks_def free_space_rel)
qed

text \<open>Writing a length and bytes after it adds a chunk.\<close>

lemma ring_chunks_write:
  assumes "ring_chunks cs chunks" "length a = 4"
    "int (length (concat chunks)) + 4 + int (length b) \<le> cs_qlength cs"
  shows "ring_chunks ((QUEUE_WRITE (QUEUE_WRITE cs a) b)\<lparr>cs_ntuples := cs_ntuples cs + 1\<rparr>)
           (chunks @ [a @ b])"
proof -
  let ?u = "length (concat chunks)"
  let ?V = "ring_view cs"
  let ?c1 = "QUEUE_WRITE cs a"
  let ?c2 = "QUEUE_WRITE ?c1 b"
  have rel: "ring_rel cs ?u" and n: "cs_ntuples cs = int (length chunks)"
    and v: "take ?u ?V = concat chunks" and ne: "[] \<notin> set chunks"
    using assms(1) by (simp_all add: ring_chunks_def)
  have ok: "ring_ok cs" using rel by (simp add: ring_rel_def)
  have lV: "length ?V = nat (cs_qlength cs)" by (rule ring_view_length [OF ok])
  have 1: "int (?u + length a) \<le> cs_qlength cs" using assms(2,3) by simp
  have r1: "ring_rel ?c1 (?u + length a)"
    and v1: "ring_view ?c1 = take ?u ?V @ a @ drop (?u + length a) ?V"
    using ring_write [OF rel 1] by simp_all
  have 2: "int (?u + length a + length b) \<le> cs_qlength ?c1" using assms(2,3) by simp
  have r2: "ring_rel ?c2 (?u + length a + length b)"
    and v2: "ring_view ?c2 = take (?u + length a) (ring_view ?c1) @ b
               @ drop (?u + length a + length b) (ring_view ?c1)"
    using ring_write [OF r1 2] by simp_all
  have lu: "?u \<le> length ?V" using lV assms(3) by simp
  have t1: "take (?u + length a) (ring_view ?c1) = concat chunks @ a"
    unfolding v1 using lu v by simp
  have len: "length (concat (chunks @ [a @ b])) = ?u + length a + length b" by simp
  have "take (?u + length a + length b) (ring_view ?c2) = concat chunks @ a @ b"
    unfolding v2 t1 by simp
  then show ?thesis
    unfolding ring_chunks_def len using r2 n ne assms(2) by auto
qed

text \<open>Reading a length and the bytes after it removes the first chunk.\<close>

lemma ring_chunks_read:
  assumes "ring_chunks cs ((a @ b) # chunks)" "length a = 4"
  shows "fst (QUEUE_READ cs 4) = a"
    and "fst (QUEUE_READ (snd (QUEUE_READ cs 4)) (int (length b))) = b"
    and "ring_chunks
           ((snd (QUEUE_READ (snd (QUEUE_READ cs 4)) (int (length b))))
              \<lparr>cs_ntuples := cs_ntuples cs - 1\<rparr>) chunks"
proof -
  let ?u = "length (concat chunks)"
  let ?U = "4 + length b + ?u"
  let ?V = "ring_view cs"
  let ?c1 = "snd (QUEUE_READ cs (int 4))"
  let ?c2 = "snd (QUEUE_READ ?c1 (int (length b)))"
  have U: "length (concat ((a @ b) # chunks)) = ?U" using assms(2) by simp
  have rel: "ring_rel cs ?U" and n: "cs_ntuples cs = 1 + int (length chunks)"
    and v: "take ?U ?V = a @ b @ concat chunks" and ne: "[] \<notin> set chunks"
    using assms(1) unfolding ring_chunks_def U by simp_all
  have ok: "ring_ok cs" using rel by (simp add: ring_rel_def)
  have lV: "length ?V = nat (cs_qlength cs)" by (rule ring_view_length [OF ok])
  have "int ?U \<le> cs_qlength cs" using rel unfolding ring_rel_def by simp
  then have UL: "?U \<le> length ?V" unfolding lV by linarith
  have 4: "4 \<le> ?U" by simp
  have a: "fst (QUEUE_READ cs (int 4)) = take 4 ?V"
    and r1: "ring_rel ?c1 (?U - 4)" and v1: "ring_view ?c1 = rotate 4 ?V"
    using ring_read [OF rel 4] by simp_all
  have "take 4 ?V = take 4 (take ?U ?V)" by simp
  also have "\<dots> = a" unfolding v using assms(2) by simp
  finally have ta: "take 4 ?V = a" .
  show "fst (QUEUE_READ cs 4) = a" using a ta by simp
  have b: "length b \<le> ?U - 4" by simp
  have fb: "fst (QUEUE_READ ?c1 (int (length b))) = take (length b) (ring_view ?c1)"
    and r2: "ring_rel ?c2 (?U - 4 - length b)"
    and v2: "ring_view ?c2 = rotate (length b) (ring_view ?c1)"
    using ring_read [OF r1 b] by simp_all
  have V: "?V = a @ b @ concat chunks @ drop ?U ?V"
    using append_take_drop_id [of ?U ?V] unfolding v by simp
  have rot: "rotate (4 + length b) ?V = concat chunks @ drop ?U ?V @ a @ b"
  proof -
    have "rotate (length (a @ b)) ((a @ b) @ (concat chunks @ drop ?U ?V))
        = (concat chunks @ drop ?U ?V) @ (a @ b)"
      by (rule rotate_append)
    then show ?thesis using V assms(2) by simp
  qed
  have rot4: "rotate 4 ?V = b @ concat chunks @ drop ?U ?V @ a"
  proof -
    have "rotate (length a) (a @ (b @ concat chunks @ drop ?U ?V))
        = (b @ concat chunks @ drop ?U ?V) @ a"
      by (rule rotate_append)
    then show ?thesis using V assms(2) by simp
  qed
  have "fst (QUEUE_READ ?c1 (int (length b))) = b" unfolding fb v1 rot4 by simp
  then show "fst (QUEUE_READ (snd (QUEUE_READ cs 4)) (int (length b))) = b" by simp
  have "ring_view ?c2 = rotate (4 + length b) ?V"
    unfolding v2 v1 by (simp add: rotate_rotate add.commute)
  then have "take ?u (ring_view ?c2) = concat chunks" unfolding rot by simp
  moreover have "ring_rel ?c2 ?u" using r2 by simp
  ultimately have "ring_chunks (?c2\<lparr>cs_ntuples := cs_ntuples cs - 1\<rparr>) chunks"
    unfolding ring_chunks_def using n ne by simp
  then show "ring_chunks
           ((snd (QUEUE_READ (snd (QUEUE_READ cs 4)) (int (length b))))
              \<lparr>cs_ntuples := cs_ntuples cs - 1\<rparr>) chunks" by simp
qed

lemma QUEUE_WRITE_ntuples:
  "QUEUE_WRITE (cs\<lparr>cs_ntuples := x\<rparr>) buf = (QUEUE_WRITE cs buf)\<lparr>cs_ntuples := x\<rparr>"
  by (simp add: QUEUE_WRITE_def Let_def)

lemma ring_chunks_Nil: "ring_chunks cs [] \<longleftrightarrow> ring_rel cs 0 \<and> cs_ntuples cs = 0"
  by (auto simp add: ring_chunks_def)

text \<open>A piece written into an empty queue, whatever \<open>cs_ntuples\<close> was.\<close>

lemma ring_chunks_first:
  assumes "ring_rel cs 0" "length a = 4" "4 + int (length b) \<le> cs_qlength cs"
  shows "ring_chunks ((QUEUE_WRITE (QUEUE_WRITE cs a) b)\<lparr>cs_ntuples := 1\<rparr>) [a @ b]"
proof -
  have "ring_chunks (cs\<lparr>cs_ntuples := 0\<rparr>) []" using assms(1) by (simp add: ring_chunks_Nil)
  from ring_chunks_write [OF this assms(2)] assms(3)
  show ?thesis by (simp add: QUEUE_WRITE_ntuples)
qed

lemma fragment_length:
  "length (fragment m t k) = 4 + min m (length t - k)"
  by (simp add: fragment_def min.commute)

lemma push_first:
  assumes "ring_chunks cs []" "4 < cs_qlength cs"
  shows "\<exists>cs'. sq_push_long_tuple cs d = (False, cs') \<and>
           ring_chunks cs' [fragment (room cs) d 0] \<and>
           cs_status cs' = cs_status cs \<and> cs_qlength cs' = cs_qlength cs"
proof -
  have rel: "ring_rel cs 0" and n: "cs_ntuples cs = 0"
    using assms(1) by (simp_all add: ring_chunks_Nil)
  have m: "nat (cs_qlength cs - 4) = room cs" by (simp add: room_def)
  have "4 + int (length (take (room cs) d)) \<le> cs_qlength cs"
    using assms(2) by (simp add: room_def)
  from ring_chunks_first [OF rel _ this, of "int_bytes (int (length d))"]
  show ?thesis
    by (simp add: sq_push_long_tuple_def n Let_def m fragment_def)
qed

lemma push_next:
  assumes "ring_rel cs 0" "cs_ntuples cs = LONG_TUPLE"
    "take 4 (cs_qstart cs) = int_bytes (int k)" "k < length d" "length d < 2147483648"
    "4 < cs_qlength cs" "cs_qlength cs < 2147483648"
  shows "\<exists>cs'. sq_push_long_tuple cs d = (length d - k \<le> room cs, cs') \<and>
           ring_chunks cs' [fragment (room cs) d k] \<and>
           cs_status cs' = cs_status cs \<and> cs_qlength cs' = cs_qlength cs"
proof -
  have n: "cs_ntuples cs \<noteq> 0" using assms(2) by (simp add: LONG_TUPLE_def)
  have off: "bytes_int (memcpy_from (cs_qstart cs) 0 4) = int k"
    using assms(3,4,5) by (simp add: memcpy_from_def bytes_int_int_bytes)
  have m: "nat (cs_qlength cs - 4) = room cs" by (simp add: room_def)
  have im: "cs_qlength cs - 4 = int (room cs)" using assms(6) by (simp add: room_def)
  let ?len = "int (length d) - int k"
  have len: "?len = int (length d - k)" "nat ?len = length d - k" using assms(4) by simp_all
  have "int (length d - k) < 2147483648" using assms(5) by linarith
  then have s1: "size_t (int (length d - k)) = int (length d - k)"
    by (intro size_t_id) simp_all
  have s2: "size_t (cs_qlength cs - 4) = int (room cs)"
    unfolding im using assms(7) im by (intro size_t_id) simp_all
  have b: "4 + int (length (take (room cs) (drop k d))) \<le> cs_qlength cs"
    using assms(6) by (simp add: room_def)
  let ?c1 = "QUEUE_WRITE cs (int_bytes ?len)"
  have frag: "ring_chunks ((QUEUE_WRITE ?c1 (take (room cs) (drop k d)))\<lparr>cs_ntuples := 1\<rparr>)
      [fragment (room cs) d k]"
    using ring_chunks_first [OF assms(1) _ b, of "int_bytes ?len"] by (simp add: fragment_def)
  show ?thesis
  proof (cases "length d - k \<le> room cs")
    case True
    then have "take (length d - k) (drop k d) = take (room cs) (drop k d)" by simp
    with True frag show ?thesis
      unfolding sq_push_long_tuple_def Let_def off len s1
      by (simp add: n s2)
  next
    case False
    with frag show ?thesis
      unfolding sq_push_long_tuple_def Let_def off len s1
      by (simp add: n m s2)
  qed
qed

lemma chunks_bound:
  assumes "ring_chunks cs chunks"
  shows "int (length (concat chunks)) \<le> cs_qlength cs"
  using assms by (simp add: ring_chunks_def ring_rel_def)

lemma size_t_free:
  assumes "ring_chunks cs chunks" "cs_qlength cs < 2147483648"
  shows "size_t (QUEUE_FREE_SPACE cs) = cs_qlength cs - int (length (concat chunks))"
  unfolding free_space_chunks [OF assms(1)]
  using chunks_bound [OF assms(1)] assms(2) by (intro size_t_id) simp_all

lemma ring_chunks_record:
  assumes "ring_chunks cs chunks"
    "\<not> cs_qlength cs - int (length (concat chunks)) < 4 + int (length d)"
  shows "ring_chunks
    ((QUEUE_WRITE (QUEUE_WRITE cs (int_bytes (int (length d)))) d)
       \<lparr>cs_ntuples := cs_ntuples cs + 1\<rparr>) (chunks @ [record_bytes d])"
  unfolding record_bytes_def using assms(2)
  by (intro ring_chunks_write [OF assms(1)]) simp_all

lemma dump_loop_chunks:
  assumes "ring_chunks cs chunks" "4 < cs_qlength cs" "cs_qlength cs < 2147483648"
    "SharedQueueDump_loop cs st = (b, cs', st')"
  shows "cs_status cs' = cs_status cs \<and> cs_qlength cs' = cs_qlength cs \<and>
     (\<exists>moved. st = moved @ st' \<and> (b \<longrightarrow> st' = []) \<and>
        (ring_chunks cs' (chunks @ map record_bytes moved) \<or>
         (chunks = [] \<and> moved = [] \<and> \<not> b \<and>
          (\<exists>t rest. st' = t # rest \<and> room cs < length t \<and>
             ring_chunks cs' [fragment (room cs) t 0]))))"
  using assms
proof (induction st arbitrary: cs chunks)
  case Nil
  then show ?case by auto
next
  case (Cons d rest)
  note ch = \<open>ring_chunks cs chunks\<close>
  note run = \<open>SharedQueueDump_loop cs (d # rest) = (b, cs', st')\<close>
  have free: "size_t (QUEUE_FREE_SPACE cs) = cs_qlength cs - int (length (concat chunks))"
    using size_t_free [OF ch Cons.prems(3)] .
  show ?case
  proof (cases "cs_qlength cs - int (length (concat chunks)) < 4 + int (length d)")
    case fits: False
    let ?c = "(QUEUE_WRITE (QUEUE_WRITE cs (int_bytes (int (length d)))) d)
       \<lparr>cs_ntuples := cs_ntuples cs + 1\<rparr>"
    have ch': "ring_chunks ?c (chunks @ [record_bytes d])"
      by (rule ring_chunks_record [OF ch fits])
    have run': "SharedQueueDump_loop ?c rest = (b, cs', st')"
      using run fits free by (simp add: Let_def)
    have "cs_status cs' = cs_status ?c \<and> cs_qlength cs' = cs_qlength ?c \<and>
     (\<exists>moved. rest = moved @ st' \<and> (b \<longrightarrow> st' = []) \<and>
        (ring_chunks cs' ((chunks @ [record_bytes d]) @ map record_bytes moved) \<or>
         (chunks @ [record_bytes d] = [] \<and> moved = [] \<and> \<not> b \<and>
          (\<exists>t rest. st' = t # rest \<and> room ?c < length t \<and>
             ring_chunks cs' [fragment (room ?c) t 0]))))"
      by (rule Cons.IH [OF ch' _ _ run']) (use Cons.prems in simp_all)
    then obtain moved where m: "rest = moved @ st'" "b \<longrightarrow> st' = []"
      "ring_chunks cs' (chunks @ map record_bytes (d # moved))"
      and fr: "cs_status cs' = cs_status cs" "cs_qlength cs' = cs_qlength cs"
      by auto
    have "d # rest = (d # moved) @ st'" using m(1) by simp
    with m(2,3) fr show ?thesis by blast
  next
    case full: True
    show ?thesis
    proof (cases "cs_ntuples cs \<le> 0")
      case True
      then have e: "chunks = []" using ch by (simp add: ring_chunks_def)
      from push_first [of cs d] ch e Cons.prems(2) obtain c1 where
        p: "sq_push_long_tuple cs d = (False, c1)" "ring_chunks c1 [fragment (room cs) d 0]"
          "cs_status c1 = cs_status cs" "cs_qlength c1 = cs_qlength cs"
        by auto
      have r: "b = False" "cs' = c1" "st' = d # rest"
        using run full free True p(1) by simp_all
      have "room cs < length d" using full e Cons.prems(2) by (simp add: room_def)
      with p r e show ?thesis by auto
    next
      case False
      then have "b = False" "cs' = cs" "st' = d # rest"
        using run full free by simp_all
      with ch show ?thesis by auto
    qed
  qed
qed

lemma write_row_chunks:
  assumes "ring_chunks cs chunks" "cs_qlength cs < 2147483648"
    "cs_status cs = CONSUMER_ACTIVE" "SharedQueueWrite_row cs d st = (cs', st')"
  shows "cs_status cs' = cs_status cs \<and> cs_qlength cs' = cs_qlength cs \<and>
     ((ring_chunks cs' (chunks @ [record_bytes d]) \<and> st' = st) \<or>
      (cs' = cs \<and> st' = Some (stored st @ [d])))"
proof (cases "cs_qlength cs - int (length (concat chunks)) < 4 + int (length d)")
  case True
  then show ?thesis
    using assms(4) size_t_free [OF assms(1,2)]
    by (auto simp add: SharedQueueWrite_row_def stored_def)
next
  case False
  from ring_chunks_record [OF assms(1) False] False show ?thesis
    using assms(3,4) size_t_free [OF assms(1,2)]
    by (auto simp add: SharedQueueWrite_row_def Let_def)
qed

lemma write_chunks:
  assumes "ring_chunks cs chunks" "4 < cs_qlength cs" "cs_qlength cs < 2147483648"
    "cs_status cs = CONSUMER_ACTIVE" "SharedQueueWrite cs d st = (cs', st')"
  shows "cs_status cs' = cs_status cs \<and> cs_qlength cs' = cs_qlength cs \<and>
     (\<exists>moved. stored st @ [d] = moved @ stored st' \<and>
        (ring_chunks cs' (chunks @ map record_bytes moved) \<or>
         (chunks = [] \<and> moved = [] \<and>
          (\<exists>t rest. st' = Some (t # rest) \<and> room cs < length t \<and>
             ring_chunks cs' [fragment (room cs) t 0]))))"
proof (cases st)
  case None
  then have "SharedQueueWrite_row cs d None = (cs', st')"
    using assms(5) by (simp add: SharedQueueWrite_def)
  from write_row_chunks [OF assms(1,3,4) this]
  consider "ring_chunks cs' (chunks @ [record_bytes d])" "st' = None"
      "cs_status cs' = cs_status cs" "cs_qlength cs' = cs_qlength cs"
    | "cs' = cs" "st' = Some [d]"
    by (auto simp add: stored_def)
  then show ?thesis
  proof cases
    case 1
    have "stored st @ [d] = [d] @ stored st'" using None 1(2) by (simp add: stored_def)
    moreover have "ring_chunks cs' (chunks @ map record_bytes [d])" using 1(1) by simp
    ultimately show ?thesis using 1(3,4) by blast
  next
    case 2
    have "stored st @ [d] = [] @ stored st'" using None 2(2) by (simp add: stored_def)
    moreover have "ring_chunks cs' (chunks @ map record_bytes [])" using 2(1) assms(1) by simp
    ultimately show ?thesis using 2(1) by blast
  qed
next
  case (Some s)
  show ?thesis
  proof (cases "QUEUE_FREE_SPACE cs > cs_qlength cs div 2")
    case False
    then have r: "cs' = cs" "st' = Some (s @ [d])"
      using assms(5) Some by (simp_all add: SharedQueueWrite_def)
    have "stored st @ [d] = [] @ stored st'" using Some r(2) by (simp add: stored_def)
    moreover have "ring_chunks cs' (chunks @ map record_bytes [])" using r(1) assms(1) by simp
    ultimately show ?thesis using r(1) by blast
  next
    case True
    obtain b c1 s1 where dl: "SharedQueueDump_loop cs s = (b, c1, s1)"
      by (cases "SharedQueueDump_loop cs s") auto
    then have dump: "SharedQueueDump cs s = (b, c1, s1)"
      using assms(4) by (simp add: SharedQueueDump_def)
    from dump_loop_chunks [OF assms(1,2,3) dl] obtain moved where
      fr: "cs_status c1 = cs_status cs" "cs_qlength c1 = cs_qlength cs"
      and m: "s = moved @ s1" "b \<longrightarrow> s1 = []"
      and alt: "ring_chunks c1 (chunks @ map record_bytes moved) \<or>
         (chunks = [] \<and> moved = [] \<and> \<not> b \<and>
          (\<exists>t rest. s1 = t # rest \<and> room cs < length t \<and>
             ring_chunks c1 [fragment (room cs) t 0]))"
      by auto
    show ?thesis
    proof (cases b)
      case False
      then have r: "cs' = c1" "st' = Some (s1 @ [d])"
        using assms(5) Some True dump by (simp_all add: SharedQueueWrite_def)
      have "stored st @ [d] = moved @ stored st'" using Some r(2) m(1) by (simp add: stored_def)
      moreover have "ring_chunks cs' (chunks @ map record_bytes moved) \<or>
         (chunks = [] \<and> moved = [] \<and>
          (\<exists>t rest. st' = Some (t # rest) \<and> room cs < length t \<and>
             ring_chunks cs' [fragment (room cs) t 0]))"
        using alt r by auto
      ultimately show ?thesis using fr r(1) by blast
    next
      case b: True
      then have s1: "s1 = []" and ch1: "ring_chunks c1 (chunks @ map record_bytes s)"
        using m alt by auto
      have row: "SharedQueueWrite_row c1 d (Some []) = (cs', st')"
        using assms(5) Some True dump b s1 by (simp add: SharedQueueWrite_def)
      have a1: "cs_status c1 = CONSUMER_ACTIVE" "cs_qlength c1 < 2147483648"
        using fr assms(3,4) by simp_all
      from write_row_chunks [OF ch1 a1(2,1) row]
      consider "ring_chunks cs' ((chunks @ map record_bytes s) @ [record_bytes d])"
          "st' = Some []" "cs_status cs' = cs_status c1" "cs_qlength cs' = cs_qlength c1"
        | "cs' = c1" "st' = Some [d]"
        by (auto simp add: stored_def)
      then show ?thesis
      proof cases
        case 1
        have "stored st @ [d] = (s @ [d]) @ stored st'" using Some 1(2) by (simp add: stored_def)
        moreover have "ring_chunks cs' (chunks @ map record_bytes (s @ [d]))" using 1(1) by simp
        ultimately show ?thesis using 1(3,4) fr by metis
      next
        case 2
        have "stored st @ [d] = s @ stored st'" using Some 2(2) by (simp add: stored_def)
        then show ?thesis using 2(1) ch1 fr by blast
      qed
    qed
  qed
qed

lemma finish_chunks:
  assumes "ring_chunks cs chunks" "4 < cs_qlength cs" "cs_qlength cs < 2147483648"
    "cs_status cs = CONSUMER_ACTIVE" "SharedQueueFinish_slot cs st = (cs', st', x)"
  shows "cs_qlength cs' = cs_qlength cs \<and>
     (\<exists>moved. stored st = moved @ stored st' \<and>
        (cs_status cs' = CONSUMER_EOF \<and> st' = None \<or> cs_status cs' = CONSUMER_ACTIVE) \<and>
        (ring_chunks cs' (chunks @ map record_bytes moved) \<or>
         (chunks = [] \<and> moved = [] \<and> cs_status cs' = CONSUMER_ACTIVE \<and>
          (\<exists>t rest. st' = Some (t # rest) \<and> room cs < length t \<and>
             ring_chunks cs' [fragment (room cs) t 0]))))"
proof (cases st)
  case None
  then have r: "cs' = cs\<lparr>cs_status := CONSUMER_EOF\<rparr>" "st' = None"
    using assms(4,5) by (simp_all add: SharedQueueFinish_slot_def)
  have "stored st = [] @ stored st'" using None r(2) by (simp add: stored_def)
  moreover have "ring_chunks cs' (chunks @ map record_bytes [])" using r(1) assms(1) by simp
  ultimately show ?thesis using r by fastforce
next
  case (Some s)
  show ?thesis
  proof (cases "QUEUE_FREE_SPACE cs > cs_qlength cs div 2")
    case False
    then have r: "cs' = cs" "st' = Some s"
      using assms(4,5) Some by (simp_all add: SharedQueueFinish_slot_def)
    have "stored st = [] @ stored st'" using Some r(2) by (simp add: stored_def)
    moreover have "ring_chunks cs' (chunks @ map record_bytes [])" using r(1) assms(1) by simp
    ultimately show ?thesis using r(1) assms(4) by blast
  next
    case True
    obtain b c1 s1 where dl: "SharedQueueDump_loop cs s = (b, c1, s1)"
      by (cases "SharedQueueDump_loop cs s") auto
    then have dump: "SharedQueueDump cs s = (b, c1, s1)"
      using assms(4) by (simp add: SharedQueueDump_def)
    from dump_loop_chunks [OF assms(1,2,3) dl] obtain moved where
      fr: "cs_status c1 = cs_status cs" "cs_qlength c1 = cs_qlength cs"
      and m: "s = moved @ s1" "b \<longrightarrow> s1 = []"
      and alt: "ring_chunks c1 (chunks @ map record_bytes moved) \<or>
         (chunks = [] \<and> moved = [] \<and> \<not> b \<and>
          (\<exists>t rest. s1 = t # rest \<and> room cs < length t \<and>
             ring_chunks c1 [fragment (room cs) t 0]))"
      by auto
    show ?thesis
    proof (cases b)
      case False
      then have r: "cs' = c1" "st' = Some s1"
        using assms(4,5) Some True dump by (simp_all add: SharedQueueFinish_slot_def)
      have "stored st = moved @ stored st'" using Some r(2) m(1) by (simp add: stored_def)
      moreover have "cs_status cs' = CONSUMER_ACTIVE" using r fr assms(4) by simp
      moreover have "ring_chunks cs' (chunks @ map record_bytes moved) \<or>
         (chunks = [] \<and> moved = [] \<and> cs_status cs' = CONSUMER_ACTIVE \<and>
          (\<exists>t rest. st' = Some (t # rest) \<and> room cs < length t \<and>
             ring_chunks cs' [fragment (room cs) t 0]))"
        using alt r fr assms(4) by auto
      ultimately show ?thesis using fr r(1) by blast
    next
      case b: True
      then have s1: "s1 = []" and ch1: "ring_chunks c1 (chunks @ map record_bytes s)"
        using m alt by auto
      have r: "cs' = c1\<lparr>cs_status := CONSUMER_EOF\<rparr>" "st' = None"
        using assms(4,5) Some True dump b by (simp_all add: SharedQueueFinish_slot_def)
      have "stored st = s @ stored st'" using Some r(2) by (simp add: stored_def)
      moreover have "ring_chunks cs' (chunks @ map record_bytes s)" using r(1) ch1 by simp
      ultimately show ?thesis using r fr by fastforce
    qed
  qed
qed

lemma await_free:
  assumes "cs_ntuples cs = LONG_TUPLE" "4 < cs_qlength cs" "cs_qlength cs < 2147483648"
  shows "QUEUE_FREE_SPACE cs = cs_qlength cs" "size_t (QUEUE_FREE_SPACE cs) = cs_qlength cs"
    "QUEUE_FREE_SPACE cs > cs_qlength cs div 2" "cs_ntuples cs \<le> 0"
proof -
  show n: "cs_ntuples cs \<le> 0" using assms(1) by (simp add: LONG_TUPLE_def)
  then show f: "QUEUE_FREE_SPACE cs = cs_qlength cs" by (rule free_space_empty)
  show "size_t (QUEUE_FREE_SPACE cs) = cs_qlength cs"
    unfolding f using assms(2,3) by (intro size_t_id) simp_all
  show "QUEUE_FREE_SPACE cs > cs_qlength cs div 2" unfolding f using assms(2) by simp
qed

lemma dump_loop_await:
  assumes "ring_rel cs 0" "cs_ntuples cs = LONG_TUPLE"
    "take 4 (cs_qstart cs) = int_bytes (int k)" "k < length t" "length t < 2147483648"
    "4 < cs_qlength cs" "cs_qlength cs < 2147483648" "room cs < length t"
    "SharedQueueDump_loop cs (t # rest) = (b, cs', st')"
  shows "cs_status cs' = cs_status cs \<and> cs_qlength cs' = cs_qlength cs \<and>
     ((room cs < length t - k \<and> \<not> b \<and> st' = t # rest \<and>
       ring_chunks cs' [fragment (room cs) t k]) \<or>
      (length t - k \<le> room cs \<and>
       (\<exists>moved. rest = moved @ st' \<and> (b \<longrightarrow> st' = []) \<and>
          ring_chunks cs' (fragment (room cs) t k # map record_bytes moved))))"
proof -
  have full: "size_t (QUEUE_FREE_SPACE cs) < 4 + int (length t)"
    unfolding await_free(2) [OF assms(2,6,7)] using assms(8) by (simp add: room_def)
  have n: "cs_ntuples cs \<le> 0" by (rule await_free(4) [OF assms(2,6,7)])
  from push_next [OF assms(1,2,3,4,5,6,7)] obtain c1 where
    p: "sq_push_long_tuple cs t = (length t - k \<le> room cs, c1)"
      "ring_chunks c1 [fragment (room cs) t k]"
      "cs_status c1 = cs_status cs" "cs_qlength c1 = cs_qlength cs"
    by auto
  show ?thesis
  proof (cases "length t - k \<le> room cs")
    case False
    then have "b = False" "cs' = c1" "st' = t # rest"
      using assms(9) full n p(1) by simp_all
    with False p show ?thesis by auto
  next
    case True
    then have run: "SharedQueueDump_loop c1 rest = (b, cs', st')"
      using assms(9) full n p(1) by simp
    have e: "4 < cs_qlength c1" "cs_qlength c1 < 2147483648" using p(4) assms(6,7) by simp_all
    from dump_loop_chunks [OF p(2) e run] obtain moved where
      "rest = moved @ st'" "b \<longrightarrow> st' = []"
      "ring_chunks cs' ([fragment (room cs) t k] @ map record_bytes moved)"
      "cs_status cs' = cs_status c1" "cs_qlength cs' = cs_qlength c1"
      by auto
    with True p(3,4) show ?thesis by auto
  qed
qed

lemma write_await:
  assumes "ring_rel cs 0" "cs_ntuples cs = LONG_TUPLE"
    "take 4 (cs_qstart cs) = int_bytes (int k)" "k < length t" "length t < 2147483648"
    "4 < cs_qlength cs" "cs_qlength cs < 2147483648" "room cs < length t"
    "cs_status cs = CONSUMER_ACTIVE"
    "SharedQueueWrite cs d (Some (t # rest)) = (cs', st')"
  shows "cs_status cs' = cs_status cs \<and> cs_qlength cs' = cs_qlength cs \<and>
     ((room cs < length t - k \<and> st' = Some (t # rest @ [d]) \<and>
       ring_chunks cs' [fragment (room cs) t k]) \<or>
      (length t - k \<le> room cs \<and>
       (\<exists>moved. rest @ [d] = moved @ stored st' \<and>
          ring_chunks cs' (fragment (room cs) t k # map record_bytes moved))))"
proof -
  have half: "QUEUE_FREE_SPACE cs > cs_qlength cs div 2"
    by (rule await_free(3) [OF assms(2,6,7)])
  obtain b c1 s1 where dl: "SharedQueueDump_loop cs (t # rest) = (b, c1, s1)"
    by (cases "SharedQueueDump_loop cs (t # rest)") auto
  then have dump: "SharedQueueDump cs (t # rest) = (b, c1, s1)"
    using assms(9) by (simp add: SharedQueueDump_def)
  note d = dump_loop_await [OF assms(1,2,3,4,5,6,7,8) dl]
  then have fr: "cs_status c1 = cs_status cs" "cs_qlength c1 = cs_qlength cs" by simp_all
  show ?thesis
  proof (cases b)
    case False
    then have r: "cs' = c1" "st' = Some (s1 @ [d])"
      using assms(10) half dump by (simp_all add: SharedQueueWrite_def)
    from d consider "room cs < length t - k" "s1 = t # rest"
        "ring_chunks c1 [fragment (room cs) t k]"
      | moved where "length t - k \<le> room cs" "rest = moved @ s1"
        "ring_chunks c1 (fragment (room cs) t k # map record_bytes moved)"
      by auto
    then show ?thesis
    proof cases
      case 1
      then show ?thesis using r fr by simp
    next
      case 2
      have "rest @ [d] = moved @ stored st'" using 2(2) r(2) by (simp add: stored_def)
      then show ?thesis using 2(1,3) r(1) fr by auto
    qed
  next
    case b: True
    with d have le: "length t - k \<le> room cs" and s1: "s1 = []"
      and ch1: "ring_chunks c1 (fragment (room cs) t k # map record_bytes rest)"
      by auto
    have row: "SharedQueueWrite_row c1 d (Some []) = (cs', st')"
      using assms(10) half dump b s1 by (simp add: SharedQueueWrite_def)
    have a1: "cs_status c1 = CONSUMER_ACTIVE" "cs_qlength c1 < 2147483648"
      using fr assms(7,9) by simp_all
    from write_row_chunks [OF ch1 a1(2,1) row]
    consider "ring_chunks cs' ((fragment (room cs) t k # map record_bytes rest) @ [record_bytes d])"
        "st' = Some []" "cs_status cs' = cs_status c1" "cs_qlength cs' = cs_qlength c1"
      | "cs' = c1" "st' = Some [d]"
      by (auto simp add: stored_def)
    then show ?thesis
    proof cases
      case 1
      have "rest @ [d] = (rest @ [d]) @ stored st'" using 1(2) by (simp add: stored_def)
      moreover have "ring_chunks cs' (fragment (room cs) t k # map record_bytes (rest @ [d]))"
        using 1(1) by simp
      ultimately show ?thesis using 1(3,4) fr le by metis
    next
      case 2
      have "rest @ [d] = rest @ stored st'" using 2(2) by (simp add: stored_def)
      then show ?thesis using 2(1) ch1 fr le by blast
    qed
  qed
qed

lemma finish_await:
  assumes "ring_rel cs 0" "cs_ntuples cs = LONG_TUPLE"
    "take 4 (cs_qstart cs) = int_bytes (int k)" "k < length t" "length t < 2147483648"
    "4 < cs_qlength cs" "cs_qlength cs < 2147483648" "room cs < length t"
    "cs_status cs = CONSUMER_ACTIVE"
    "SharedQueueFinish_slot cs (Some (t # rest)) = (cs', st', x)"
  shows "cs_qlength cs' = cs_qlength cs \<and>
     ((room cs < length t - k \<and> st' = Some (t # rest) \<and> cs_status cs' = CONSUMER_ACTIVE \<and>
       ring_chunks cs' [fragment (room cs) t k]) \<or>
      (length t - k \<le> room cs \<and>
       (\<exists>moved. rest = moved @ stored st' \<and>
          (cs_status cs' = CONSUMER_EOF \<and> st' = None \<or> cs_status cs' = CONSUMER_ACTIVE) \<and>
          ring_chunks cs' (fragment (room cs) t k # map record_bytes moved))))"
proof -
  have half: "QUEUE_FREE_SPACE cs > cs_qlength cs div 2"
    by (rule await_free(3) [OF assms(2,6,7)])
  obtain b c1 s1 where dl: "SharedQueueDump_loop cs (t # rest) = (b, c1, s1)"
    by (cases "SharedQueueDump_loop cs (t # rest)") auto
  then have dump: "SharedQueueDump cs (t # rest) = (b, c1, s1)"
    using assms(9) by (simp add: SharedQueueDump_def)
  note d = dump_loop_await [OF assms(1,2,3,4,5,6,7,8) dl]
  then have fr: "cs_status c1 = cs_status cs" "cs_qlength c1 = cs_qlength cs" by simp_all
  show ?thesis
  proof (cases b)
    case False
    then have r: "cs' = c1" "st' = Some s1"
      using assms(9,10) half dump by (simp_all add: SharedQueueFinish_slot_def)
    from d consider "room cs < length t - k" "s1 = t # rest"
        "ring_chunks c1 [fragment (room cs) t k]"
      | moved where "length t - k \<le> room cs" "rest = moved @ s1"
        "ring_chunks c1 (fragment (room cs) t k # map record_bytes moved)"
      by auto
    then show ?thesis
    proof cases
      case 1
      then show ?thesis using r fr assms(9) by simp
    next
      case 2
      have "rest = moved @ stored st'" using 2(2) r(2) by (simp add: stored_def)
      then show ?thesis using 2(1,3) r(1) fr assms(9) by auto
    qed
  next
    case b: True
    with d have le: "length t - k \<le> room cs" and s1: "s1 = []"
      and ch1: "ring_chunks c1 (fragment (room cs) t k # map record_bytes rest)"
      by auto
    have r: "cs' = c1\<lparr>cs_status := CONSUMER_EOF\<rparr>" "st' = None"
      using assms(9,10) half dump b by (simp_all add: SharedQueueFinish_slot_def)
    have "rest = rest @ stored st'" using r(2) by (simp add: stored_def)
    moreover have "ring_chunks cs' (fragment (room cs) t k # map record_bytes rest)"
      using r(1) ch1 by simp
    ultimately show ?thesis using r fr le by fastforce
  qed
qed

lemma room_int: "4 < cs_qlength cs \<Longrightarrow> cs_qlength cs - 4 = int (room cs)"
  by (simp add: room_def)

lemma pass_short:
  assumes "\<not> size_t len > size_t (cs_qlength c1 - 4)" "QUEUE_READ c1 len = (bytes, c2)"
    "pl_offset ps + len = pl_msglen ps"
  shows "sq_pull_long_tuple_pass c1 ps len
    = (True, ps\<lparr>pl_msg := pl_msg ps @ bytes, pl_offset := pl_offset ps + len\<rparr>, c2)"
  using assms by (simp add: sq_pull_long_tuple_pass_def Let_def)

lemma pass_long:
  assumes "size_t len > size_t (cs_qlength c1 - 4)"
    "QUEUE_READ c1 (cs_qlength c1 - 4) = (bytes, c2)"
    "pl_offset ps + (cs_qlength c1 - 4) \<noteq> pl_msglen ps"
  shows "sq_pull_long_tuple_pass c1 ps len
    = (False, ps\<lparr>pl_msg := pl_msg ps @ bytes, pl_offset := pl_offset ps + (cs_qlength c1 - 4)\<rparr>,
       c2\<lparr>cs_ntuples := LONG_TUPLE,
          cs_qstart := memcpy_into (cs_qstart c2) 0
            (int_bytes (pl_offset ps + (cs_qlength c1 - 4)))\<rparr>)"
  using assms by (simp add: sq_pull_long_tuple_pass_def Let_def)

lemma pull_pass_last:
  assumes "ring_chunks cs (fragment (room cs) t k # chunks)" "k \<le> length t"
    "length t < 2147483648" "4 < cs_qlength cs" "cs_qlength cs < 2147483648"
    "length t - k \<le> room cs"
  shows "\<exists>c2. sq_pull_long_tuple_pass (snd (QUEUE_READ cs 4))
            \<lparr>pl_msglen = int (length t), pl_msg = take k t, pl_offset = int k\<rparr>
            (int (length t) - int k)
          = (True, \<lparr>pl_msglen = int (length t), pl_msg = t, pl_offset = int (length t)\<rparr>, c2) \<and>
          ring_chunks (c2\<lparr>cs_ntuples := cs_ntuples c2 - 1\<rparr>) chunks \<and>
          cs_status c2 = cs_status cs \<and> cs_qlength c2 = cs_qlength cs"
proof -
  define a where "a = int_bytes (int (length t) - int k)"
  define b where "b = take (room cs) (drop k t)"
  define len where "len = int (length t) - int k"
  define c1 where "c1 = snd (QUEUE_READ cs 4)"
  define c2 where "c2 = snd (QUEUE_READ c1 (int (length b)))"
  have la: "length a = 4" by (simp add: a_def)
  have ch: "ring_chunks cs ((a @ b) # chunks)"
    using assms(1) by (simp add: fragment_def a_def b_def)
  note rd = ring_chunks_read [OF ch la, folded c1_def, folded c2_def]
  have b: "b = drop k t" "int (length b) = len" using assms(2,6) by (simp_all add: b_def len_def)
  have fr: "cs_qlength c1 = cs_qlength cs" "cs_status c2 = cs_status cs"
    "cs_qlength c2 = cs_qlength cs" "cs_ntuples c2 = cs_ntuples cs"
    by (simp_all add: c1_def c2_def)
  have l0: "0 \<le> len" "len < 2147483648" "len \<le> int (room cs)"
    using assms(2,3,6) unfolding len_def by linarith+
  have s1: "size_t len = len" using l0 by (intro size_t_id)
  have s2: "size_t (cs_qlength c1 - 4) = int (room cs)"
    unfolding fr room_int [OF assms(4)] using room_int [OF assms(4)] assms(5)
    by (intro size_t_id) simp_all
  have 1: "\<not> size_t len > size_t (cs_qlength c1 - 4)" unfolding s1 s2 using l0 by simp
  have 2: "QUEUE_READ c1 len = (b, c2)"
    unfolding b(2) [symmetric] using rd(2) by (simp add: prod_eq_iff c2_def)
  have 3: "pl_offset \<lparr>pl_msglen = int (length t), pl_msg = take k t, pl_offset = int k\<rparr> + len
      = pl_msglen \<lparr>pl_msglen = int (length t), pl_msg = take k t, pl_offset = int k\<rparr>"
    by (simp add: len_def)
  have "sq_pull_long_tuple_pass c1
           \<lparr>pl_msglen = int (length t), pl_msg = take k t, pl_offset = int k\<rparr> len
      = (True, \<lparr>pl_msglen = int (length t), pl_msg = t, pl_offset = int (length t)\<rparr>, c2)"
    unfolding pass_short [OF 1 2 3] by (simp add: b(1) len_def)
  moreover have "ring_chunks (c2\<lparr>cs_ntuples := cs_ntuples c2 - 1\<rparr>) chunks"
    using rd(3) fr by simp
  ultimately show ?thesis unfolding c1_def [symmetric] len_def [symmetric] using fr by blast
qed

lemma memcpy_into_head:
  "4 \<le> length mem \<Longrightarrow> length a = 4 \<Longrightarrow>
   length (memcpy_into mem 0 a) = length mem \<and> take 4 (memcpy_into mem 0 a) = a"
  by (simp add: memcpy_into_def)

lemma ring_rel_qstart:
  "ring_rel cs u \<Longrightarrow> length mem = length (cs_qstart cs) \<Longrightarrow>
   ring_rel (cs\<lparr>cs_ntuples := x, cs_qstart := mem\<rparr>) u"
  by (simp add: ring_rel_def ring_ok_def)

lemma pull_pass_more:
  assumes "ring_chunks cs (fragment (room cs) t k # chunks)" "k \<le> length t"
    "length t < 2147483648" "4 < cs_qlength cs" "cs_qlength cs < 2147483648"
    "room cs < length t - k"
  shows "\<exists>c2. sq_pull_long_tuple_pass (snd (QUEUE_READ cs 4))
            \<lparr>pl_msglen = int (length t), pl_msg = take k t, pl_offset = int k\<rparr>
            (int (length t) - int k)
          = (False, \<lparr>pl_msglen = int (length t), pl_msg = take (k + room cs) t,
                      pl_offset = int (k + room cs)\<rparr>, c2) \<and>
          ring_rel c2 0 \<and> cs_ntuples c2 = LONG_TUPLE \<and>
          take 4 (cs_qstart c2) = int_bytes (int (k + room cs)) \<and>
          cs_status c2 = cs_status cs \<and> cs_qlength c2 = cs_qlength cs"
proof -
  define a where "a = int_bytes (int (length t) - int k)"
  define b where "b = take (room cs) (drop k t)"
  define len where "len = int (length t) - int k"
  define c1 where "c1 = snd (QUEUE_READ cs 4)"
  define c2 where "c2 = snd (QUEUE_READ c1 (int (length b)))"
  define hdr where "hdr = int_bytes (int (k + room cs))"
  define c3 where "c3 = c2\<lparr>cs_ntuples := LONG_TUPLE,
     cs_qstart := memcpy_into (cs_qstart c2) 0 hdr\<rparr>"
  have la: "length a = 4" "length hdr = 4" by (simp_all add: a_def hdr_def)
  have ch: "ring_chunks cs ((a @ b) # chunks)"
    using assms(1) by (simp add: fragment_def a_def b_def)
  note rd = ring_chunks_read [OF ch la(1), folded c1_def, folded c2_def]
  have b: "length b = room cs" using assms(6) by (simp add: b_def)
  have fr: "cs_qlength c1 = cs_qlength cs" "cs_status c2 = cs_status cs"
    "cs_qlength c2 = cs_qlength cs" "cs_ntuples c2 = cs_ntuples cs"
    by (simp_all add: c1_def c2_def)
  have "int (length (concat ((a @ b) # chunks))) \<le> cs_qlength cs"
    by (rule chunks_bound [OF ch])
  then have "length (concat chunks) = 0" using b la assms(4) by (simp add: room_def)
  moreover have "[] \<notin> set chunks" using ch by (simp add: ring_chunks_def)
  ultimately have e: "chunks = []" by (cases chunks) auto
  have rel: "ring_rel c2 0" using rd(3) unfolding e by (simp add: ring_chunks_Nil)
  have l0: "0 \<le> len" "len < 2147483648" "int (room cs) < len"
    using assms(2,3,6) unfolding len_def by linarith+
  have s1: "size_t len = len" using l0 by (intro size_t_id)
  have q: "cs_qlength c1 - 4 = int (room cs)" unfolding fr by (rule room_int [OF assms(4)])
  have s2: "size_t (cs_qlength c1 - 4) = int (room cs)"
    unfolding q using q fr assms(5) by (intro size_t_id) simp_all
  have 1: "size_t len > size_t (cs_qlength c1 - 4)" unfolding s1 s2 using l0 by simp
  have 2: "QUEUE_READ c1 (cs_qlength c1 - 4) = (b, c2)"
    unfolding q b [symmetric] using rd(2) by (simp add: prod_eq_iff c2_def)
  have 3: "pl_offset \<lparr>pl_msglen = int (length t), pl_msg = take k t, pl_offset = int k\<rparr>
        + (cs_qlength c1 - 4)
      \<noteq> pl_msglen \<lparr>pl_msglen = int (length t), pl_msg = take k t, pl_offset = int k\<rparr>"
    unfolding q using l0(3) by (simp add: len_def)
  have tk: "take k t @ b = take (k + room cs) t"
    by (simp add: take_add b_def)
  have "sq_pull_long_tuple_pass c1
            \<lparr>pl_msglen = int (length t), pl_msg = take k t, pl_offset = int k\<rparr> len
      = (False, \<lparr>pl_msglen = int (length t), pl_msg = take (k + room cs) t,
                      pl_offset = int (k + room cs)\<rparr>, c3)"
    unfolding pass_long [OF 1 2 3] q by (simp add: tk c3_def hdr_def)
  moreover have l4: "4 \<le> length (cs_qstart c2)"
    using rel fr assms(4) by (simp add: ring_rel_def ring_ok_def)
  have "ring_rel c3 0" unfolding c3_def
    using rel memcpy_into_head [OF l4 la(2)] by (intro ring_rel_qstart) simp_all
  moreover have "take 4 (cs_qstart c3) = hdr"
    using memcpy_into_head [OF l4 la(2)] by (simp add: c3_def)
  moreover have "cs_ntuples c3 = LONG_TUPLE" "cs_status c3 = cs_status cs"
    "cs_qlength c3 = cs_qlength cs"
    using fr by (simp_all add: c3_def)
  ultimately show ?thesis unfolding c1_def [symmetric] len_def [symmetric] hdr_def by blast
qed

lemma chunk_ntuples: "ring_chunks cs (c # chunks) \<Longrightarrow> 0 < cs_ntuples cs"
  by (simp add: ring_chunks_def)

lemma row_record:
  assumes "ring_chunks cs (record_bytes t # chunks)"
    "4 < cs_qlength cs" "cs_qlength cs < 2147483648"
  shows "\<exists>cs' evs. SharedQueueRead_row i cs = (Returns False (Some t), cs', evs) \<and>
           ring_chunks cs' chunks \<and>
           cs_status cs' = cs_status cs \<and> cs_qlength cs' = cs_qlength cs"
proof -
  define a where "a = int_bytes (int (length t))"
  define c1 where "c1 = snd (QUEUE_READ cs 4)"
  define c2 where "c2 = snd (QUEUE_READ c1 (int (length t)))"
  have la: "length a = 4" by (simp add: a_def)
  have ch: "ring_chunks cs ((a @ t) # chunks)"
    using assms(1) by (simp add: record_bytes_def a_def)
  note rd = ring_chunks_read [OF ch la, folded c1_def, folded c2_def]
  have fr: "cs_qlength c1 = cs_qlength cs" "cs_status c2 = cs_status cs"
    "cs_qlength c2 = cs_qlength cs" "cs_ntuples c2 = cs_ntuples cs"
    by (simp_all add: c1_def c2_def)
  have "int (length (concat ((a @ t) # chunks))) \<le> cs_qlength cs"
    by (rule chunks_bound [OF ch])
  then have le: "int (length t) \<le> cs_qlength cs - 4" using la by simp
  then have lt: "int (length t) < 2147483648" using assms(3) by linarith
  have bi: "bytes_int a = int (length t)" unfolding a_def using lt
    by (intro bytes_int_int_bytes) simp_all
  have s1: "size_t (int (length t)) = int (length t)" using lt by (intro size_t_id) simp_all
  have s2: "size_t (cs_qlength cs - 4) = cs_qlength cs - 4"
    using assms(2,3) by (intro size_t_id) simp_all
  have 1: "QUEUE_READ cs 4 = (a, c1)" using rd(1) by (simp add: prod_eq_iff c1_def)
  have 2: "QUEUE_READ c1 (int (length t)) = (t, c2)"
    using rd(2) by (simp add: prod_eq_iff c2_def)
  have "SharedQueueRead_row i cs = SharedQueueRead_store i c2 t"
    unfolding SharedQueueRead_row_def 1 Let_def prod.case bi fr s1 s2 using le by (simp add: 2)
  moreover have "ring_chunks (c2\<lparr>cs_ntuples := cs_ntuples c2 - 1\<rparr>) chunks"
    using rd(3) fr by simp
  ultimately show ?thesis using fr by (simp add: SharedQueueRead_store_def)
qed

lemma pull_more:
  assumes "ring_chunks cs (fragment (room cs) t k # chunks)" "k \<le> length t"
    "length t < 2147483648" "4 < cs_qlength cs" "cs_qlength cs < 2147483648"
    "room cs < length t - k"
  shows "\<exists>cs' evs. sq_pull_long_tuple i (snd (QUEUE_READ cs 4))
            \<lparr>pl_msglen = int (length t), pl_msg = take k t, pl_offset = int k\<rparr>
            (int (length t) - int k)
          = (WaitsLong \<lparr>pl_msglen = int (length t), pl_msg = take (k + room cs) t,
                        pl_offset = int (k + room cs)\<rparr>, cs', evs) \<and>
          ring_rel cs' 0 \<and> cs_ntuples cs' = LONG_TUPLE \<and>
          take 4 (cs_qstart cs') = int_bytes (int (k + room cs)) \<and>
          cs_status cs' = cs_status cs \<and> cs_qlength cs' = cs_qlength cs"
proof -
  from pull_pass_more [OF assms] obtain c2 where
    "sq_pull_long_tuple_pass (snd (QUEUE_READ cs 4))
            \<lparr>pl_msglen = int (length t), pl_msg = take k t, pl_offset = int k\<rparr>
            (int (length t) - int k)
          = (False, \<lparr>pl_msglen = int (length t), pl_msg = take (k + room cs) t,
                      pl_offset = int (k + room cs)\<rparr>, c2)"
    "ring_rel c2 0" "cs_ntuples c2 = LONG_TUPLE"
    "take 4 (cs_qstart c2) = int_bytes (int (k + room cs))"
    "cs_status c2 = cs_status cs" "cs_qlength c2 = cs_qlength cs"
    by blast
  then show ?thesis unfolding sq_pull_long_tuple_def by simp
qed

lemma pull_last:
  assumes "ring_chunks cs (fragment (room cs) t k # chunks)" "k \<le> length t"
    "length t < 2147483648" "4 < cs_qlength cs" "cs_qlength cs < 2147483648"
    "length t - k \<le> room cs"
  shows "\<exists>cs' evs. sq_pull_long_tuple i (snd (QUEUE_READ cs 4))
            \<lparr>pl_msglen = int (length t), pl_msg = take k t, pl_offset = int k\<rparr>
            (int (length t) - int k)
          = (Returns False (Some t), cs', evs) \<and>
          ring_chunks cs' chunks \<and>
          cs_status cs' = cs_status cs \<and> cs_qlength cs' = cs_qlength cs"
proof -
  from pull_pass_last [OF assms] obtain c2 where
    "sq_pull_long_tuple_pass (snd (QUEUE_READ cs 4))
            \<lparr>pl_msglen = int (length t), pl_msg = take k t, pl_offset = int k\<rparr>
            (int (length t) - int k)
          = (True, \<lparr>pl_msglen = int (length t), pl_msg = t, pl_offset = int (length t)\<rparr>, c2)"
    "ring_chunks (c2\<lparr>cs_ntuples := cs_ntuples c2 - 1\<rparr>) chunks"
    "cs_status c2 = cs_status cs" "cs_qlength c2 = cs_qlength cs"
    by blast
  then show ?thesis unfolding sq_pull_long_tuple_def by (simp add: SharedQueueRead_store_def)
qed

lemma fragment_header:
  assumes "ring_chunks cs (fragment m t k # chunks)" "k \<le> length t" "length t < 2147483648"
  shows "QUEUE_READ cs 4 = (int_bytes (int (length t) - int k), snd (QUEUE_READ cs 4))"
    and "bytes_int (int_bytes (int (length t) - int k)) = int (length t) - int k"
proof -
  have "ring_chunks cs ((int_bytes (int (length t) - int k) @ take m (drop k t)) # chunks)"
    using assms(1) by (simp add: fragment_def)
  from ring_chunks_read(1) [OF this]
  show "QUEUE_READ cs 4 = (int_bytes (int (length t) - int k), snd (QUEUE_READ cs 4))"
    by (simp add: prod_eq_iff)
  show "bytes_int (int_bytes (int (length t) - int k)) = int (length t) - int k"
    using assms(2,3) by (intro bytes_int_int_bytes) linarith+
qed

lemma row_first:
  assumes "ring_chunks cs [fragment (room cs) t 0]" "room cs < length t"
    "length t < 2147483648" "4 < cs_qlength cs" "cs_qlength cs < 2147483648"
  shows "\<exists>cs' evs. SharedQueueRead_row i cs
          = (WaitsLong \<lparr>pl_msglen = int (length t), pl_msg = take (room cs) t,
                        pl_offset = int (room cs)\<rparr>, cs', evs) \<and>
          ring_rel cs' 0 \<and> cs_ntuples cs' = LONG_TUPLE \<and>
          take 4 (cs_qstart cs') = int_bytes (int (room cs)) \<and>
          cs_status cs' = cs_status cs \<and> cs_qlength cs' = cs_qlength cs"
proof -
  define c1 where "c1 = snd (QUEUE_READ cs 4)"
  have h: "QUEUE_READ cs 4 = (int_bytes (int (length t)), c1)"
    "bytes_int (int_bytes (int (length t))) = int (length t)"
    using fragment_header [OF assms(1) _ assms(3)] by (simp_all add: c1_def)
  have fr: "cs_qlength c1 = cs_qlength cs" by (simp add: c1_def)
  have s1: "size_t (int (length t)) = int (length t)"
    using assms(3) by (intro size_t_id) simp_all
  have s2: "size_t (cs_qlength cs - 4) = int (room cs)"
    unfolding room_int [OF assms(4)] using room_int [OF assms(4)] assms(5)
    by (intro size_t_id) simp_all
  have row: "SharedQueueRead_row i cs = sq_pull_long_tuple i c1
      \<lparr>pl_msglen = int (length t), pl_msg = [], pl_offset = 0\<rparr> (int (length t))"
    unfolding SharedQueueRead_row_def h Let_def prod.case fr s1 s2 using assms(2) by simp
  from pull_more [OF assms(1) _ assms(3,4,5), of i] assms(2)
  show ?thesis unfolding row c1_def by simp
qed

lemma loop_row: "0 < cs_ntuples cs \<Longrightarrow>
  SharedQueueRead_locked i cs canwait =
    (case SharedQueueRead_row i cs of (res, c, evs) \<Rightarrow>
       (res, c, [LWLockAcquire sqs_producer_lwlock LW_SHARED,
                 LWLockAcquire (cs_lwlock i) LW_EXCLUSIVE] @ evs))"
  by (simp add: SharedQueueRead_locked_def SharedQueueRead_loop_def)

lemma locked_record:
  assumes "ring_chunks cs (record_bytes t # chunks)"
    "4 < cs_qlength cs" "cs_qlength cs < 2147483648"
  shows "\<exists>cs' evs. SharedQueueRead_locked i cs canwait = (Returns False (Some t), cs', evs) \<and>
           ring_chunks cs' chunks \<and>
           cs_status cs' = cs_status cs \<and> cs_qlength cs' = cs_qlength cs"
  using row_record [OF assms, of i] chunk_ntuples [OF assms(1)]
  by (auto simp add: loop_row)

lemma locked_first:
  assumes "ring_chunks cs [fragment (room cs) t 0]" "room cs < length t"
    "length t < 2147483648" "4 < cs_qlength cs" "cs_qlength cs < 2147483648"
  shows "\<exists>cs' evs. SharedQueueRead_locked i cs canwait
          = (WaitsLong \<lparr>pl_msglen = int (length t), pl_msg = take (room cs) t,
                        pl_offset = int (room cs)\<rparr>, cs', evs) \<and>
          ring_rel cs' 0 \<and> cs_ntuples cs' = LONG_TUPLE \<and>
          take 4 (cs_qstart cs') = int_bytes (int (room cs)) \<and>
          cs_status cs' = cs_status cs \<and> cs_qlength cs' = cs_qlength cs"
  using row_first [OF assms, of i] chunk_ntuples [OF assms(1)]
  by (auto simp add: loop_row)

lemma wake_await:
  "cs_ntuples cs = LONG_TUPLE \<Longrightarrow>
   \<exists>evs. sq_pull_long_tuple_wake i cs ps = (WaitsLong ps, cs, evs)"
  by (simp add: sq_pull_long_tuple_wake_def)

lemma wake_fragment:
  assumes "ring_chunks cs (fragment m t k # chunks)" "k \<le> length t" "length t < 2147483648"
  shows "sq_pull_long_tuple_wake i cs ps =
    (case sq_pull_long_tuple i (snd (QUEUE_READ cs 4)) ps (int (length t) - int k) of
       (res, c, evs) \<Rightarrow>
         (res, c, [LWLockAcquire sqs_producer_lwlock LW_SHARED,
                   LWLockAcquire (cs_lwlock i) LW_EXCLUSIVE] @ evs))"
proof -
  have "cs_ntuples cs \<noteq> LONG_TUPLE"
    using chunk_ntuples [OF assms(1)] by (simp add: LONG_TUPLE_def)
  moreover have "fst (QUEUE_READ cs 4) = int_bytes (int (length t) - int k)"
    using fragment_header(1) [OF assms] by (metis fst_conv)
  ultimately show ?thesis
    unfolding sq_pull_long_tuple_wake_def Let_def
    by (simp add: split_beta fragment_header(2) [OF assms])
qed

lemma wake_middle:
  assumes "ring_chunks cs (fragment (room cs) t k # chunks)" "k \<le> length t"
    "length t < 2147483648" "4 < cs_qlength cs" "cs_qlength cs < 2147483648"
    "room cs < length t - k"
  shows "\<exists>cs' evs. sq_pull_long_tuple_wake i cs
            \<lparr>pl_msglen = int (length t), pl_msg = take k t, pl_offset = int k\<rparr>
          = (WaitsLong \<lparr>pl_msglen = int (length t), pl_msg = take (k + room cs) t,
                        pl_offset = int (k + room cs)\<rparr>, cs', evs) \<and>
          ring_rel cs' 0 \<and> cs_ntuples cs' = LONG_TUPLE \<and>
          take 4 (cs_qstart cs') = int_bytes (int (k + room cs)) \<and>
          cs_status cs' = cs_status cs \<and> cs_qlength cs' = cs_qlength cs"
  using pull_more [OF assms, of i] unfolding wake_fragment [OF assms(1,2,3)] by auto

lemma wake_last:
  assumes "ring_chunks cs (fragment (room cs) t k # chunks)" "k \<le> length t"
    "length t < 2147483648" "4 < cs_qlength cs" "cs_qlength cs < 2147483648"
    "length t - k \<le> room cs"
  shows "\<exists>cs' evs. sq_pull_long_tuple_wake i cs
            \<lparr>pl_msglen = int (length t), pl_msg = take k t, pl_offset = int k\<rparr>
          = (Returns False (Some t), cs', evs) \<and>
          ring_chunks cs' chunks \<and>
          cs_status cs' = cs_status cs \<and> cs_qlength cs' = cs_qlength cs"
  using pull_last [OF assms, of i] unfolding wake_fragment [OF assms(1,2,3)] by auto

lemma record_nonempty: "length (concat (map record_bytes moved)) = 0 \<Longrightarrow> moved = []"
  by (cases moved) (simp_all add: record_bytes_def)

lemma full_no_room:
  assumes "ring_chunks c ([fragment (room c') t k] @ map record_bytes moved)"
    "room c' < length t - k" "cs_qlength c = cs_qlength c'" "4 < cs_qlength c'"
  shows "moved = []"
proof -
  have "int (length (concat ([fragment (room c') t k] @ map record_bytes moved))) \<le> cs_qlength c"
    by (rule chunks_bound [OF assms(1)])
  then have "length (concat (map record_bytes moved)) = 0"
    using assms(2,3,4) by (simp add: fragment_length room_def)
  then show ?thesis by (rule record_nonempty)
qed

lemma room_cong: "cs_qlength c' = cs_qlength c \<Longrightarrow> room c' = room c"
  by (simp add: room_def)

lemma phase_write:
  assumes "phase W c st rd rcv" "cs_status c = CONSUMER_ACTIVE"
    "4 < cs_qlength c" "cs_qlength c < 2147483648" "\<forall>t\<in>set W. length t < 2147483648"
    "SharedQueueWrite c d st = (c', st')"
  shows "phase (W @ [d]) c' st' rd rcv \<and> cs_status c' = cs_status c \<and>
         cs_qlength c' = cs_qlength c"
  using assms(1)
proof (cases rule: phase.cases)
  case (Normal ts)
  from write_chunks [OF Normal(1) assms(3,4,2,6)] obtain moved where
    fr: "cs_status c' = cs_status c" "cs_qlength c' = cs_qlength c"
    and m: "stored st @ [d] = moved @ stored st'"
    and alt: "ring_chunks c' (map record_bytes ts @ map record_bytes moved) \<or>
         (map record_bytes ts = [] \<and> moved = [] \<and>
          (\<exists>t rest. st' = Some (t # rest) \<and> room c < length t \<and>
             ring_chunks c' [fragment (room c) t 0]))"
    by auto
  from alt show ?thesis
  proof
    assume "ring_chunks c' (map record_bytes ts @ map record_bytes moved)"
    then have "ring_chunks c' (map record_bytes (ts @ moved))" by simp
    moreover have "W @ [d] = rcv @ (ts @ moved) @ stored st'" using Normal(3) m by simp
    moreover have "cs_status c' \<noteq> CONSUMER_DONE" using fr assms(2) by simp
    ultimately have "phase (W @ [d]) c' st' rd rcv" using Normal(2) by (intro phase.Normal) auto
    then show ?thesis using fr by simp
  next
    assume "map record_bytes ts = [] \<and> moved = [] \<and>
          (\<exists>t rest. st' = Some (t # rest) \<and> room c < length t \<and>
             ring_chunks c' [fragment (room c) t 0])"
    then obtain t rest where a: "ts = []" "moved = []" "st' = Some (t # rest)"
      "room c < length t" "ring_chunks c' [fragment (room c) t 0]" by auto
    have r: "room c' = room c" by (rule room_cong [OF fr(2)])
    have w: "W @ [d] = rcv @ t # rest" using Normal(3) m a by (simp add: stored_def)
    have "phase (W @ [d]) c' st' rd rcv"
      by (rule phase.Partial [where t = t and k = 0 and rest = rest])
         (use a r w Normal(2) fr assms(2) in simp_all)
    then show ?thesis using fr by simp
  qed
next
  case (Partial t k rest)
  from write_chunks [OF Partial(1) assms(3,4,2,6)] obtain moved where
    fr: "cs_status c' = cs_status c" "cs_qlength c' = cs_qlength c"
    and m: "stored st @ [d] = moved @ stored st'"
    and ch: "ring_chunks c' ([fragment (room c) t k] @ map record_bytes moved)"
    by auto
  have e: "moved = []" by (rule full_no_room [OF ch Partial(2) fr(2) assms(3)])
  have r: "room c' = room c" by (rule room_cong [OF fr(2)])
  have s: "st' = Some (t # rest @ [d])" using m e Partial(4) by (cases st') (simp_all add: stored_def)
  have "phase (W @ [d]) c' st' rd rcv"
    by (rule phase.Partial [where t = t and k = k and rest = "rest @ [d]"])
       (use ch e r s Partial fr assms(2) in simp_all)
  then show ?thesis using fr by simp
next
  case (Await k t rest)
  have lt: "length t < 2147483648" using assms(5) Await(8) by simp
  have w: "SharedQueueWrite c d (Some (t # rest)) = (c', st')" using assms(6) Await(7) by simp
  note wa = write_await [OF Await(1,2,3,4) lt assms(3,4) Await(5) assms(2) w]
  then have fr: "cs_status c' = cs_status c" "cs_qlength c' = cs_qlength c" by simp_all
  have r: "room c' = room c" by (rule room_cong [OF fr(2)])
  from wa consider "room c < length t - k" "st' = Some (t # rest @ [d])"
      "ring_chunks c' [fragment (room c) t k]"
    | moved where "length t - k \<le> room c" "rest @ [d] = moved @ stored st'"
      "ring_chunks c' (fragment (room c) t k # map record_bytes moved)"
    by auto
  then have "phase (W @ [d]) c' st' rd rcv"
  proof cases
    case 1
    show ?thesis
      by (rule phase.Partial [where t = t and k = k and rest = "rest @ [d]"])
         (use 1 r Await fr assms(2) in simp_all)
  next
    case 2
    show ?thesis
      by (rule phase.Last [where t = t and k = k and ts = moved])
         (use 2 r Await fr assms(2) in simp_all)
  qed
  then show ?thesis using fr by simp
next
  case (Last t k ts)
  from write_chunks [OF Last(1) assms(3,4,2,6)] obtain moved where
    fr: "cs_status c' = cs_status c" "cs_qlength c' = cs_qlength c"
    and m: "stored st @ [d] = moved @ stored st'"
    and ch: "ring_chunks c' ((fragment (room c) t k # map record_bytes ts) @ map record_bytes moved)"
    by auto
  have r: "room c' = room c" by (rule room_cong [OF fr(2)])
  have "phase (W @ [d]) c' st' rd rcv"
    by (rule phase.Last [where t = t and k = k and ts = "ts @ moved"])
       (use ch m r Last fr assms(2) in simp_all)
  then show ?thesis using fr by simp
qed

lemma finish_inactive:
  assumes "cs_status c \<noteq> CONSUMER_ACTIVE" "SharedQueueFinish_slot c None = (c', st', x)"
  shows "c' = c" "st' = None"
  using assms by (simp_all add: SharedQueueFinish_slot_def)

lemma phase_finish:
  assumes "phase W c st rd rcv" "cs_status c = CONSUMER_ACTIVE"
    "4 < cs_qlength c" "cs_qlength c < 2147483648" "\<forall>t\<in>set W. length t < 2147483648"
    "SharedQueueFinish_slot c st = (c', st', x)"
  shows "phase W c' st' rd rcv \<and> cs_qlength c' = cs_qlength c \<and>
         (cs_status c' = CONSUMER_EOF \<and> st' = None \<or> cs_status c' = CONSUMER_ACTIVE)"
  using assms(1)
proof (cases rule: phase.cases)
  case (Normal ts)
  from finish_chunks [OF Normal(1) assms(3,4,2,6)] obtain moved where
    fr: "cs_qlength c' = cs_qlength c"
      "cs_status c' = CONSUMER_EOF \<and> st' = None \<or> cs_status c' = CONSUMER_ACTIVE"
    and m: "stored st = moved @ stored st'"
    and alt: "ring_chunks c' (map record_bytes ts @ map record_bytes moved) \<or>
         (map record_bytes ts = [] \<and> moved = [] \<and> cs_status c' = CONSUMER_ACTIVE \<and>
          (\<exists>t rest. st' = Some (t # rest) \<and> room c < length t \<and>
             ring_chunks c' [fragment (room c) t 0]))"
    by auto
  from alt show ?thesis
  proof
    assume "ring_chunks c' (map record_bytes ts @ map record_bytes moved)"
    then have "ring_chunks c' (map record_bytes (ts @ moved))" by simp
    moreover have "W = rcv @ (ts @ moved) @ stored st'" using Normal(3) m by simp
    moreover have "cs_status c' \<noteq> CONSUMER_DONE" using fr by auto
    ultimately have "phase W c' st' rd rcv" using Normal(2) by (intro phase.Normal) auto
    then show ?thesis using fr by simp
  next
    assume "map record_bytes ts = [] \<and> moved = [] \<and> cs_status c' = CONSUMER_ACTIVE \<and>
          (\<exists>t rest. st' = Some (t # rest) \<and> room c < length t \<and>
             ring_chunks c' [fragment (room c) t 0])"
    then obtain t rest where a: "ts = []" "moved = []" "st' = Some (t # rest)"
      "room c < length t" "ring_chunks c' [fragment (room c) t 0]"
      "cs_status c' = CONSUMER_ACTIVE" by auto
    have r: "room c' = room c" by (rule room_cong [OF fr(1)])
    have w: "W = rcv @ t # rest" using Normal(3) m a by (simp add: stored_def)
    have "phase W c' st' rd rcv"
      by (rule phase.Partial [where t = t and k = 0 and rest = rest])
         (use a r w Normal(2) in simp_all)
    then show ?thesis using fr by simp
  qed
next
  case (Partial t k rest)
  from finish_chunks [OF Partial(1) assms(3,4,2,6)] obtain moved where
    fr: "cs_qlength c' = cs_qlength c"
      "cs_status c' = CONSUMER_EOF \<and> st' = None \<or> cs_status c' = CONSUMER_ACTIVE"
    and m: "stored st = moved @ stored st'"
    and ch: "ring_chunks c' ([fragment (room c) t k] @ map record_bytes moved)"
    by auto
  have e: "moved = []" by (rule full_no_room [OF ch Partial(2) fr(1) assms(3)])
  have r: "room c' = room c" by (rule room_cong [OF fr(1)])
  have s: "st' = Some (t # rest)" using m e Partial(4) by (cases st') (simp_all add: stored_def)
  then have a: "cs_status c' = CONSUMER_ACTIVE" using fr(2) by auto
  have "phase W c' st' rd rcv"
    by (rule phase.Partial [where t = t and k = k and rest = rest])
       (use ch e r s a Partial in simp_all)
  then show ?thesis using fr by simp
next
  case (Await k t rest)
  have lt: "length t < 2147483648" using assms(5) Await(8) by simp
  have w: "SharedQueueFinish_slot c (Some (t # rest)) = (c', st', x)"
    using assms(6) Await(7) by simp
  note fa = finish_await [OF Await(1,2,3,4) lt assms(3,4) Await(5) assms(2) w]
  then have fr: "cs_qlength c' = cs_qlength c" by simp
  have r: "room c' = room c" by (rule room_cong [OF fr])
  from fa consider "room c < length t - k" "st' = Some (t # rest)"
      "cs_status c' = CONSUMER_ACTIVE" "ring_chunks c' [fragment (room c) t k]"
    | moved where "length t - k \<le> room c" "rest = moved @ stored st'"
      "cs_status c' = CONSUMER_EOF \<and> st' = None \<or> cs_status c' = CONSUMER_ACTIVE"
      "ring_chunks c' (fragment (room c) t k # map record_bytes moved)"
    by auto
  then show ?thesis
  proof cases
    case 1
    have "phase W c' st' rd rcv"
      by (rule phase.Partial [where t = t and k = k and rest = rest])
         (use 1 r Await in simp_all)
    then show ?thesis using fr 1 by simp
  next
    case 2
    have "cs_status c' \<noteq> CONSUMER_DONE" using 2(3) by auto
    then have "phase W c' st' rd rcv"
      by (intro phase.Last [where t = t and k = k and ts = moved])
         (use 2 r Await in simp_all)
    then show ?thesis using fr 2 by simp
  qed
next
  case (Last t k ts)
  from finish_chunks [OF Last(1) assms(3,4,2,6)] obtain moved where
    fr: "cs_qlength c' = cs_qlength c"
      "cs_status c' = CONSUMER_EOF \<and> st' = None \<or> cs_status c' = CONSUMER_ACTIVE"
    and m: "stored st = moved @ stored st'"
    and ch: "ring_chunks c' ((fragment (room c) t k # map record_bytes ts) @ map record_bytes moved)"
    by auto
  have r: "room c' = room c" by (rule room_cong [OF fr(1)])
  have "cs_status c' \<noteq> CONSUMER_DONE" using fr(2) by auto
  then have "phase W c' st' rd rcv"
    by (intro phase.Last [where t = t and k = k and ts = "ts @ moved"])
       (use ch m r Last in simp_all)
  then show ?thesis using fr by simp
qed

lemma step_write:
  assumes "chan_inv W False ch" "length d < 2147483648"
  shows "chan_inv (W @ [d]) False (channel_step ch (Write d))"
proof -
  obtain c' st' where w: "SharedQueueWrite (ch_cstate ch) d (ch_store ch) = (c', st')"
    by (cases "SharedQueueWrite (ch_cstate ch) d (ch_store ch)") auto
  have inv: "phase W (ch_cstate ch) (ch_store ch) (ch_reader ch) (ch_received ch)"
    "4 < cs_qlength (ch_cstate ch)" "cs_qlength (ch_cstate ch) < 2147483648"
    "\<forall>t\<in>set W. length t < 2147483648" "cs_status (ch_cstate ch) = CONSUMER_ACTIVE"
    "\<not> ch_eof ch"
    using assms(1) by (auto simp add: chan_inv_def)
  have step: "channel_step ch (Write d) = ch\<lparr>ch_cstate := c', ch_store := st'\<rparr>"
    by (simp add: w)
  from phase_write [OF inv(1,5,2,3,4) w] inv assms(2)
  show ?thesis unfolding step by (simp add: chan_inv_def)
qed

lemma step_finish:
  assumes "chan_inv W fin ch"
  shows "chan_inv W True (channel_step ch Finish)"
proof -
  obtain c' st' x where w: "SharedQueueFinish_slot (ch_cstate ch) (ch_store ch) = (c', st', x)"
    by (cases "SharedQueueFinish_slot (ch_cstate ch) (ch_store ch)") auto
  have step: "channel_step ch Finish = ch\<lparr>ch_cstate := c', ch_store := st'\<rparr>"
    by (simp add: w)
  have inv: "phase W (ch_cstate ch) (ch_store ch) (ch_reader ch) (ch_received ch)"
    "4 < cs_qlength (ch_cstate ch)" "cs_qlength (ch_cstate ch) < 2147483648"
    "\<forall>t\<in>set W. length t < 2147483648"
    "cs_status (ch_cstate ch) = CONSUMER_ACTIVE \<or>
      (cs_status (ch_cstate ch) = CONSUMER_EOF \<or> cs_status (ch_cstate ch) = CONSUMER_DONE) \<and>
      ch_store ch = None"
    "ch_eof ch \<longleftrightarrow> cs_status (ch_cstate ch) = CONSUMER_DONE"
    using assms(1) by (auto simp add: chan_inv_def)
  show ?thesis
  proof (cases "cs_status (ch_cstate ch) = CONSUMER_ACTIVE")
    case True
    from phase_finish [OF inv(1) True inv(2,3,4) w] inv True
    show ?thesis unfolding step by (auto simp add: chan_inv_def)
  next
    case False
    then have n: "ch_store ch = None" using inv(5) by simp
    have "c' = ch_cstate ch" "st' = None"
      using finish_inactive [OF False, of c' st' x] w n by simp_all
    then show ?thesis unfolding step using inv n by (simp add: chan_inv_def)
  qed
qed

lemma locked_empty:
  assumes "cs_ntuples c \<le> 0"
  shows "cs_status c = CONSUMER_EOF \<Longrightarrow>
      \<exists>evs. SharedQueueRead_locked i c canwait
        = (Returns True None, c\<lparr>cs_status := CONSUMER_DONE\<rparr>, evs)"
    and "cs_status c = CONSUMER_ACTIVE \<or> cs_status c = CONSUMER_DONE \<Longrightarrow>
      \<exists>evs. SharedQueueRead_locked i c canwait
        = (if canwait then WaitsEmpty else Returns False None, c, evs)"
  using assms by (auto simp add: SharedQueueRead_locked_def SharedQueueRead_loop_def)

lemma step_locked:
  assumes "chan_inv W fin ch" "ch_reader ch = None \<or> ch_reader ch = Some WaitsEmpty"
  shows "chan_inv W fin (channel_settle (SharedQueueRead_locked 0 (ch_cstate ch) canwait) ch)"
proof -
  have inv: "phase W (ch_cstate ch) (ch_store ch) (ch_reader ch) (ch_received ch)"
    "4 < cs_qlength (ch_cstate ch)" "cs_qlength (ch_cstate ch) < 2147483648"
    "\<forall>t\<in>set W. length t < 2147483648"
    "cs_status (ch_cstate ch) = CONSUMER_ACTIVE \<or>
      (cs_status (ch_cstate ch) = CONSUMER_EOF \<or> cs_status (ch_cstate ch) = CONSUMER_DONE) \<and>
      ch_store ch = None"
    "ch_eof ch \<longleftrightarrow> cs_status (ch_cstate ch) = CONSUMER_DONE"
    "\<not> fin \<longrightarrow> cs_status (ch_cstate ch) = CONSUMER_ACTIVE"
    using assms(1) by (auto simp add: chan_inv_def)
  have idle: "ch_reader ch \<noteq> long_wait t k" for t k
    using assms(2) by (auto simp add: long_wait_def)
  from inv(1) show ?thesis
  proof (cases rule: phase.cases)
    case (Normal ts)
    show ?thesis
    proof (cases ts)
      case Nil
      then have n: "cs_ntuples (ch_cstate ch) \<le> 0" and ch0: "ring_chunks (ch_cstate ch) []"
        using Normal(1) by (simp_all add: ring_chunks_def)
      show ?thesis
      proof (cases "cs_status (ch_cstate ch) = CONSUMER_EOF")
        case True
        then have s: "ch_store ch = None" using inv(5) by simp
        from locked_empty(1) [OF n True] obtain evs where
          r: "SharedQueueRead_locked 0 (ch_cstate ch) canwait
            = (Returns True None, (ch_cstate ch)\<lparr>cs_status := CONSUMER_DONE\<rparr>, evs)" by blast
        have "phase W ((ch_cstate ch)\<lparr>cs_status := CONSUMER_DONE\<rparr>) (ch_store ch) None
            (ch_received ch)"
          by (rule phase.Normal [where ts = "[]"]) (use ch0 Normal(3) Nil in simp_all)
        then show ?thesis using inv True s by (simp add: chan_inv_def r channel_settle_def)
      next
        case False
        then have a: "cs_status (ch_cstate ch) = CONSUMER_ACTIVE \<or>
            cs_status (ch_cstate ch) = CONSUMER_DONE" using inv(5) by auto
        from locked_empty(2) [OF n a] obtain evs where
          r: "SharedQueueRead_locked 0 (ch_cstate ch) canwait
            = (if canwait then WaitsEmpty else Returns False None, ch_cstate ch, evs)" by blast
        have "phase W (ch_cstate ch) (ch_store ch) rd (ch_received ch)"
          if "rd = None \<or> rd = Some WaitsEmpty" for rd
          by (rule phase.Normal [where ts = "[]"]) (use ch0 Normal(3) Nil that in simp_all)
        then show ?thesis using inv by (simp add: chan_inv_def r channel_settle_def)
      qed
    next
      case (Cons t ts')
      then have ch1: "ring_chunks (ch_cstate ch) (record_bytes t # map record_bytes ts')"
        using Normal(1) by simp
      from locked_record [OF ch1 inv(2,3), of 0 canwait] obtain cs' evs where
        r: "SharedQueueRead_locked 0 (ch_cstate ch) canwait = (Returns False (Some t), cs', evs)"
        and c: "ring_chunks cs' (map record_bytes ts')"
          "cs_status cs' = cs_status (ch_cstate ch)" "cs_qlength cs' = cs_qlength (ch_cstate ch)"
        by blast
      have nd: "cs_status cs' \<noteq> CONSUMER_DONE" using Normal(4) Cons c(2) by auto
      have "phase W cs' (ch_store ch) None (ch_received ch @ [t])"
        by (rule phase.Normal [where ts = ts']) (use c nd Normal(3) Cons in simp_all)
      then show ?thesis using inv c nd by (simp add: chan_inv_def r channel_settle_def)
    qed
  next
    case (Partial t k rest)
    then have k: "k = 0" using idle by auto
    have lt: "length t < 2147483648" using inv(4) Partial(5) by simp
    have ch1: "ring_chunks (ch_cstate ch) [fragment (room (ch_cstate ch)) t 0]"
      and m: "room (ch_cstate ch) < length t"
      using Partial(1,2) k by simp_all
    from locked_first [OF ch1 m lt inv(2,3), of 0 canwait] obtain cs' evs where
      r: "SharedQueueRead_locked 0 (ch_cstate ch) canwait
          = (WaitsLong \<lparr>pl_msglen = int (length t), pl_msg = take (room (ch_cstate ch)) t,
                        pl_offset = int (room (ch_cstate ch))\<rparr>, cs', evs)"
      and c: "ring_rel cs' 0" "cs_ntuples cs' = LONG_TUPLE"
        "take 4 (cs_qstart cs') = int_bytes (int (room (ch_cstate ch)))"
        "cs_status cs' = cs_status (ch_cstate ch)" "cs_qlength cs' = cs_qlength (ch_cstate ch)"
      by blast
    have rm: "room cs' = room (ch_cstate ch)" by (rule room_cong [OF c(5)])
    have "phase W cs' (ch_store ch) (long_wait t (room (ch_cstate ch))) (ch_received ch)"
      by (rule phase.Await [where t = t and k = "room (ch_cstate ch)" and rest = rest])
         (use c rm m Partial in simp_all)
    then show ?thesis using inv c Partial(6)
      by (simp add: chan_inv_def r channel_settle_def long_wait_def)
  next
    case (Await k t rest)
    then show ?thesis using idle by simp
  next
    case (Last t k ts)
    then show ?thesis using idle by simp
  qed
qed

lemma step_long:
  assumes "chan_inv W fin ch" "ch_reader ch = Some (WaitsLong ps)"
  shows "chan_inv W fin (channel_settle (sq_pull_long_tuple_wake 0 (ch_cstate ch) ps) ch)"
proof -
  have inv: "phase W (ch_cstate ch) (ch_store ch) (ch_reader ch) (ch_received ch)"
    "4 < cs_qlength (ch_cstate ch)" "cs_qlength (ch_cstate ch) < 2147483648"
    "\<forall>t\<in>set W. length t < 2147483648"
    "cs_status (ch_cstate ch) = CONSUMER_ACTIVE \<or>
      (cs_status (ch_cstate ch) = CONSUMER_EOF \<or> cs_status (ch_cstate ch) = CONSUMER_DONE) \<and>
      ch_store ch = None"
    "ch_eof ch \<longleftrightarrow> cs_status (ch_cstate ch) = CONSUMER_DONE"
    "\<not> fin \<longrightarrow> cs_status (ch_cstate ch) = CONSUMER_ACTIVE"
    using assms(1) by (auto simp add: chan_inv_def)
  from inv(1) show ?thesis
  proof (cases rule: phase.cases)
    case (Normal ts)
    then show ?thesis using assms(2) by auto
  next
    case (Partial t k rest)
    then have ps: "ps = \<lparr>pl_msglen = int (length t), pl_msg = take k t, pl_offset = int k\<rparr>"
      using assms(2) by (auto simp add: long_wait_def)
    have lt: "length t < 2147483648" using inv(4) Partial(5) by simp
    have k: "k \<le> length t" using Partial(2) by simp
    from wake_middle [OF Partial(1) k lt inv(2,3) Partial(2), of 0] obtain cs' evs where
      r: "sq_pull_long_tuple_wake 0 (ch_cstate ch) ps
          = (WaitsLong \<lparr>pl_msglen = int (length t),
                        pl_msg = take (k + room (ch_cstate ch)) t,
                        pl_offset = int (k + room (ch_cstate ch))\<rparr>, cs', evs)"
      and c: "ring_rel cs' 0" "cs_ntuples cs' = LONG_TUPLE"
        "take 4 (cs_qstart cs') = int_bytes (int (k + room (ch_cstate ch)))"
        "cs_status cs' = cs_status (ch_cstate ch)" "cs_qlength cs' = cs_qlength (ch_cstate ch)"
      unfolding ps by blast
    have rm: "room cs' = room (ch_cstate ch)" by (rule room_cong [OF c(5)])
    have "phase W cs' (ch_store ch) (long_wait t (k + room (ch_cstate ch))) (ch_received ch)"
      by (rule phase.Await [where t = t and k = "k + room (ch_cstate ch)" and rest = rest])
         (use c rm Partial in simp_all)
    then show ?thesis using inv c Partial(6)
      by (simp add: chan_inv_def r channel_settle_def long_wait_def)
  next
    case (Await k t rest)
    from wake_await [OF Await(2), of 0 ps] obtain evs where
      r: "sq_pull_long_tuple_wake 0 (ch_cstate ch) ps = (WaitsLong ps, ch_cstate ch, evs)"
      by blast
    have "channel_settle (sq_pull_long_tuple_wake 0 (ch_cstate ch) ps) ch = ch"
      using assms(2) by (simp add: r channel_settle_def)
    then show ?thesis using assms(1) by simp
  next
    case (Last t k ts)
    then have ps: "ps = \<lparr>pl_msglen = int (length t), pl_msg = take k t, pl_offset = int k\<rparr>"
      using assms(2) by (auto simp add: long_wait_def)
    have lt: "length t < 2147483648" using inv(4) Last(5) by simp
    from wake_last [OF Last(1,3) lt inv(2,3) Last(2), of 0] obtain cs' evs where
      r: "sq_pull_long_tuple_wake 0 (ch_cstate ch) ps = (Returns False (Some t), cs', evs)"
      and c: "ring_chunks cs' (map record_bytes ts)"
        "cs_status cs' = cs_status (ch_cstate ch)" "cs_qlength cs' = cs_qlength (ch_cstate ch)"
      unfolding ps by blast
    have nd: "cs_status cs' \<noteq> CONSUMER_DONE" using Last(6) c(2) by simp
    have "phase W cs' (ch_store ch) None (ch_received ch @ [t])"
      by (rule phase.Normal [where ts = ts]) (use c nd Last(5) in simp_all)
    then show ?thesis using inv c nd by (simp add: chan_inv_def r channel_settle_def)
  qed
qed

lemma phase_reader:
  assumes "phase W c st rd rcv"
  shows "rd = None \<or> rd = Some WaitsEmpty \<or> (\<exists>ps. rd = Some (WaitsLong ps))"
  using assms by (cases rule: phase.cases) (auto simp add: long_wait_def)

lemma step_read:
  assumes "chan_inv W fin ch"
  shows "chan_inv W fin (channel_step ch (Read canwait))"
proof (cases "ch_reader ch")
  case None
  then show ?thesis using step_locked [OF assms, of canwait] by simp
next
  case (Some w)
  then show ?thesis using assms by simp
qed

lemma step_wake:
  assumes "chan_inv W fin ch"
  shows "chan_inv W fin (channel_step ch Wake)"
proof -
  have "phase W (ch_cstate ch) (ch_store ch) (ch_reader ch) (ch_received ch)"
    using assms by (simp add: chan_inv_def)
  from phase_reader [OF this] consider "ch_reader ch = None" | "ch_reader ch = Some WaitsEmpty"
    | ps where "ch_reader ch = Some (WaitsLong ps)" by auto
  then show ?thesis
  proof cases
    case 1
    then show ?thesis using assms by simp
  next
    case 2
    then show ?thesis using step_locked [OF assms, of True]
      by (simp add: SharedQueueRead_wake_def)
  next
    case 3
    then show ?thesis using step_long [OF assms 3]
      by (simp add: SharedQueueRead_wake_def)
  qed
qed

lemma channel_run_Cons: "channel_run ch (a # acts) = channel_run (channel_step ch a) acts"
  by (simp add: channel_run_def)

lemma channel_run_append:
  "channel_run ch (xs @ ys) = channel_run (channel_run ch xs) ys"
  by (simp add: channel_run_def)

lemma written_simps [simp]:
  "written [] = []"
  "written (Write d # acts) = d # written acts"
  "written (Finish # acts) = written acts"
  "written (Read b # acts) = written acts"
  "written (Wake # acts) = written acts"
  by (simp_all add: written_def)

lemma run_inv:
  assumes "chan_inv W fin ch" "if fin then written acts = [] else orderly acts"
    "\<forall>d\<in>set (written acts). length d < 2147483648"
  shows "\<exists>fin'. chan_inv (W @ written acts) fin' (channel_run ch acts)"
  using assms
proof (induction acts arbitrary: W fin ch)
  case Nil
  then show ?case by (auto simp add: channel_run_def)
next
  case (Cons a acts)
  show ?case
  proof (cases a)
    case (Write d)
    then have nf: "\<not> fin" and o: "orderly acts" and l: "length d < 2147483648"
      using Cons.prems(2,3) by (auto split: if_splits)
    have inv: "chan_inv (W @ [d]) False (channel_step ch (Write d))"
      using step_write [of W ch d] Cons.prems(1) nf l by simp
    have "\<exists>fin'. chan_inv ((W @ [d]) @ written acts) fin'
        (channel_run (channel_step ch (Write d)) acts)"
      by (rule Cons.IH [OF inv]) (use o Cons.prems(3) Write in simp_all)
    then show ?thesis using Write by (simp add: channel_run_Cons)
  next
    case Finish
    then have w: "written acts = []" using Cons.prems(2) by (auto split: if_splits)
    have inv: "chan_inv W True (channel_step ch Finish)"
      by (rule step_finish [OF Cons.prems(1)])
    have "\<exists>fin'. chan_inv (W @ written acts) fin' (channel_run (channel_step ch Finish) acts)"
      by (rule Cons.IH [OF inv]) (use w in simp_all)
    then show ?thesis using Finish by (simp add: channel_run_Cons)
  next
    case (Read b)
    have inv: "chan_inv W fin (channel_step ch (Read b))"
      by (rule step_read [OF Cons.prems(1)])
    have "\<exists>fin'. chan_inv (W @ written acts) fin' (channel_run (channel_step ch (Read b)) acts)"
      by (rule Cons.IH [OF inv]) (use Cons.prems(2,3) Read in \<open>simp_all split: if_splits\<close>)
    then show ?thesis using Read by (simp add: channel_run_Cons)
  next
    case Wake
    have inv: "chan_inv W fin (channel_step ch Wake)"
      by (rule step_wake [OF Cons.prems(1)])
    have "\<exists>fin'. chan_inv (W @ written acts) fin' (channel_run (channel_step ch Wake) acts)"
      by (rule Cons.IH [OF inv]) (use Cons.prems(2,3) Wake in \<open>simp_all split: if_splits\<close>)
    then show ?thesis using Wake by (simp add: channel_run_Cons)
  qed
qed

lemma empty_slot_chunks: "empty_slot cs \<Longrightarrow> ring_chunks cs []"
  by (simp add: empty_slot_def ring_chunks_Nil ring_rel_def ring_ok_def)

lemma empty_slot_inv:
  assumes "empty_slot cs"
  shows "chan_inv [] False (fresh_channel cs)"
proof -
  have "phase [] cs None None []"
    by (rule phase.Normal [where ts = "[]"])
       (use empty_slot_chunks [OF assms] in \<open>simp_all add: stored_def\<close>)
  then show ?thesis using assms by (simp add: chan_inv_def fresh_channel_def empty_slot_def)
qed

lemma inv_prefix:
  assumes "chan_inv W fin ch"
  shows "take (length (ch_received ch)) W = ch_received ch"
proof -
  have "phase W (ch_cstate ch) (ch_store ch) (ch_reader ch) (ch_received ch)"
    using assms by (simp add: chan_inv_def)
  then show ?thesis by (cases rule: phase.cases) simp_all
qed

lemma inv_eof:
  assumes "chan_inv W fin ch" "ch_eof ch"
  shows "ch_received ch = W"
proof -
  have ph: "phase W (ch_cstate ch) (ch_store ch) (ch_reader ch) (ch_received ch)"
    and d: "cs_status (ch_cstate ch) = CONSUMER_DONE" and s: "ch_store ch = None"
    using assms by (auto simp add: chan_inv_def)
  from ph show ?thesis using d s by (cases rule: phase.cases) (simp_all add: stored_def)
qed

lemma reachable_inv:
  assumes "empty_slot cs" "orderly acts" "\<forall>d\<in>set (written acts). length d < 2147483648"
  shows "\<exists>fin. chan_inv (written acts) fin (channel_run (fresh_channel cs) acts)"
  using run_inv [OF empty_slot_inv [OF assms(1)], of acts] assms(2,3) by simp

lemma received_settle:
  "\<exists>x. ch_received (channel_settle step ch) = ch_received ch @ x"
proof -
  obtain res c evs where s: "step = (res, c, evs)" by (cases step)
  show ?thesis unfolding s by (cases res) (simp_all add: channel_settle_def)
qed

lemma received_step: "\<exists>x. ch_received (channel_step ch a) = ch_received ch @ x"
proof (cases a)
  case (Write d)
  then show ?thesis by (simp split: prod.splits)
next
  case Finish
  then show ?thesis by (simp split: prod.splits)
next
  case (Read b)
  then show ?thesis using received_settle by (cases "ch_reader ch") simp_all
next
  case Wake
  then show ?thesis using received_settle by (cases "ch_reader ch") simp_all
qed

lemma received_run: "\<exists>x. ch_received (channel_run ch acts) = ch_received ch @ x"
proof (induction acts arbitrary: ch)
  case Nil
  then show ?case by (simp add: channel_run_def)
next
  case (Cons a acts)
  from received_step [of ch a] obtain x where
    x: "ch_received (channel_step ch a) = ch_received ch @ x" by blast
  from Cons [of "channel_step ch a"] obtain y where
    "ch_received (channel_run (channel_step ch a) acts) = ch_received (channel_step ch a) @ y"
    by blast
  then show ?case using x by (simp add: channel_run_Cons)
qed

lemma written_orderly: "written acts = [] \<Longrightarrow> orderly acts"
proof (induction acts)
  case Nil
  then show ?case by simp
next
  case (Cons a acts)
  then show ?case by (cases a) simp_all
qed

lemma received_stays:
  assumes "chan_inv W fin ch" "ch_received ch = W" "written acts = []"
  shows "ch_received (channel_run ch acts) = W"
proof -
  have "if fin then written acts = [] else orderly acts"
    using assms(3) written_orderly by simp
  from run_inv [OF assms(1) this] assms(3) obtain fin' where
    "chan_inv W fin' (channel_run ch acts)" by auto
  then have p: "take (length (ch_received (channel_run ch acts))) W
      = ch_received (channel_run ch acts)" by (rule inv_prefix)
  from received_run [of ch acts] obtain x where
    x: "ch_received (channel_run ch acts) = W @ x" using assms(2) by auto
  from p show ?thesis unfolding x by simp
qed

lemma written_rounds [simp]: "written (concat (replicate j [Finish, Wake])) = []"
  by (induction j) simp_all

lemma write_long_empty:
  assumes "ring_chunks c []" "cs_qlength c < 2147483648" "room c < length p" "4 < cs_qlength c"
  shows "SharedQueueWrite c p None = (c, Some [p])"
proof -
  have "size_t (QUEUE_FREE_SPACE c) = cs_qlength c" using size_t_free [OF assms(1,2)] by simp
  moreover have "cs_qlength c < 4 + int (length p)" using assms(3,4) by (simp add: room_def)
  ultimately show ?thesis by (simp add: SharedQueueWrite_def SharedQueueWrite_row_def)
qed

lemma write_short_empty:
  assumes "ring_chunks c []" "cs_qlength c < 2147483648" "4 + int (length p) \<le> cs_qlength c"
    "cs_status c = CONSUMER_ACTIVE"
  shows "\<exists>c'. SharedQueueWrite c p None = (c', None) \<and> ring_chunks c' [record_bytes p] \<and>
           cs_status c' = cs_status c \<and> cs_qlength c' = cs_qlength c"
proof -
  have f: "size_t (QUEUE_FREE_SPACE c) = cs_qlength c" using size_t_free [OF assms(1,2)] by simp
  have "\<not> cs_qlength c - int (length (concat [])) < 4 + int (length p)" using assms(3) by simp
  from ring_chunks_record [OF assms(1) this] show ?thesis
    using assms(3,4) f by (simp add: SharedQueueWrite_def SharedQueueWrite_row_def Let_def)
qed

lemma finish_first:
  assumes "ring_chunks c []" "cs_qlength c < 2147483648" "room c < length p" "4 < cs_qlength c"
    "cs_status c = CONSUMER_ACTIVE"
  shows "\<exists>c' x. SharedQueueFinish_slot c (Some [p]) = (c', Some [p], x) \<and>
           ring_chunks c' [fragment (room c) p 0] \<and>
           cs_status c' = cs_status c \<and> cs_qlength c' = cs_qlength c"
proof -
  have f: "size_t (QUEUE_FREE_SPACE c) = cs_qlength c" "QUEUE_FREE_SPACE c = cs_qlength c"
    using size_t_free [OF assms(1,2)] free_space_chunks [OF assms(1)] by simp_all
  have full: "cs_qlength c < 4 + int (length p)" using assms(3,4) by (simp add: room_def)
  have n: "cs_ntuples c \<le> 0" using assms(1) by (simp add: ring_chunks_Nil)
  from push_first [OF assms(1,4), of p] obtain c1 where
    p: "sq_push_long_tuple c p = (False, c1)" "ring_chunks c1 [fragment (room c) p 0]"
      "cs_status c1 = cs_status c" "cs_qlength c1 = cs_qlength c"
    by blast
  have "SharedQueueDump c [p] = (False, c1, [p])"
    using assms(5) f full n p(1) by (simp add: SharedQueueDump_def)
  then have "SharedQueueFinish_slot c (Some [p]) = (c1, Some [p], 1)"
    using assms(4,5) f by (simp add: SharedQueueFinish_slot_def)
  then show ?thesis using p by blast
qed

lemma await_rounds:
  assumes "ring_rel (ch_cstate ch) 0" "cs_ntuples (ch_cstate ch) = LONG_TUPLE"
    "take 4 (cs_qstart (ch_cstate ch)) = int_bytes (int k)" "k < length p"
    "room (ch_cstate ch) < length p" "ch_reader ch = long_wait p k" "ch_store ch = Some [p]"
    "ch_received ch = []" "\<not> ch_eof ch" "cs_status (ch_cstate ch) = CONSUMER_ACTIVE"
    "4 < cs_qlength (ch_cstate ch)" "cs_qlength (ch_cstate ch) < 2147483648"
    "length p < 2147483648" "length p \<le> k + j * room (ch_cstate ch)"
  shows "ch_received (channel_run ch (concat (replicate j [Finish, Wake]))) = [p]"
  using assms
proof (induction j arbitrary: ch k)
  case 0
  then show ?case by simp
next
  case (Suc j)
  let ?c = "ch_cstate ch"
  let ?ps = "\<lparr>pl_msglen = int (length p), pl_msg = take k p, pl_offset = int k\<rparr>"
  have ph: "phase [p] ?c (ch_store ch) (ch_reader ch) (ch_received ch)"
    by (rule phase.Await [where t = p and k = k and rest = "[]"]) (use Suc.prems in simp_all)
  have inv: "chan_inv [p] False ch"
    unfolding chan_inv_def using ph Suc.prems by simp
  obtain c' st' x where f: "SharedQueueFinish_slot ?c (Some [p]) = (c', st', x)"
    by (cases "SharedQueueFinish_slot ?c (Some [p])") auto
  define ch1 where "ch1 = channel_step ch Finish"
  define ch2 where "ch2 = channel_step ch1 Wake"
  have ch1: "ch1 = ch\<lparr>ch_cstate := c', ch_store := st'\<rparr>"
    unfolding ch1_def using f Suc.prems(7) by simp
  have inv1: "chan_inv [p] True ch1" unfolding ch1_def by (rule step_finish [OF inv])
  have inv2: "chan_inv [p] True ch2" unfolding ch2_def by (rule step_wake [OF inv1])
  have run: "channel_run ch (concat (replicate (Suc j) [Finish, Wake]))
      = channel_run ch2 (concat (replicate j [Finish, Wake]))"
    by (simp add: channel_run_Cons ch1_def ch2_def)
  have rd1: "ch_reader ch1 = Some (WaitsLong ?ps)"
    unfolding ch1 using Suc.prems(6) by (simp add: long_wait_def)
  have wake: "ch2 = channel_settle (sq_pull_long_tuple_wake 0 c' ?ps) ch1"
    unfolding ch2_def using rd1 by (simp add: SharedQueueRead_wake_def ch1)
  note fa = finish_await [OF Suc.prems(1,2,3,4,13,11,12,5,10) f]
  then have ql: "cs_qlength c' = cs_qlength ?c" by simp
  have rm: "room c' = room ?c" by (rule room_cong [OF ql])
  have env: "4 < cs_qlength c'" "cs_qlength c' < 2147483648" using ql Suc.prems(11,12) by simp_all
  have k: "k \<le> length p" using Suc.prems(4) by simp
  show ?case
  proof (cases "length p - k \<le> room ?c")
    case True
    with fa obtain moved where "[] = moved @ stored st'"
      "ring_chunks c' (fragment (room ?c) p k # map record_bytes moved)" by auto
    then have ch: "ring_chunks c' (fragment (room c') p k # [])" using rm by simp
    have le: "length p - k \<le> room c'" using True rm by simp
    from wake_last [OF ch k Suc.prems(13) env le, of 0] obtain cs'' evs where
      "sq_pull_long_tuple_wake 0 c' ?ps = (Returns False (Some p), cs'', evs)" by blast
    then have "ch_received ch2 = [p]"
      unfolding wake using Suc.prems(8) by (simp add: channel_settle_def ch1)
    from received_stays [OF inv2 this written_rounds] show ?thesis unfolding run .
  next
    case False
    with fa have st: "st' = Some [p]" and a: "cs_status c' = CONSUMER_ACTIVE"
      and ch: "ring_chunks c' [fragment (room c') p k]" using rm by auto
    have more: "room c' < length p - k" using False rm by simp
    from wake_middle [OF ch k Suc.prems(13) env more, of 0] obtain cs'' evs where
      r: "sq_pull_long_tuple_wake 0 c' ?ps
          = (WaitsLong \<lparr>pl_msglen = int (length p), pl_msg = take (k + room c') p,
                        pl_offset = int (k + room c')\<rparr>, cs'', evs)"
      and c: "ring_rel cs'' 0" "cs_ntuples cs'' = LONG_TUPLE"
        "take 4 (cs_qstart cs'') = int_bytes (int (k + room c'))"
        "cs_status cs'' = cs_status c'" "cs_qlength cs'' = cs_qlength c'"
      by blast
    have ch2: "ch2 = ch1\<lparr>ch_cstate := cs'',
        ch_reader := Some (WaitsLong \<lparr>pl_msglen = int (length p),
          pl_msg = take (k + room c') p, pl_offset = int (k + room c')\<rparr>)\<rparr>"
      unfolding wake r by (simp add: channel_settle_def)
    have rm2: "room (ch_cstate ch2) = room ?c"
      unfolding ch2 using room_cong [OF c(5)] rm by simp
    have "ch_received (channel_run ch2 (concat (replicate j [Finish, Wake]))) = [p]"
    proof (rule Suc.IH [where k = "k + room ?c"])
      show "ring_rel (ch_cstate ch2) 0" unfolding ch2 using c(1) by simp
      show "cs_ntuples (ch_cstate ch2) = LONG_TUPLE" unfolding ch2 using c(2) by simp
      show "take 4 (cs_qstart (ch_cstate ch2)) = int_bytes (int (k + room ?c))"
        unfolding ch2 using c(3) rm by simp
      show "k + room ?c < length p" using more rm by simp
      show "room (ch_cstate ch2) < length p" unfolding rm2 by (rule Suc.prems(5))
      show "ch_reader ch2 = long_wait p (k + room ?c)"
        unfolding ch2 using rm by (simp add: long_wait_def)
      show "ch_store ch2 = Some [p]" unfolding ch2 ch1 using st by simp
      show "ch_received ch2 = []" unfolding ch2 ch1 using Suc.prems(8) by simp
      show "\<not> ch_eof ch2" unfolding ch2 ch1 using Suc.prems(9) by simp
      show "cs_status (ch_cstate ch2) = CONSUMER_ACTIVE" unfolding ch2 using c(4) a by simp
      show "4 < cs_qlength (ch_cstate ch2)" unfolding ch2 using c(5) env by simp
      show "cs_qlength (ch_cstate ch2) < 2147483648" unfolding ch2 using c(5) env by simp
      show "length p < 2147483648" by (rule Suc.prems(13))
      show "length p \<le> k + room ?c + j * room (ch_cstate ch2)"
        unfolding rm2 using Suc.prems(14) by simp
    qed
    then show ?thesis unfolding run .
  qed
qed

subsection \<open>Round trip, order of the data rows, and the positions\<close>

lemma first_round:
  assumes "empty_slot cs" "room cs < length p" "length p < 2147483648"
  shows "\<exists>c. channel_run (fresh_channel cs) [Write p, Read True, Finish, Wake]
           = \<lparr>ch_cstate = c, ch_store = Some [p], ch_reader = long_wait p (room cs),
              ch_received = [], ch_eof = False\<rparr> \<and>
         ring_rel c 0 \<and> cs_ntuples c = LONG_TUPLE \<and>
         take 4 (cs_qstart c) = int_bytes (int (room cs)) \<and>
         cs_status c = CONSUMER_ACTIVE \<and> cs_qlength c = cs_qlength cs"
proof -
  have e: "ring_chunks cs []" by (rule empty_slot_chunks [OF assms(1)])
  have env: "4 < cs_qlength cs" "cs_qlength cs < 2147483648"
    "cs_status cs = CONSUMER_ACTIVE" "cs_ntuples cs \<le> 0"
    using assms(1) by (simp_all add: empty_slot_def)
  have w: "SharedQueueWrite cs p None = (cs, Some [p])"
    by (rule write_long_empty [OF e env(2) assms(2) env(1)])
  from locked_empty(2) [OF env(4), of 0 True] env(3) obtain evs where
    r: "SharedQueueRead_locked 0 cs True = (WaitsEmpty, cs, evs)" by auto
  from finish_first [OF e env(2) assms(2) env(1,3)] obtain c' x where
    f: "SharedQueueFinish_slot cs (Some [p]) = (c', Some [p], x)"
    and c': "ring_chunks c' [fragment (room cs) p 0]"
      "cs_status c' = cs_status cs" "cs_qlength c' = cs_qlength cs"
    by blast
  have rm: "room c' = room cs" by (rule room_cong [OF c'(3)])
  have ch: "ring_chunks c' [fragment (room c') p 0]" using c'(1) rm by simp
  have env': "4 < cs_qlength c'" "cs_qlength c' < 2147483648" "room c' < length p"
    using c'(3) env rm assms(2) by simp_all
  from locked_first [OF ch env'(3) assms(3) env'(1,2), of 0 True] obtain c'' evs' where
    l: "SharedQueueRead_locked 0 c' True
          = (WaitsLong \<lparr>pl_msglen = int (length p), pl_msg = take (room c') p,
                        pl_offset = int (room c')\<rparr>, c'', evs')"
    and c'': "ring_rel c'' 0" "cs_ntuples c'' = LONG_TUPLE"
      "take 4 (cs_qstart c'') = int_bytes (int (room c'))"
      "cs_status c'' = cs_status c'" "cs_qlength c'' = cs_qlength c'"
    by blast
  have "channel_run (fresh_channel cs) [Write p, Read True, Finish, Wake]
      = \<lparr>ch_cstate = c'', ch_store = Some [p], ch_reader = long_wait p (room cs),
         ch_received = [], ch_eof = False\<rparr>"
    by (simp add: channel_run_def fresh_channel_def w r f l channel_settle_def
        SharedQueueRead_wake_def long_wait_def rm)
  then show ?thesis using c'' c'(2,3) env(3) rm by simp
qed

lemma short_round:
  assumes "empty_slot cs" "4 + int (length p) \<le> cs_qlength cs"
  shows "ch_received (channel_run (fresh_channel cs) [Write p, Read canwait]) = [p]"
proof -
  have e: "ring_chunks cs []" by (rule empty_slot_chunks [OF assms(1)])
  have env: "4 < cs_qlength cs" "cs_qlength cs < 2147483648"
    "cs_status cs = CONSUMER_ACTIVE"
    using assms(1) by (simp_all add: empty_slot_def)
  from write_short_empty [OF e env(2) assms(2) env(3)] obtain c' where
    w: "SharedQueueWrite cs p None = (c', None)"
    and c': "ring_chunks c' (record_bytes p # [])" "cs_qlength c' = cs_qlength cs"
    by auto
  have env': "4 < cs_qlength c'" "cs_qlength c' < 2147483648" using c'(2) env by simp_all
  from locked_record [OF c'(1) env', of 0 canwait] obtain c'' evs where
    "SharedQueueRead_locked 0 c' canwait = (Returns False (Some p), c'', evs)" by blast
  then show ?thesis
    by (simp add: channel_run_def fresh_channel_def w channel_settle_def)
qed

lemma round_trip_rounds:
  assumes "empty_slot cs" "length p < 2147483648" "length p \<le> j * room cs"
  shows "ch_received (channel_run (fresh_channel cs)
           ([Write p, Read True] @ concat (replicate j [Finish, Wake]))) = [p]"
proof (cases "length p \<le> room cs")
  case True
  have env: "4 < cs_qlength cs" using assms(1) by (simp add: empty_slot_def)
  have fits: "4 + int (length p) \<le> cs_qlength cs" using True env by (simp add: room_def)
  let ?ch = "channel_run (fresh_channel cs) [Write p, Read True]"
  have r: "ch_received ?ch = [p]" by (rule short_round [OF assms(1) fits])
  from reachable_inv [OF assms(1), of "[Write p, Read True]"] assms(2)
  obtain fin where inv: "chan_inv [p] fin ?ch" by auto
  from received_stays [OF inv r written_rounds] show ?thesis
    unfolding channel_run_append .
next
  case False
  then have long: "room cs < length p" by simp
  then obtain j' where j: "j = Suc j'" using assms(3) by (cases j) simp_all
  from first_round [OF assms(1) long assms(2)] obtain c where
    ch: "channel_run (fresh_channel cs) [Write p, Read True, Finish, Wake]
           = \<lparr>ch_cstate = c, ch_store = Some [p], ch_reader = long_wait p (room cs),
              ch_received = [], ch_eof = False\<rparr>"
    and c: "ring_rel c 0" "cs_ntuples c = LONG_TUPLE"
      "take 4 (cs_qstart c) = int_bytes (int (room cs))"
      "cs_status c = CONSUMER_ACTIVE" "cs_qlength c = cs_qlength cs"
    by blast
  let ?ch = "\<lparr>ch_cstate = c, ch_store = Some [p], ch_reader = long_wait p (room cs),
              ch_received = [], ch_eof = False\<rparr>"
  have rm: "room c = room cs" by (rule room_cong [OF c(5)])
  have env: "4 < cs_qlength cs" "cs_qlength cs < 2147483648"
    using assms(1) by (simp_all add: empty_slot_def)
  have "ch_received (channel_run ?ch (concat (replicate j' [Finish, Wake]))) = [p]"
    by (rule await_rounds [where k = "room cs"])
       (use c rm env long assms(2,3) j in simp_all)
  moreover have "[Write p, Read True] @ concat (replicate j [Finish, Wake])
      = [Write p, Read True, Finish, Wake] @ concat (replicate j' [Finish, Wake])"
    using j by simp
  moreover have "channel_run (fresh_channel cs)
        ([Write p, Read True, Finish, Wake] @ concat (replicate j' [Finish, Wake]))
      = channel_run ?ch (concat (replicate j' [Finish, Wake]))"
    by (simp only: channel_run_append ch)
  ultimately show ?thesis by (simp only:)
qed

text \<open>
  C1. A data row written to an empty queue of an active consumer comes back byte for
  byte. When the data row and its length fit the queue, \<^verbatim>\<open>SharedQueueWrite\<close> followed by
  \<^verbatim>\<open>SharedQueueRead\<close> returns it. In general, and so for a data row longer than the queue,
  the read that follows the write returns it once the producer has called
  \<^verbatim>\<open>SharedQueueFinish\<close> and the reader has been woken \<open>j\<close> times, where \<open>j\<close> pieces
  of the size of the queue less the four bytes of a length cover the data row.
\<close>

theorem C1_round_trip:
  assumes "empty_slot cs" "length p < 2147483648"
  shows "(4 + int (length p) \<le> cs_qlength cs \<longrightarrow>
          ch_received (channel_run (fresh_channel cs) [Write p, Read canwait]) = [p]) \<and>
         (length p \<le> j * room cs \<longrightarrow>
          ch_received (channel_run (fresh_channel cs)
            ([Write p, Read True] @ concat (replicate j [Finish, Wake]))) = [p])"
  using short_round [OF assms(1)] round_trip_rounds [OF assms] by blast

lemma fresh_slot_empty:
  "4 < length mem \<Longrightarrow> length mem < 2147483648 \<Longrightarrow> empty_slot (fresh_slot mem)"
  by (auto simp add: empty_slot_def fresh_slot_def ring_ok_def)

theorem C1_round_trip_witness:
  "ch_received (channel_run
     (fresh_channel (fresh_slot [0, 0, 0, 0, 0, 0, 0, 0, 0, 0, 0, 0, 0, 0, 0, 0]))
     [Write [65, 66, 67], Read False]) = [[65, 66, 67]] \<and>
   ch_received (channel_run (fresh_channel (fresh_slot [0, 0, 0, 0, 0, 0, 0, 0]))
     [Write [1, 2, 3, 4, 5, 6], Read True, Finish, Wake, Finish, Wake]) = [[1, 2, 3, 4, 5, 6]]"
  using C1_round_trip [where cs = "fresh_slot [0, 0, 0, 0, 0, 0, 0, 0, 0, 0, 0, 0, 0, 0, 0, 0]"
      and p = "[65, 66, 67]" and canwait = False and j = "Suc 0"]
    C1_round_trip [where cs = "fresh_slot [0, 0, 0, 0, 0, 0, 0, 0]"
      and p = "[1, 2, 3, 4, 5, 6]" and canwait = True and j = "Suc (Suc 0)"]
    fresh_slot_empty [of "[0, 0, 0, 0, 0, 0, 0, 0, 0, 0, 0, 0, 0, 0, 0, 0]"]
    fresh_slot_empty [of "[0, 0, 0, 0, 0, 0, 0, 0]"]
  by (simp add: room_def fresh_slot_def)

subsection \<open>Every data row arrives\<close>

text \<open>
  What the consumer has still to get becomes less in every round in which the producer
  calls \<^verbatim>\<open>SharedQueueFinish\<close>, a waiting call is resumed and the consumer calls
  \<^verbatim>\<open>SharedQueueRead\<close>, until the end of the data has been returned.
\<close>

lemma push_ntuples: "cs_ntuples (snd (sq_push_long_tuple c d)) = 1"
  by (simp add: sq_push_long_tuple_def Let_def)

lemma dump_loop_progress:
  "SharedQueueDump_loop c st = (False, c', st') \<Longrightarrow> 0 < cs_ntuples c'"
proof (induction st arbitrary: c)
  case Nil
  then show ?case by simp
next
  case (Cons d rest)
  show ?case
  proof (cases "size_t (QUEUE_FREE_SPACE c) < 4 + int (length d)")
    case False
    then show ?thesis using Cons.prems Cons.IH by (simp add: Let_def)
  next
    case full: True
    show ?thesis
    proof (cases "cs_ntuples c \<le> 0")
      case False
      then show ?thesis using Cons.prems full by simp
    next
      case True
      obtain b c1 where p: "sq_push_long_tuple c d = (b, c1)"
        by (cases "sq_push_long_tuple c d") auto
      then have n: "cs_ntuples c1 = 1" using push_ntuples [of c d] by simp
      show ?thesis
      proof (cases b)
        case True
        then show ?thesis using Cons.prems full \<open>cs_ntuples c \<le> 0\<close> p Cons.IH by simp
      next
        case False
        then show ?thesis using Cons.prems full \<open>cs_ntuples c \<le> 0\<close> p n by simp
      qed
    qed
  qed
qed

lemma finish_progress:
  assumes "cs_status c = CONSUMER_ACTIVE" "SharedQueueFinish_slot c st = (c', st', x)"
    "0 < cs_qlength c"
  shows "cs_status c' = CONSUMER_EOF \<or> 0 < cs_ntuples c'"
proof (cases st)
  case None
  then show ?thesis using assms by (auto simp add: SharedQueueFinish_slot_def)
next
  case (Some s)
  show ?thesis
  proof (cases "QUEUE_FREE_SPACE c > cs_qlength c div 2")
    case False
    then have "c' = c" using assms Some by (simp add: SharedQueueFinish_slot_def)
    moreover have "0 < cs_ntuples c"
    proof (rule ccontr)
      assume "\<not> 0 < cs_ntuples c"
      then have "QUEUE_FREE_SPACE c = cs_qlength c" by (simp add: QUEUE_FREE_SPACE_def)
      then show False using False assms(3) by simp
    qed
    ultimately show ?thesis by simp
  next
    case True
    obtain b c1 s1 where dl: "SharedQueueDump_loop c s = (b, c1, s1)"
      by (cases "SharedQueueDump_loop c s") auto
    then have dump: "SharedQueueDump c s = (b, c1, s1)"
      using assms(1) by (simp add: SharedQueueDump_def)
    show ?thesis
    proof (cases b)
      case True
      then show ?thesis using assms Some \<open>QUEUE_FREE_SPACE c > cs_qlength c div 2\<close> dump
        by (auto simp add: SharedQueueFinish_slot_def)
    next
      case False
      then have "c' = c1" using assms Some True dump
        by (simp add: SharedQueueFinish_slot_def)
      then show ?thesis using dump_loop_progress [of c s c1 s1] dl False by simp
    qed
  qed
qed


lemma owed_idle:
  assumes "W = ch_received ch @ rest" "ch_reader ch = None \<or> ch_reader ch = Some WaitsEmpty"
  shows "owed W ch = sum_list (map (\<lambda>t. Suc (length t)) rest) + (if ch_eof ch then 0 else 1)"
  using assms by (auto simp add: owed_def)

lemma owed_long:
  assumes "W = ch_received ch @ rest" "ch_reader ch = long_wait t k"
  shows "owed W ch = sum_list (map (\<lambda>t. Suc (length t)) rest) - k
           + (if ch_eof ch then 0 else 1)"
  using assms by (simp add: owed_def long_wait_def)

lemma locked_owed:
  assumes "chan_inv W fin ch" "ch_reader ch = None \<or> ch_reader ch = Some WaitsEmpty"
  shows "owed W (channel_settle (SharedQueueRead_locked 0 (ch_cstate ch) canwait) ch) \<le> owed W ch"
    and "0 < cs_ntuples (ch_cstate ch) \<or> cs_status (ch_cstate ch) = CONSUMER_EOF \<Longrightarrow>
      owed W (channel_settle (SharedQueueRead_locked 0 (ch_cstate ch) canwait) ch) < owed W ch"
proof -
  let ?ch' = "channel_settle (SharedQueueRead_locked 0 (ch_cstate ch) canwait) ch"
  have inv: "phase W (ch_cstate ch) (ch_store ch) (ch_reader ch) (ch_received ch)"
    "4 < cs_qlength (ch_cstate ch)" "cs_qlength (ch_cstate ch) < 2147483648"
    "\<forall>t\<in>set W. length t < 2147483648"
    "cs_status (ch_cstate ch) = CONSUMER_ACTIVE \<or>
      (cs_status (ch_cstate ch) = CONSUMER_EOF \<or> cs_status (ch_cstate ch) = CONSUMER_DONE) \<and>
      ch_store ch = None"
    "ch_eof ch \<longleftrightarrow> cs_status (ch_cstate ch) = CONSUMER_DONE"
    using assms(1) by (auto simp add: chan_inv_def)
  have idle: "ch_reader ch \<noteq> long_wait t k" for t k
    using assms(2) by (auto simp add: long_wait_def)
  have "owed W ?ch' \<le> owed W ch \<and>
    (0 < cs_ntuples (ch_cstate ch) \<or> cs_status (ch_cstate ch) = CONSUMER_EOF \<longrightarrow>
       owed W ?ch' < owed W ch)"
    using inv(1)
  proof (cases rule: phase.cases)
    case (Normal ts)
    show ?thesis
    proof (cases ts)
      case Nil
      then have n: "cs_ntuples (ch_cstate ch) \<le> 0"
        using Normal(1) by (simp_all add: ring_chunks_def)
      have w: "W = ch_received ch @ stored (ch_store ch)" using Normal(3) Nil by simp
      show ?thesis
      proof (cases "cs_status (ch_cstate ch) = CONSUMER_EOF")
        case True
        from locked_empty(1) [OF n True] obtain evs where
          r: "SharedQueueRead_locked 0 (ch_cstate ch) canwait
            = (Returns True None, (ch_cstate ch)\<lparr>cs_status := CONSUMER_DONE\<rparr>, evs)" by blast
        have e: "\<not> ch_eof ch" using inv(6) True by simp
        have "owed W ?ch' < owed W ch"
          unfolding owed_idle [OF w assms(2)] using e w
          by (simp add: owed_def r channel_settle_def)
        then show ?thesis by simp
      next
        case False
        then have a: "cs_status (ch_cstate ch) = CONSUMER_ACTIVE \<or>
            cs_status (ch_cstate ch) = CONSUMER_DONE" using inv(5) by auto
        from locked_empty(2) [OF n a] obtain evs where
          r: "SharedQueueRead_locked 0 (ch_cstate ch) canwait
            = (if canwait then WaitsEmpty else Returns False None, ch_cstate ch, evs)" by blast
        have "owed W ?ch' = owed W ch"
          unfolding owed_idle [OF w assms(2)] using w
          by (simp add: owed_def r channel_settle_def)
        then show ?thesis using False n by simp
      qed
    next
      case (Cons t ts')
      then have ch1: "ring_chunks (ch_cstate ch) (record_bytes t # map record_bytes ts')"
        using Normal(1) by simp
      from locked_record [OF ch1 inv(2,3), of 0 canwait] obtain cs' evs where
        r: "SharedQueueRead_locked 0 (ch_cstate ch) canwait = (Returns False (Some t), cs', evs)"
        by blast
      have w: "W = ch_received ch @ t # ts' @ stored (ch_store ch)" using Normal(3) Cons by simp
      have "owed W ?ch' < owed W ch"
        unfolding owed_idle [OF w assms(2)] using w
        by (simp add: owed_def r channel_settle_def)
      then show ?thesis by simp
    qed
  next
    case (Partial t k rest)
    then have k: "k = 0" using idle by auto
    have lt: "length t < 2147483648" using inv(4) Partial(5) by simp
    have ch1: "ring_chunks (ch_cstate ch) [fragment (room (ch_cstate ch)) t 0]"
      and m: "room (ch_cstate ch) < length t"
      using Partial(1,2) k by simp_all
    from locked_first [OF ch1 m lt inv(2,3), of 0 canwait] obtain cs' evs where
      r: "SharedQueueRead_locked 0 (ch_cstate ch) canwait
          = (WaitsLong \<lparr>pl_msglen = int (length t), pl_msg = take (room (ch_cstate ch)) t,
                        pl_offset = int (room (ch_cstate ch))\<rparr>, cs', evs)"
      by blast
    have pos: "0 < room (ch_cstate ch)" using inv(2) by (simp add: room_def)
    have "owed W ?ch' < owed W ch"
      unfolding owed_idle [OF Partial(5) assms(2)] using Partial(5) m pos
      by (simp add: owed_def r channel_settle_def)
    then show ?thesis by simp
  next
    case (Await k t rest)
    then show ?thesis using idle by simp
  next
    case (Last t k ts)
    then show ?thesis using idle by simp
  qed
  then show "owed W ?ch' \<le> owed W ch"
    and "0 < cs_ntuples (ch_cstate ch) \<or> cs_status (ch_cstate ch) = CONSUMER_EOF \<Longrightarrow>
      owed W ?ch' < owed W ch" by simp_all
qed

lemma long_owed:
  assumes "chan_inv W fin ch" "ch_reader ch = Some (WaitsLong ps)"
  shows "owed W (channel_settle (sq_pull_long_tuple_wake 0 (ch_cstate ch) ps) ch) \<le> owed W ch"
    and "0 < cs_ntuples (ch_cstate ch) \<or> cs_status (ch_cstate ch) = CONSUMER_EOF \<Longrightarrow>
      owed W (channel_settle (sq_pull_long_tuple_wake 0 (ch_cstate ch) ps) ch) < owed W ch"
proof -
  let ?ch' = "channel_settle (sq_pull_long_tuple_wake 0 (ch_cstate ch) ps) ch"
  have inv: "phase W (ch_cstate ch) (ch_store ch) (ch_reader ch) (ch_received ch)"
    "4 < cs_qlength (ch_cstate ch)" "cs_qlength (ch_cstate ch) < 2147483648"
    "\<forall>t\<in>set W. length t < 2147483648"
    using assms(1) by (auto simp add: chan_inv_def)
  have "owed W ?ch' \<le> owed W ch \<and>
    (0 < cs_ntuples (ch_cstate ch) \<or> cs_status (ch_cstate ch) = CONSUMER_EOF \<longrightarrow>
       owed W ?ch' < owed W ch)"
    using inv(1)
  proof (cases rule: phase.cases)
    case (Normal ts)
    then show ?thesis using assms(2) by auto
  next
    case (Partial t k rest)
    then have rd: "ch_reader ch = long_wait t k" using assms(2) by auto
    then have ps: "ps = \<lparr>pl_msglen = int (length t), pl_msg = take k t, pl_offset = int k\<rparr>"
      using assms(2) by (auto simp add: long_wait_def)
    have lt: "length t < 2147483648" using inv(4) Partial(5) by simp
    have k: "k \<le> length t" using Partial(2) by simp
    from wake_middle [OF Partial(1) k lt inv(2,3) Partial(2), of 0] obtain cs' evs where
      r: "sq_pull_long_tuple_wake 0 (ch_cstate ch) ps
          = (WaitsLong \<lparr>pl_msglen = int (length t),
                        pl_msg = take (k + room (ch_cstate ch)) t,
                        pl_offset = int (k + room (ch_cstate ch))\<rparr>, cs', evs)"
      unfolding ps by blast
    have pos: "0 < room (ch_cstate ch)" using inv(2) by (simp add: room_def)
    have "owed W ?ch' < owed W ch"
      unfolding owed_long [OF Partial(5) rd] using Partial(2,5) pos
      by (simp add: owed_def r channel_settle_def)
    then show ?thesis by simp
  next
    case (Await k t rest)
    from wake_await [OF Await(2), of 0 ps] obtain evs where
      r: "sq_pull_long_tuple_wake 0 (ch_cstate ch) ps = (WaitsLong ps, ch_cstate ch, evs)"
      by blast
    have "?ch' = ch" using assms(2) by (simp add: r channel_settle_def)
    then show ?thesis using Await(2,9) by (simp add: LONG_TUPLE_def)
  next
    case (Last t k ts)
    then have ps: "ps = \<lparr>pl_msglen = int (length t), pl_msg = take k t, pl_offset = int k\<rparr>"
      using assms(2) by (auto simp add: long_wait_def)
    have lt: "length t < 2147483648" using inv(4) Last(5) by simp
    from wake_last [OF Last(1,3) lt inv(2,3) Last(2), of 0] obtain cs' evs where
      r: "sq_pull_long_tuple_wake 0 (ch_cstate ch) ps = (Returns False (Some t), cs', evs)"
      unfolding ps by blast
    have "owed W ?ch' < owed W ch"
      unfolding owed_long [OF Last(5,4)] using Last(3,5)
      by (simp add: owed_def r channel_settle_def)
    then show ?thesis by simp
  qed
  then show "owed W ?ch' \<le> owed W ch"
    and "0 < cs_ntuples (ch_cstate ch) \<or> cs_status (ch_cstate ch) = CONSUMER_EOF \<Longrightarrow>
      owed W ?ch' < owed W ch" by simp_all
qed

lemma finish_owed: "owed W (channel_step ch Finish) = owed W ch"
  by (simp add: owed_def split: prod.splits)

lemma read_owed:
  assumes "chan_inv W fin ch"
  shows "owed W (channel_step ch (Read canwait)) \<le> owed W ch"
    and "ch_reader ch = None \<Longrightarrow>
      0 < cs_ntuples (ch_cstate ch) \<or> cs_status (ch_cstate ch) = CONSUMER_EOF \<Longrightarrow>
      owed W (channel_step ch (Read canwait)) < owed W ch"
proof -
  show "owed W (channel_step ch (Read canwait)) \<le> owed W ch"
  proof (cases "ch_reader ch")
    case None
    then show ?thesis using locked_owed(1) [OF assms, of canwait] by simp
  next
    case (Some w)
    then show ?thesis by simp
  qed
  show "owed W (channel_step ch (Read canwait)) < owed W ch"
    if "ch_reader ch = None"
      "0 < cs_ntuples (ch_cstate ch) \<or> cs_status (ch_cstate ch) = CONSUMER_EOF"
    using locked_owed(2) [OF assms, of canwait] that by simp
qed

lemma wake_owed:
  assumes "chan_inv W fin ch"
  shows "owed W (channel_step ch Wake) \<le> owed W ch"
    and "ch_reader ch \<noteq> None \<Longrightarrow>
      0 < cs_ntuples (ch_cstate ch) \<or> cs_status (ch_cstate ch) = CONSUMER_EOF \<Longrightarrow>
      owed W (channel_step ch Wake) < owed W ch"
proof -
  have "phase W (ch_cstate ch) (ch_store ch) (ch_reader ch) (ch_received ch)"
    using assms by (simp add: chan_inv_def)
  from phase_reader [OF this] consider "ch_reader ch = None" | "ch_reader ch = Some WaitsEmpty"
    | ps where "ch_reader ch = Some (WaitsLong ps)" by auto
  then have "owed W (channel_step ch Wake) \<le> owed W ch \<and>
    (ch_reader ch \<noteq> None \<longrightarrow>
      0 < cs_ntuples (ch_cstate ch) \<or> cs_status (ch_cstate ch) = CONSUMER_EOF \<longrightarrow>
      owed W (channel_step ch Wake) < owed W ch)"
  proof cases
    case 1
    then show ?thesis by simp
  next
    case 2
    then show ?thesis using locked_owed [OF assms, of True]
      by (simp add: SharedQueueRead_wake_def)
  next
    case 3
    then show ?thesis using long_owed [OF assms 3]
      by (simp add: SharedQueueRead_wake_def)
  qed
  then show "owed W (channel_step ch Wake) \<le> owed W ch"
    and "ch_reader ch \<noteq> None \<Longrightarrow>
      0 < cs_ntuples (ch_cstate ch) \<or> cs_status (ch_cstate ch) = CONSUMER_EOF \<Longrightarrow>
      owed W (channel_step ch Wake) < owed W ch" by simp_all
qed

lemma finish_ready:
  assumes "chan_inv W fin ch" "\<not> ch_eof ch"
  shows "0 < cs_ntuples (ch_cstate (channel_step ch Finish)) \<or>
         cs_status (ch_cstate (channel_step ch Finish)) = CONSUMER_EOF"
proof -
  obtain c' st' x where w: "SharedQueueFinish_slot (ch_cstate ch) (ch_store ch) = (c', st', x)"
    by (cases "SharedQueueFinish_slot (ch_cstate ch) (ch_store ch)") auto
  have step: "channel_step ch Finish = ch\<lparr>ch_cstate := c', ch_store := st'\<rparr>"
    by (simp add: w)
  have inv: "4 < cs_qlength (ch_cstate ch)"
    "cs_status (ch_cstate ch) = CONSUMER_ACTIVE \<or>
      (cs_status (ch_cstate ch) = CONSUMER_EOF \<or> cs_status (ch_cstate ch) = CONSUMER_DONE) \<and>
      ch_store ch = None"
    "ch_eof ch \<longleftrightarrow> cs_status (ch_cstate ch) = CONSUMER_DONE"
    using assms(1) by (auto simp add: chan_inv_def)
  show ?thesis
  proof (cases "cs_status (ch_cstate ch) = CONSUMER_ACTIVE")
    case True
    have "0 < cs_qlength (ch_cstate ch)" using inv(1) by simp
    from finish_progress [OF True w this] show ?thesis unfolding step by auto
  next
    case False
    then have n: "ch_store ch = None" and e: "cs_status (ch_cstate ch) = CONSUMER_EOF"
      using inv(2,3) assms(2) by auto
    have "c' = ch_cstate ch" using finish_inactive [OF False, of c' st' x] w n by simp
    then show ?thesis unfolding step using e by simp
  qed
qed

lemma round_inv:
  assumes "chan_inv W fin ch"
  shows "chan_inv W True (channel_run ch [Finish, Wake, Read True])"
  using step_read [OF step_wake [OF step_finish [OF assms]], of True]
  by (simp add: channel_run_def)

lemma round_owed:
  assumes "chan_inv W fin ch"
  shows "owed W (channel_run ch [Finish, Wake, Read True]) \<le> owed W ch"
    and "\<not> ch_eof ch \<Longrightarrow> owed W (channel_run ch [Finish, Wake, Read True]) < owed W ch"
proof -
  define ch1 where "ch1 = channel_step ch Finish"
  define ch2 where "ch2 = channel_step ch1 Wake"
  define ch3 where "ch3 = channel_step ch2 (Read True)"
  have run: "channel_run ch [Finish, Wake, Read True] = ch3"
    by (simp add: channel_run_def ch1_def ch2_def ch3_def)
  have inv1: "chan_inv W True ch1" unfolding ch1_def by (rule step_finish [OF assms])
  have inv2: "chan_inv W True ch2" unfolding ch2_def by (rule step_wake [OF inv1])
  have o1: "owed W ch1 = owed W ch" unfolding ch1_def by (rule finish_owed)
  have o2: "owed W ch2 \<le> owed W ch1" unfolding ch2_def by (rule wake_owed(1) [OF inv1])
  have o3: "owed W ch3 \<le> owed W ch2" unfolding ch3_def by (rule read_owed(1) [OF inv2])
  show "owed W (channel_run ch [Finish, Wake, Read True]) \<le> owed W ch"
    unfolding run using o1 o2 o3 by simp
  show "owed W (channel_run ch [Finish, Wake, Read True]) < owed W ch" if "\<not> ch_eof ch"
  proof -
    have ready: "0 < cs_ntuples (ch_cstate ch1) \<or> cs_status (ch_cstate ch1) = CONSUMER_EOF"
      unfolding ch1_def by (rule finish_ready [OF assms that])
    show ?thesis
    proof (cases "ch_reader ch1 = None")
      case True
      then have "ch2 = ch1" unfolding ch2_def by simp
      then have "owed W ch3 < owed W ch1"
        unfolding ch3_def using read_owed(2) [OF inv1 True ready, of True] by simp
      then show ?thesis unfolding run using o1 by simp
    next
      case False
      have "owed W ch2 < owed W ch1"
        unfolding ch2_def by (rule wake_owed(2) [OF inv1 False ready])
      then show ?thesis unfolding run using o1 o3 by simp
    qed
  qed
qed

lemma owed_eof:
  assumes "chan_inv W fin ch" "ch_eof ch"
  shows "owed W ch = 0"
  using inv_eof [OF assms] assms(2) by (simp add: owed_def)

lemma owed_zero: "owed W ch = 0 \<Longrightarrow> ch_eof ch"
  by (simp add: owed_def split: if_splits)

lemma rounds_live:
  assumes "chan_inv W fin ch" "owed W ch \<le> n"
  shows "ch_eof (channel_run ch (concat (replicate n [Finish, Wake, Read True]))) \<and>
         ch_received (channel_run ch (concat (replicate n [Finish, Wake, Read True]))) = W"
  using assms
proof (induction n arbitrary: ch fin)
  case 0
  then have "ch_eof ch" using owed_zero by simp
  then show ?case using inv_eof [OF "0.prems"(1)] by (simp add: channel_run_def)
next
  case (Suc n)
  let ?ch = "channel_run ch [Finish, Wake, Read True]"
  have inv: "chan_inv W True ?ch" by (rule round_inv [OF Suc.prems(1)])
  have "owed W ?ch \<le> n"
  proof (cases "ch_eof ch")
    case True
    then show ?thesis using round_owed(1) [OF Suc.prems(1)] owed_eof [OF Suc.prems(1)] by simp
  next
    case False
    then show ?thesis using round_owed(2) [OF Suc.prems(1)] Suc.prems(2) by simp
  qed
  moreover have "channel_run ch (concat (replicate (Suc n) [Finish, Wake, Read True]))
      = channel_run ?ch (concat (replicate n [Finish, Wake, Read True]))"
    by (simp add: channel_run_def)
  ultimately show ?case using Suc.IH [OF inv] by simp
qed

lemma owed_bound:
  "owed W ch \<le> Suc (length (concat W) + length W)"
proof -
  have a: "sum_list (map (\<lambda>t. Suc (length t)) xs) = length (concat xs) + length xs"
    for xs :: "byte list list"
    by (induction xs) simp_all
  have "sum_list (map (\<lambda>t. Suc (length t)) (drop k W)) \<le> sum_list (map (\<lambda>t. Suc (length t)) W)"
    for k
  proof -
    have "sum_list (map (\<lambda>t. Suc (length t)) W)
      = sum_list (map (\<lambda>t. Suc (length t)) (take k W))
        + sum_list (map (\<lambda>t. Suc (length t)) (drop k W))"
      by (metis append_take_drop_id map_append sum_list.append)
    then show ?thesis by simp
  qed
  from this [of "length (ch_received ch)"]
  have "sum_list (map (\<lambda>t. Suc (length t)) (drop (length (ch_received ch)) W))
      \<le> length (concat W) + length W" unfolding a .
  moreover have "owed W ch
      \<le> Suc (sum_list (map (\<lambda>t. Suc (length t)) (drop (length (ch_received ch)) W)))"
    unfolding owed_def
    using diff_le_self [of "sum_list (map (\<lambda>t. Suc (length t))
        (drop (length (ch_received ch)) W))"
      "case ch_reader ch of Some (WaitsLong ps) \<Rightarrow> nat (pl_offset ps) | _ \<Rightarrow> 0"]
    by (simp del: diff_le_self split: if_splits)
  ultimately show ?thesis by linarith
qed

lemma live:
  assumes "empty_slot cs" "orderly acts" "\<forall>d\<in>set (written acts). length d < 2147483648"
    "length (concat (written acts)) + length (written acts) < n"
  shows "ch_eof (channel_run (fresh_channel cs)
           (acts @ concat (replicate n [Finish, Wake, Read True]))) \<and>
         ch_received (channel_run (fresh_channel cs)
           (acts @ concat (replicate n [Finish, Wake, Read True]))) = written acts"
proof -
  from reachable_inv [OF assms(1,2,3)] obtain fin where
    inv: "chan_inv (written acts) fin (channel_run (fresh_channel cs) acts)" by blast
  have "owed (written acts) (channel_run (fresh_channel cs) acts) \<le> n"
    using owed_bound [of "written acts" "channel_run (fresh_channel cs) acts"] assms(4) by simp
  from rounds_live [OF inv this] show ?thesis by (simp add: channel_run_append)
qed

subsection \<open>The chunks in the queue and the positions\<close>

lemma drop_record [simp]: "drop 4 (record_bytes t) = t"
  by (simp add: record_bytes_def)

lemma drop_fragment [simp]: "drop 4 (fragment m t k) = take m (drop k t)"
  by (simp add: fragment_def)

lemma map_drop_records [simp]: "map (drop 4 \<circ> record_bytes) ts = ts"
  by (induction ts) simp_all




subsection \<open>Delivery in order, and the positions\<close>

text \<open>
  C2. From an empty queue, whatever the order of the calls of \<^verbatim>\<open>SharedQueueWrite\<close>, of
  \<^verbatim>\<open>SharedQueueFinish\<close> and of \<^verbatim>\<open>SharedQueueRead\<close> and of the resumptions of a waiting
  call, with no data row written after the producer has finished: the data rows that
  the calls of \<^verbatim>\<open>SharedQueueRead\<close> have returned are at every moment the first of the
  data rows written, in the order in which they were written; they are all of them when
  a call has returned true; and they all arrive: when the producer then goes on calling
  \<^verbatim>\<open>SharedQueueFinish\<close> and the consumer \<^verbatim>\<open>SharedQueueRead\<close>, for more rounds than there
  are data rows and bytes written, every data row written has been returned, in order,
  and a call has returned true.
\<close>

theorem C2_fifo:
  assumes "empty_slot cs" "orderly acts" "\<forall>d\<in>set (written acts). length d < 2147483648"
  shows "take (length (ch_received (channel_run (fresh_channel cs) acts))) (written acts)
           = ch_received (channel_run (fresh_channel cs) acts) \<and>
         (ch_eof (channel_run (fresh_channel cs) acts) \<longrightarrow>
          ch_received (channel_run (fresh_channel cs) acts) = written acts) \<and>
         (length (concat (written acts)) + length (written acts) < n \<longrightarrow>
          ch_eof (channel_run (fresh_channel cs) (acts @ reader_rounds n)) \<and>
          ch_received (channel_run (fresh_channel cs) (acts @ reader_rounds n)) = written acts)"
proof -
  from reachable_inv [OF assms] obtain fin where
    i: "chan_inv (written acts) fin (channel_run (fresh_channel cs) acts)" by blast
  have 1: "take (length (ch_received (channel_run (fresh_channel cs) acts))) (written acts)
           = ch_received (channel_run (fresh_channel cs) acts)"
    using inv_prefix [OF i] .
  have 2: "ch_eof (channel_run (fresh_channel cs) acts) \<longrightarrow>
          ch_received (channel_run (fresh_channel cs) acts) = written acts"
    using inv_eof [OF i] by blast
  have 3: "length (concat (written acts)) + length (written acts) < n \<longrightarrow>
          ch_eof (channel_run (fresh_channel cs) (acts @ reader_rounds n)) \<and>
          ch_received (channel_run (fresh_channel cs) (acts @ reader_rounds n)) = written acts"
    unfolding reader_rounds_def using live [OF assms] by blast
  from 1 2 3 show ?thesis by (intro conjI)
qed

lemma fifo_example_eq:
  "fifo_example =
     \<lparr>ch_cstate = \<lparr>cs_pid = 0, cs_node = - 1, cs_ntuples = 0, cs_status = CONSUMER_DONE,
        cs_qstart = [9, 0, 5, 6, 1, 0, 0, 0], cs_qlength = 8,
        cs_qreadpos = 1, cs_qwritepos = 1\<rparr>,
      ch_store = None, ch_reader = None,
      ch_received = [[1, 2], [1, 2, 3, 4, 5, 6], [9]], ch_eof = True\<rparr>"
  unfolding fifo_example_def fifo_acts_def
  by (simp add: write_defs read_defs channel_defs Let_def)

theorem C2_fifo_witness:
  "orderly fifo_acts \<and> ch_eof fifo_example \<and>
   ch_received fifo_example = [[1, 2], [1, 2, 3, 4, 5, 6], [9]] \<and>
   ch_received fifo_example = written fifo_acts \<and>
   orderly fifo_writes \<and> written fifo_writes = [[1, 2], [1, 2, 3, 4, 5, 6], [9]] \<and>
   ch_received (channel_run (fresh_channel (fresh_slot [0, 0, 0, 0, 0, 0, 0, 0])) fifo_writes) = [] \<and>
   ch_eof (channel_run (fresh_channel (fresh_slot [0, 0, 0, 0, 0, 0, 0, 0]))
             (fifo_writes @ reader_rounds 13)) \<and>
   ch_received (channel_run (fresh_channel (fresh_slot [0, 0, 0, 0, 0, 0, 0, 0]))
             (fifo_writes @ reader_rounds 13)) = [[1, 2], [1, 2, 3, 4, 5, 6], [9]]"
proof -
  have e: "empty_slot (fresh_slot [0, 0, 0, 0, 0, 0, 0, 0])"
    by (rule fresh_slot_empty) simp_all
  have o: "orderly fifo_acts" by (simp add: fifo_acts_def written_def)
  have wa: "written fifo_acts = [[1, 2], [1, 2, 3, 4, 5, 6], [9]]"
    by (simp add: fifo_acts_def written_def)
  have la: "\<forall>d\<in>set (written fifo_acts). length d < 2147483648" unfolding wa by simp
  have ow: "orderly fifo_writes" by (simp add: fifo_writes_def)
  have ww: "written fifo_writes = [[1, 2], [1, 2, 3, 4, 5, 6], [9]]"
    by (simp add: fifo_writes_def written_def)
  have lw: "\<forall>d\<in>set (written fifo_writes). length d < 2147483648" unfolding ww by simp
  have n: "length (concat (written fifo_writes)) + length (written fifo_writes) < 13"
    unfolding ww by simp
  have x: "ch_eof fifo_example" "ch_received fifo_example = [[1, 2], [1, 2, 3, 4, 5, 6], [9]]"
    by (simp_all add: fifo_example_eq)
  have y: "ch_received fifo_example = written fifo_acts"
    using C2_fifo [OF e o la, of 0] x(1) unfolding fifo_example_def [symmetric] by blast
  have z: "ch_eof (channel_run (fresh_channel (fresh_slot [0, 0, 0, 0, 0, 0, 0, 0]))
             (fifo_writes @ reader_rounds 13))"
    "ch_received (channel_run (fresh_channel (fresh_slot [0, 0, 0, 0, 0, 0, 0, 0]))
             (fifo_writes @ reader_rounds 13)) = [[1, 2], [1, 2, 3, 4, 5, 6], [9]]"
    using C2_fifo [OF e ow lw, of 13] n unfolding ww by blast+
  have v: "ch_received (channel_run (fresh_channel (fresh_slot [0, 0, 0, 0, 0, 0, 0, 0])) fifo_writes) = []"
    unfolding fifo_writes_def by (simp add: write_defs channel_defs Let_def)
  from o x y ow ww v z show ?thesis by (intro conjI)
qed













end
